(* ===== verification/Prelude.thy ===== *)
theory Prelude
  imports Main "HOL-Library.Word" "HOL-Library.List_Lexorder"
begin

text \<open>
  Shared vocabulary of the development: the machine integers of the Rust sources as
  words, byte strings, results and panics as values, little- and big-endian byte
  conversion, slices, checked and saturating arithmetic, and the generic lemmas on
  lists and words that the component theories use.  The collections
  \<open>byte_simps\<close> and \<open>result_simps\<close> carry the codec proofs.
\<close>

unbundle bit_operations_syntax

named_theorems byte_simps \<open>slices, writes and endian conversions\<close>
named_theorems result_simps \<open>sequencing of fallible computations\<close>

section \<open>Types\<close>

type_synonym u8 = "8 word"
type_synonym u16 = "16 word"
type_synonym u32 = "32 word"
type_synonym u64 = "64 word"
type_synonym u128 = "128 word"
type_synonym bytes = "u8 list"
type_synonym hash32 = "u8 list"

section \<open>Results\<close>

text \<open>
  A Rust \<open>Result<T, E>\<close> is \<open>'e + 'a\<close> with \<open>Inl\<close> the error; \<open>bindE\<close> is the
  \<open>?\<close> operator and \<open>mapE\<close> is \<open>map_err\<close>.
\<close>

definition bindE :: "'e + 'a \<Rightarrow> ('a \<Rightarrow> 'e + 'b) \<Rightarrow> 'e + 'b" where
  "bindE m f = (case m of Inl e \<Rightarrow> Inl e | Inr x \<Rightarrow> f x)"

definition mapE :: "('e \<Rightarrow> 'f) \<Rightarrow> 'e + 'a \<Rightarrow> 'f + 'a" where
  "mapE g m = (case m of Inl e \<Rightarrow> Inl (g e) | Inr x \<Rightarrow> Inr x)"

definition ok_or :: "'a option \<Rightarrow> 'e \<Rightarrow> 'e + 'a" where
  "ok_or m e = (case m of None \<Rightarrow> Inl e | Some x \<Rightarrow> Inr x)"

lemma bindE_simps [simp]: "bindE (Inl e) f = Inl e" "bindE (Inr x) f = f x"
  by (simp_all add: bindE_def)

lemma mapE_simps [simp]: "mapE g (Inl e) = Inl (g e)" "mapE g (Inr x) = Inr x"
  by (simp_all add: mapE_def)

lemma ok_or_simps [simp]: "ok_or None e = Inl e" "ok_or (Some x) e = Inr x"
  by (simp_all add: ok_or_def)

lemma bindE_eq_Inr [result_simps]: "bindE m f = Inr y \<longleftrightarrow> (\<exists>x. m = Inr x \<and> f x = Inr y)"
  by (cases m) auto

lemma bindE_eq_Inl [result_simps]:
  "bindE m f = Inl e \<longleftrightarrow> m = Inl e \<or> (\<exists>x. m = Inr x \<and> f x = Inl e)"
  by (cases m) auto

lemma mapE_eq_Inr [result_simps]: "mapE g m = Inr y \<longleftrightarrow> m = Inr y"
  by (cases m) auto

lemma ok_or_eq_Inr [result_simps]: "ok_or m e = Inr y \<longleftrightarrow> m = Some y"
  by (cases m) auto

lemma ok_or_eq_Inl [result_simps]: "ok_or m e = Inl f \<longleftrightarrow> m = None \<and> f = e"
  by (cases m) auto

text \<open>Collecting an iterator of results stops at the first error.\<close>

fun mapM_E :: "('a \<Rightarrow> 'e + 'b) \<Rightarrow> 'a list \<Rightarrow> 'e + 'b list" where
  "mapM_E f [] = Inr []"
| "mapM_E f (x # xs) = bindE (f x) (\<lambda>y. bindE (mapM_E f xs) (\<lambda>ys. Inr (y # ys)))"

lemma mapM_E_eq_Inr:
  "mapM_E f xs = Inr ys \<longleftrightarrow> list_all2 (\<lambda>x y. f x = Inr y) xs ys"
  by (induction xs arbitrary: ys) (auto simp: result_simps list_all2_Cons1)

lemma length_mapM_E: "mapM_E f xs = Inr ys \<Longrightarrow> length ys = length xs"
  by (auto simp: mapM_E_eq_Inr list_all2_lengthD)

section \<open>Slices and writes\<close>

definition sub_bytes :: "'a list \<Rightarrow> nat \<Rightarrow> nat \<Rightarrow> 'a list" where
  "sub_bytes bs a b = take (b - a) (drop a bs)"

definition put_bytes :: "'a list \<Rightarrow> nat \<Rightarrow> 'a list \<Rightarrow> 'a list" where
  "put_bytes bs a xs = take a bs @ xs @ drop (a + length xs) bs"

lemma length_sub_bytes [byte_simps]:
  "length (sub_bytes bs a b) = min (b - a) (length bs - a)"
  by (simp add: sub_bytes_def min.commute)

lemma length_put_bytes [byte_simps]:
  "a + length xs \<le> length bs \<Longrightarrow> length (put_bytes bs a xs) = length bs"
  by (simp add: put_bytes_def)

lemma put_bytes_start:
  "length xs \<le> m \<Longrightarrow> put_bytes (replicate m z) 0 xs = xs @ replicate (m - length xs) z"
  by (simp add: put_bytes_def)

lemma put_bytes_extend:
  "length pre = a \<Longrightarrow> length xs \<le> m \<Longrightarrow>
     put_bytes (pre @ replicate m z) a xs = (pre @ xs) @ replicate (m - length xs) z"
  by (simp add: put_bytes_def)

lemma sub_bytes_join:
  "a \<le> b \<Longrightarrow> b \<le> c \<Longrightarrow> sub_bytes bs a b @ sub_bytes bs b c = sub_bytes bs a c"
proof -
  assume "a \<le> b" "b \<le> c"
  then have "c - a = (b - a) + (c - b)" "b = a + (b - a)" by simp_all
  then show ?thesis
    by (metis sub_bytes_def take_add drop_drop add.commute)
qed

lemma sub_bytes_join_append:
  "a \<le> b \<Longrightarrow> b \<le> c \<Longrightarrow> sub_bytes bs a b @ sub_bytes bs b c @ r = sub_bytes bs a c @ r"
  using sub_bytes_join [of a b c bs] by (metis append_assoc)

lemma sub_bytes_full: "length bs \<le> n \<Longrightarrow> sub_bytes bs 0 n = bs"
  by (simp add: sub_bytes_def)

lemma sub_bytes_to_drop: "length bs \<le> n \<Longrightarrow> sub_bytes bs a n = drop a bs"
  by (simp add: sub_bytes_def)

lemma sub_bytes_append1:
  "length xs = n \<Longrightarrow> sub_bytes (xs @ ys) 0 n = xs"
  by (simp add: sub_bytes_def)

lemma sub_bytes_skip:
  "length xs \<le> a \<Longrightarrow> sub_bytes (xs @ ys) a b = sub_bytes ys (a - length xs) (b - length xs)"
  by (simp add: sub_bytes_def)

lemma nth_sub_bytes:
  "i < b - a \<Longrightarrow> b \<le> length bs \<Longrightarrow> sub_bytes bs a b ! i = bs ! (a + i)"
  by (simp add: sub_bytes_def)

section \<open>Endian conversion\<close>

text \<open>
  \<open>to_le n x\<close> is the first \<open>n\<close> bytes of \<open>x.to_le_bytes()\<close> and \<open>from_le\<close> is
  \<open>from_le_bytes\<close>; both go through the natural number the bytes denote.
\<close>

fun le_val :: "bytes \<Rightarrow> nat" where
  "le_val [] = 0"
| "le_val (b # bs) = unat b + 256 * le_val bs"

fun le_enc :: "nat \<Rightarrow> nat \<Rightarrow> bytes" where
  "le_enc 0 x = []"
| "le_enc (Suc n) x = of_nat (x mod 256) # le_enc n (x div 256)"

definition to_le :: "nat \<Rightarrow> 'a::len word \<Rightarrow> bytes" where
  "to_le n w = le_enc n (unat w)"

definition from_le :: "bytes \<Rightarrow> 'a::len word" where
  "from_le bs = of_nat (le_val bs)"

definition to_be :: "nat \<Rightarrow> 'a::len word \<Rightarrow> bytes" where
  "to_be n w = rev (to_le n w)"

definition from_be :: "bytes \<Rightarrow> 'a::len word" where
  "from_be bs = from_le (rev bs)"

lemma length_le_enc [simp]: "length (le_enc n x) = n"
  by (induction n arbitrary: x) auto

lemma length_to_le [simp]: "length (to_le n w) = n"
  by (simp add: to_le_def)

lemma length_to_be [simp]: "length (to_be n w) = n"
  by (simp add: to_be_def)

lemma unat_u8_lt: "unat (b :: u8) < 256"
  using unsigned_less [of b] by simp

lemma le_val_lt: "le_val bs < 256 ^ length bs"
proof (induction bs)
  case (Cons b bs)
  have "unat b + 256 * le_val bs < 256 + 256 * le_val bs"
    using unat_u8_lt [of b] by simp
  also have "\<dots> = 256 * Suc (le_val bs)" by simp
  also have "\<dots> \<le> 256 * 256 ^ length bs"
    using Cons.IH by (intro mult_le_mono2) simp
  finally show ?case by simp
qed simp

lemma le_val_le_enc: "le_val (le_enc n x) = x mod 256 ^ n"
proof (induction n arbitrary: x)
  case (Suc n)
  have "unat (of_nat (x mod 256) :: u8) = x mod 256"
    by (simp add: unat_of_nat)
  then show ?case
    using Suc by (simp add: mod_mult2_eq)
qed simp

lemma le_enc_le_val: "le_enc (length bs) (le_val bs) = bs"
proof (induction bs)
  case (Cons b bs)
  have "(unat b + 256 * le_val bs) mod 256 = unat b"
    and "(unat b + 256 * le_val bs) div 256 = le_val bs"
    using unat_u8_lt [of b] by simp_all
  then show ?case using Cons by simp
qed simp

lemma from_le_to_le:
  assumes "LENGTH('a) \<le> 8 * n"
  shows "from_le (to_le n (w :: 'a::len word)) = w"
proof -
  have "unat w < 2 ^ LENGTH('a)" by simp
  also have "\<dots> \<le> 2 ^ (8 * n)" using assms by (intro power_increasing) auto
  also have "\<dots> = 256 ^ n" by (simp add: power_mult)
  finally have "unat w mod 256 ^ n = unat w" by simp
  then show ?thesis by (simp add: from_le_def to_le_def le_val_le_enc)
qed

lemma to_le_from_le:
  assumes "length bs = n" "8 * n \<le> LENGTH('a)"
  shows "to_le n (from_le bs :: 'a::len word) = bs"
proof -
  have "le_val bs < 256 ^ n" using le_val_lt [of bs] assms by simp
  also have "(256 :: nat) ^ n = 2 ^ (8 * n)" by (simp add: power_mult)
  also have "(2 :: nat) ^ (8 * n) \<le> 2 ^ LENGTH('a)" using assms by (intro power_increasing) auto
  finally have "unat (of_nat (le_val bs) :: 'a word) = le_val bs"
    by (simp add: unat_of_nat)
  then show ?thesis
    using le_enc_le_val [of bs] assms by (simp add: from_le_def to_le_def)
qed

lemma unat_from_le:
  assumes "8 * length bs \<le> LENGTH('a)"
  shows "unat (from_le bs :: 'a::len word) = le_val bs"
proof -
  have "le_val bs < 256 ^ length bs" by (rule le_val_lt)
  also have "(256 :: nat) ^ length bs = 2 ^ (8 * length bs)" by (simp add: power_mult)
  also have "(2 :: nat) ^ (8 * length bs) \<le> 2 ^ LENGTH('a)" using assms by (intro power_increasing) auto
  finally show ?thesis by (simp add: from_le_def unat_of_nat)
qed

lemma from_le_to_le_u16 [byte_simps]: "from_le (to_le 2 w) = (w :: u16)"
  and from_le_to_le_u32 [byte_simps]: "from_le (to_le 4 v) = (v :: u32)"
  and from_le_to_le_u64 [byte_simps]: "from_le (to_le 8 x) = (x :: u64)"
  and from_le_to_le_u128 [byte_simps]: "from_le (to_le 16 y) = (y :: u128)"
  by (simp_all add: from_le_to_le)

lemma to_le_from_le_u16 [byte_simps]: "length bs = 2 \<Longrightarrow> to_le 2 (from_le bs :: u16) = bs"
  and to_le_from_le_u32 [byte_simps]: "length bs = 4 \<Longrightarrow> to_le 4 (from_le bs :: u32) = bs"
  and to_le_from_le_u64 [byte_simps]: "length bs = 8 \<Longrightarrow> to_le 8 (from_le bs :: u64) = bs"
  and to_le_from_le_u128 [byte_simps]: "length bs = 16 \<Longrightarrow> to_le 16 (from_le bs :: u128) = bs"
  by (simp_all add: to_le_from_le)

lemma to_le_inj:
  "LENGTH('a) \<le> 8 * n \<Longrightarrow> to_le n (v :: 'a::len word) = to_le n w \<longleftrightarrow> v = w"
  by (metis from_le_to_le)

section \<open>Integer arithmetic\<close>

text \<open>
  The release profile compiles with overflow checks, so plain \<open>+\<close>, \<open>-\<close> and \<open>*\<close>
  panic where \<open>checked_*\<close> return \<open>None\<close>; the same functions model both, with
  \<open>None\<close> read as a panic at the sites that do not handle it.
\<close>

definition checked_add :: "'a::len word \<Rightarrow> 'a word \<Rightarrow> 'a word option" where
  "checked_add a b = (if unat a + unat b < 2 ^ LENGTH('a) then Some (a + b) else None)"

definition checked_sub :: "'a::len word \<Rightarrow> 'a word \<Rightarrow> 'a word option" where
  "checked_sub a b = (if b \<le> a then Some (a - b) else None)"

definition saturating_add :: "'a::len word \<Rightarrow> 'a word \<Rightarrow> 'a word" where
  "saturating_add a b = (if unat a + unat b < 2 ^ LENGTH('a) then a + b else - 1)"

definition saturating_sub :: "'a::len word \<Rightarrow> 'a word \<Rightarrow> 'a word" where
  "saturating_sub a b = (if b \<le> a then a - b else 0)"

definition saturating_mul :: "'a::len word \<Rightarrow> 'a word \<Rightarrow> 'a word" where
  "saturating_mul a b = (if unat a * unat b < 2 ^ LENGTH('a) then a * b else - 1)"

lemma unat_add_no_overflow:
  "unat (a :: 'a::len word) + unat b < 2 ^ LENGTH('a) \<Longrightarrow> unat (a + b) = unat a + unat b"
  by (simp add: unat_word_ariths)

lemma unat_sub_le: "(b :: 'a::len word) \<le> a \<Longrightarrow> unat (a - b) = unat a - unat b"
  by (rule unat_sub)

lemma checked_add_Some:
  "checked_add a b = Some (c :: 'a::len word) \<longleftrightarrow> c = a + b \<and> unat a + unat b < 2 ^ LENGTH('a)"
  by (auto simp: checked_add_def)

lemma checked_add_None:
  "checked_add a b = (None :: 'a::len word option) \<longleftrightarrow> 2 ^ LENGTH('a) \<le> unat a + unat b"
  by (auto simp: checked_add_def)

lemma unat_checked_add: "checked_add a b = Some c \<Longrightarrow> unat c = unat a + unat b"
  by (auto simp: checked_add_Some unat_add_no_overflow)

lemma checked_sub_Some: "checked_sub a b = Some c \<longleftrightarrow> c = a - b \<and> b \<le> a"
  by (auto simp: checked_sub_def)

lemma checked_sub_None: "checked_sub a b = None \<longleftrightarrow> a < b"
  by (auto simp: checked_sub_def)

lemma unat_checked_sub: "checked_sub a b = Some c \<Longrightarrow> unat c = unat a - unat b"
  by (auto simp: checked_sub_Some unat_sub_le)

lemma checked_add_unat: "checked_add a b = Some c \<longleftrightarrow> unat c = unat a + unat b"
proof
  assume "unat c = unat a + unat b"
  then have "unat a + unat b < 2 ^ LENGTH('a)" by (metis unsigned_less)
  then show "checked_add a b = Some c"
    using \<open>unat c = unat a + unat b\<close> by (simp add: checked_add_Some word_unat_eq_iff unat_add_no_overflow)
qed (rule unat_checked_add)

lemma checked_sub_unat: "checked_sub a b = Some c \<longleftrightarrow> unat c + unat b = unat a"
proof
  assume "unat c + unat b = unat a"
  then have "b \<le> a" "unat (a - b) = unat c" by (auto simp: word_le_nat_alt unat_sub_le)
  then show "checked_sub a b = Some c" by (simp add: checked_sub_Some word_unat_eq_iff)
next
  assume "checked_sub a b = Some c"
  then show "unat c + unat b = unat a"
    using unat_checked_sub [of a b c] by (simp add: checked_sub_Some word_le_nat_alt)
qed

lemma unat_saturating_sub: "unat (saturating_sub a b) = unat a - unat b"
  by (auto simp: saturating_sub_def unat_sub_le word_le_nat_alt)

lemma unat_max_word: "unat (- 1 :: 'a::len word) = 2 ^ LENGTH('a) - 1"
  by (simp add: unsigned_minus_1_eq_mask mask_eq_exp_minus_1)

lemma unat_saturating_add:
  "unat (saturating_add a b :: 'a::len word) = min (2 ^ LENGTH('a) - 1) (unat a + unat b)"
  by (auto simp: saturating_add_def unat_add_no_overflow unat_max_word)

lemma unat_u16_lt: "unat (x :: u16) < 2 ^ 16"
  and unat_u32_lt: "unat (y :: u32) < 2 ^ 32"
  and unat_u64_lt: "unat (z :: u64) < 2 ^ 64"
  and unat_u128_lt: "unat (v :: u128) < 2 ^ 128"
  using unsigned_less [of x, where 'a = nat] unsigned_less [of y, where 'a = nat]
    unsigned_less [of z, where 'a = nat] unsigned_less [of v, where 'a = nat] by simp_all

lemma unat_ucast_up:
  "LENGTH('a) \<le> LENGTH('b) \<Longrightarrow> unat (ucast (w :: 'a::len word) :: 'b::len word) = unat w"
  by (simp add: unsigned_ucast_eq take_bit_nat_eq_self unsigned_less less_le_trans
    [OF unsigned_less] power_increasing)

lemma word_of_nat_unat: "of_nat (unat w) = w"
  by (simp add: of_nat_unat)

lemma unat_mult_no_overflow:
  "unat (a :: 'a::len word) * unat b < 2 ^ LENGTH('a) \<Longrightarrow> unat (a * b) = unat a * unat b"
  by (simp add: unat_word_ariths)

lemma unat_of_nat_small: "n < 2 ^ LENGTH('a) \<Longrightarrow> unat (of_nat n :: 'a::len word) = n"
  by (simp add: unat_of_nat)

end
