(* ===== verification/Constants.thy ===== *)
theory Constants
  imports Prelude
begin

text \<open>
  The consensus constants of \<open>lib/consensus/src/constants.rs\<close>.  Sizes and counts
  (\<open>usize\<close>) are natural numbers, protocol integers are words of the declared width,
  byte-string constants are byte lists.  Each constant unfolds automatically.  The
  compile-time assertions of the file are the lemmas at the end.
\<close>

definition ascii :: "string \<Rightarrow> bytes" where
  "ascii s = map (\<lambda>c. of_nat (of_char c)) s"

definition MAGIC_MAIN :: "bytes" where
  [simp]: "MAGIC_MAIN = [0xB7, 0x4E, 0xD3, 0x21]"

definition CHAIN_ID :: "bytes" where
  [simp]: "CHAIN_ID = ascii ''PLNE''"

definition ADDRESS_HRP :: "bytes" where
  [simp]: "ADDRESS_HRP = ascii ''plne''"

definition ADDRESS_PAYLOAD_BYTES :: "nat" where
  [simp]: "ADDRESS_PAYLOAD_BYTES = 20"

definition DECIMALS :: "u32" where
  [simp]: "DECIMALS = 6"

definition MILE_PER_PLNE :: "u128" where
  [simp]: "MILE_PER_PLNE = 1000000"

definition BLOCK_TIME_SECS :: "u64" where
  [simp]: "BLOCK_TIME_SECS = 60"

definition BLOCKS_PER_YEAR :: "u64" where
  [simp]: "BLOCKS_PER_YEAR = 525960"

definition BLOCK_SUBSIDY :: "u128" where
  [simp]: "BLOCK_SUBSIDY = 200000"

definition HEADER_BYTES :: "nat" where
  [simp]: "HEADER_BYTES = 132"

definition VERSION_BASE :: "u32" where
  [simp]: "VERSION_BASE = 0x20000000"

definition TX_TYPE_COINBASE :: "u8" where
  [simp]: "TX_TYPE_COINBASE = 0"

definition TX_TYPE_TRANSFER :: "u8" where
  [simp]: "TX_TYPE_TRANSFER = 1"

definition TX_TYPE_ANNOUNCEMENT :: "u8" where
  [simp]: "TX_TYPE_ANNOUNCEMENT = 2"

definition TX_TRANSFER_BYTES :: "nat" where
  [simp]: "TX_TRANSFER_BYTES = 157"

definition TX_TRANSFER_BYTES_UNSIGNED :: "nat" where
  [simp]: "TX_TRANSFER_BYTES_UNSIGNED = 93"

definition PUBKEY_BYTES :: "nat" where
  [simp]: "PUBKEY_BYTES = 32"

definition SIG_BYTES :: "nat" where
  [simp]: "SIG_BYTES = 64"

definition HASH_BYTES :: "nat" where
  [simp]: "HASH_BYTES = 32"

definition AUTHOR_NOTE_HEADER_BYTES :: "nat" where
  [simp]: "AUTHOR_NOTE_HEADER_BYTES = 4"

definition ANNOUNCEMENT_MIN_PAYLOAD_BYTES :: "nat" where
  [simp]: "ANNOUNCEMENT_MIN_PAYLOAD_BYTES = 1"

definition ANNOUNCEMENT_MAX_PAYLOAD_BYTES :: "nat" where
  [simp]: "ANNOUNCEMENT_MAX_PAYLOAD_BYTES = 1024"

definition TX_ANNOUNCEMENT_PREFIX_BYTES :: "nat" where
  [simp]: "TX_ANNOUNCEMENT_PREFIX_BYTES = 60"

definition TX_ANNOUNCEMENT_OVERHEAD_BYTES :: "nat" where
  [simp]: "TX_ANNOUNCEMENT_OVERHEAD_BYTES = TX_ANNOUNCEMENT_PREFIX_BYTES + SIG_BYTES"

definition TX_ANN_OFF_TYPE :: "nat" where
  [simp]: "TX_ANN_OFF_TYPE = 0"

definition TX_ANN_OFF_FROM_PUB :: "nat" where
  [simp]: "TX_ANN_OFF_FROM_PUB = 1"

definition TX_ANN_OFF_FEE :: "nat" where
  [simp]: "TX_ANN_OFF_FEE = 33"

definition TX_ANN_OFF_NONCE :: "nat" where
  [simp]: "TX_ANN_OFF_NONCE = 49"

definition TX_ANN_OFF_ENCODING :: "nat" where
  [simp]: "TX_ANN_OFF_ENCODING = 57"

definition TX_ANN_OFF_LENGTH :: "nat" where
  [simp]: "TX_ANN_OFF_LENGTH = 58"

definition TX_ANN_OFF_PAYLOAD :: "nat" where
  [simp]: "TX_ANN_OFF_PAYLOAD = 60"

definition COINBASE_PREFIX_BYTES :: "nat" where
  [simp]: "COINBASE_PREFIX_BYTES = 61"

definition TX_CB_OFF_HEIGHT :: "nat" where
  [simp]: "TX_CB_OFF_HEIGHT = 1"

definition TX_CB_OFF_TO :: "nat" where
  [simp]: "TX_CB_OFF_TO = 9"

definition TX_CB_OFF_REWARD :: "nat" where
  [simp]: "TX_CB_OFF_REWARD = 29"

definition TX_CB_OFF_FEES :: "nat" where
  [simp]: "TX_CB_OFF_FEES = 45"

definition TX_CB_OFF_NOTE :: "nat" where
  [simp]: "TX_CB_OFF_NOTE = 61"

definition BODY_COUNT_BYTES :: "nat" where
  [simp]: "BODY_COUNT_BYTES = 4"

definition BODY_TXLEN_BYTES :: "nat" where
  [simp]: "BODY_TXLEN_BYTES = 4"

definition BODY_MIN_RECORD_BYTES :: "nat" where
  [simp]: "BODY_MIN_RECORD_BYTES = BODY_TXLEN_BYTES + 1"

definition MERKLE_FLAG_PAIR :: "u8" where
  [simp]: "MERKLE_FLAG_PAIR = 0"

definition MERKLE_FLAG_DUP :: "u8" where
  [simp]: "MERKLE_FLAG_DUP = 1"

definition TX_ROOT_EMPTY :: "hash32" where
  [simp]: "TX_ROOT_EMPTY = replicate HASH_BYTES 0"

definition MERKLE_MAX_DEPTH :: "nat" where
  [simp]: "MERKLE_MAX_DEPTH = 12"

definition FEE_FLOOR_MILE :: "u128" where
  [simp]: "FEE_FLOOR_MILE = 1"

definition COINBASE_MATURITY :: "u64" where
  [simp]: "COINBASE_MATURITY = 60"

definition DOMAIN_TX_SIGN :: "bytes" where
  [simp]: "DOMAIN_TX_SIGN = ascii ''PLNE-tx-v1''"

definition DOMAIN_NOTE_SIGN :: "bytes" where
  [simp]: "DOMAIN_NOTE_SIGN = ascii ''PLNE-note-v1''"

definition DOMAIN_TXID :: "bytes" where
  [simp]: "DOMAIN_TXID = ascii ''PLNE-txid''"

definition DOMAIN_MERKLE_LEAF :: "bytes" where
  [simp]: "DOMAIN_MERKLE_LEAF = ascii ''PLNE-leaf''"

definition DOMAIN_MERKLE_NODE :: "bytes" where
  [simp]: "DOMAIN_MERKLE_NODE = ascii ''PLNE-node''"

definition ASERT_HALF_LIFE_SECS :: "int" where
  [simp]: "ASERT_HALF_LIFE_SECS = 3600"

definition ASERT_TARGET_SPACING_SECS :: "int" where
  [simp]: "ASERT_TARGET_SPACING_SECS = 60"

definition ASERT_ANCHOR_INTERVAL :: "u64" where
  [simp]: "ASERT_ANCHOR_INTERVAL = 100000"

definition POW_LIMIT_LIMBS :: "u64 list" where
  [simp]: "POW_LIMIT_LIMBS = [0xFFFFFFFFFFFFFFFF, 0xFFFFFFFFFFFFFFFF, 0xFFFFFFFFFFFFFFFF, 0xFFFFFFFFFFFF]"

definition MAX_FUTURE_DRIFT_SECS :: "u64" where
  [simp]: "MAX_FUTURE_DRIFT_SECS = 600"

definition MEDIAN_TIME_SPAN :: "nat" where
  [simp]: "MEDIAN_TIME_SPAN = 11"

definition MAX_REORG_DEPTH :: "u64" where
  [simp]: "MAX_REORG_DEPTH = 30"

definition SYNC_WINDOW_SECS :: "u64" where
  [simp]: "SYNC_WINDOW_SECS = 720"

definition CHECKPOINT_MSG_PREFIX :: "bytes" where
  [simp]: "CHECKPOINT_MSG_PREFIX = ascii ''plaine-checkpoint-v1|''"

definition CHECKPOINT_SUNSET_HEIGHT :: "u64" where
  [simp]: "CHECKPOINT_SUNSET_HEIGHT = 525960"

definition AUTHOR_NOTE_RECORD_VERSION :: "u8" where
  [simp]: "AUTHOR_NOTE_RECORD_VERSION = 1"

definition AUTHOR_NOTE_MAX_BYTES :: "nat" where
  [simp]: "AUTHOR_NOTE_MAX_BYTES = 256"

definition MAX_BLOCK_BYTES :: "nat" where
  [simp]: "MAX_BLOCK_BYTES = 1048576"

definition MAX_TX_BYTES :: "nat" where
  [simp]: "MAX_TX_BYTES = 8192"

definition MAX_TXS_PER_BLOCK :: "nat" where
  [simp]: "MAX_TXS_PER_BLOCK = 4096"

definition MAX_MEMPOOL_TXS :: "nat" where
  [simp]: "MAX_MEMPOOL_TXS = 20000"

definition MAX_MEMPOOL_NONCE_GAP :: "u64" where
  [simp]: "MAX_MEMPOOL_NONCE_GAP = 256"

definition MAX_MEMPOOL_TXS_PER_SENDER :: "nat" where
  [simp]: "MAX_MEMPOOL_TXS_PER_SENDER = 4096"

definition MAX_HEADERS_PER_MSG :: "nat" where
  [simp]: "MAX_HEADERS_PER_MSG = 2000"

section \<open>Networks\<close>

datatype network = Main

fun chain_id :: "network \<Rightarrow> bytes" where
  "chain_id Main = CHAIN_ID"

fun magic :: "network \<Rightarrow> bytes" where
  "magic Main = MAGIC_MAIN"

definition network_as_str :: "network \<Rightarrow> bytes" where
  "network_as_str n = ascii ''main''"

definition network_from_name :: "bytes \<Rightarrow> network option" where
  "network_from_name s = (if s = ascii ''main'' then Some Main else None)"

section \<open>Compile-time assertions\<close>

lemma maturity_exceeds_reorg_depth: "MAX_REORG_DEPTH < COINBASE_MATURITY"
  by simp

lemma length_ascii [simp]: "length (ascii s) = length s"
  by (simp add: ascii_def)

lemma transfer_tiles: "TX_TRANSFER_BYTES = TX_TRANSFER_BYTES_UNSIGNED + 64"
  by simp

lemma announcement_tiles:
  "TX_ANN_OFF_PAYLOAD = TX_ANNOUNCEMENT_PREFIX_BYTES"
  "TX_ANN_OFF_LENGTH + 2 = TX_ANN_OFF_PAYLOAD"
  "TX_ANN_OFF_ENCODING + 1 = TX_ANN_OFF_LENGTH"
  "TX_ANN_OFF_NONCE + 8 = TX_ANN_OFF_ENCODING"
  "TX_ANN_OFF_FEE + 16 = TX_ANN_OFF_NONCE"
  "TX_ANN_OFF_FROM_PUB + PUBKEY_BYTES = TX_ANN_OFF_FEE"
  "TX_ANN_OFF_TYPE + 1 = TX_ANN_OFF_FROM_PUB"
  by simp_all

lemma coinbase_tiles:
  "TX_CB_OFF_NOTE = COINBASE_PREFIX_BYTES"
  "TX_CB_OFF_FEES + 16 = TX_CB_OFF_NOTE"
  "TX_CB_OFF_REWARD + 16 = TX_CB_OFF_FEES"
  "TX_CB_OFF_TO + ADDRESS_PAYLOAD_BYTES = TX_CB_OFF_REWARD"
  "TX_CB_OFF_HEIGHT + 8 = TX_CB_OFF_TO"
  by simp_all

lemma largest_records_fit:
  "TX_ANNOUNCEMENT_OVERHEAD_BYTES + ANNOUNCEMENT_MAX_PAYLOAD_BYTES \<le> MAX_TX_BYTES"
  "COINBASE_PREFIX_BYTES + AUTHOR_NOTE_HEADER_BYTES + AUTHOR_NOTE_MAX_BYTES \<le> MAX_TX_BYTES"
  "HEADER_BYTES + BODY_COUNT_BYTES + MAX_TXS_PER_BLOCK * BODY_MIN_RECORD_BYTES \<le> MAX_BLOCK_BYTES"
  "MAX_TXS_PER_BLOCK \<le> 2 ^ MERKLE_MAX_DEPTH"
  by simp_all

end
