(* ===== verification/Codec.thy ===== *)
theory Codec
  imports Constants
begin

text \<open>
  The wire formats of \<open>lib/consensus/src/codec.rs\<close>: block headers, the three
  transaction types and author notes (the block-body envelope is in \<open>Block_Body\<close>).
  Fixed-size arrays are byte lists whose length the well-formedness predicates \<open>wf_*\<close> pin down.  The
  interface \<open>byte_codec\<close> states what the rest of the system relies on (decoding
  inverts encoding and accepts nothing but canonical encodings); every format is an
  interpretation of it.
\<close>

section \<open>Errors\<close>

datatype codec_error =
    Truncated nat nat
  | TrailingBytes nat
  | WrongTxType u8
  | ReservedTxType u8
  | AuthorNoteVersion u8
  | AuthorNoteTooLong nat
  | AnnouncementLength nat
  | BodyTxCount nat
  | BodyTxLen nat
  | BodyTooLarge nat

definition require_exact :: "nat \<Rightarrow> nat \<Rightarrow> codec_error + unit" where
  "require_exact got need =
     (if got < need then Inl (Truncated need got)
      else if need < got then Inl (TrailingBytes (got - need))
      else Inr ())"

lemma require_exact_Inr [result_simps]: "require_exact got need = Inr u \<longleftrightarrow> got = need"
  by (auto simp: require_exact_def)

lemma require_exact_same [simp]: "require_exact n n = Inr ()"
  by (simp add: require_exact_def)

section \<open>Header\<close>

record header =
  hdr_version :: u32
  hdr_height :: u64
  hdr_prev_hash :: hash32
  hdr_tx_root :: hash32
  hdr_ext_root :: hash32
  hdr_time :: u64
  hdr_bits :: u32
  hdr_author_note_len :: u32
  hdr_nonce :: u64

definition wf_header :: "header \<Rightarrow> bool" where
  "wf_header h \<longleftrightarrow> length (hdr_prev_hash h) = 32 \<and> length (hdr_tx_root h) = 32 \<and>
     length (hdr_ext_root h) = 32"

definition header_encode :: "header \<Rightarrow> bytes" where
  "header_encode h =
     (let b = replicate HEADER_BYTES 0;
          b = put_bytes b 0 (to_le 4 (hdr_version h));
          b = put_bytes b 4 (to_le 8 (hdr_height h));
          b = put_bytes b 12 (hdr_prev_hash h);
          b = put_bytes b 44 (hdr_tx_root h);
          b = put_bytes b 76 (hdr_ext_root h);
          b = put_bytes b 108 (to_le 8 (hdr_time h));
          b = put_bytes b 116 (to_le 4 (hdr_bits h));
          b = put_bytes b 120 (to_le 4 (hdr_author_note_len h));
          b = put_bytes b 124 (to_le 8 (hdr_nonce h))
      in b)"

definition header_decode :: "bytes \<Rightarrow> codec_error + header" where
  "header_decode bs =
     bindE (require_exact (length bs) HEADER_BYTES) (\<lambda>_. Inr
       \<lparr> hdr_version = from_le (sub_bytes bs 0 4),
         hdr_height = from_le (sub_bytes bs 4 12),
         hdr_prev_hash = sub_bytes bs 12 44,
         hdr_tx_root = sub_bytes bs 44 76,
         hdr_ext_root = sub_bytes bs 76 108,
         hdr_time = from_le (sub_bytes bs 108 116),
         hdr_bits = from_le (sub_bytes bs 116 120),
         hdr_author_note_len = from_le (sub_bytes bs 120 124),
         hdr_nonce = from_le (sub_bytes bs 124 132) \<rparr>)"

section \<open>Transfers\<close>

record transfer_tx =
  tr_from_pub :: bytes
  tr_to :: bytes
  tr_amount :: u128
  tr_fee :: u128
  tr_nonce :: u64
  tr_sig :: bytes

definition wf_transfer :: "transfer_tx \<Rightarrow> bool" where
  "wf_transfer t \<longleftrightarrow> length (tr_from_pub t) = 32 \<and> length (tr_to t) = 20 \<and> length (tr_sig t) = 64"

definition transfer_encode_unsigned :: "transfer_tx \<Rightarrow> bytes" where
  "transfer_encode_unsigned t =
     (let b = replicate TX_TRANSFER_BYTES_UNSIGNED 0;
          b = put_bytes b 0 [TX_TYPE_TRANSFER];
          b = put_bytes b 1 (tr_from_pub t);
          b = put_bytes b 33 (tr_to t);
          b = put_bytes b 53 (to_le 16 (tr_amount t));
          b = put_bytes b 69 (to_le 16 (tr_fee t));
          b = put_bytes b 85 (to_le 8 (tr_nonce t))
      in b)"

definition transfer_encode :: "transfer_tx \<Rightarrow> bytes" where
  "transfer_encode t =
     (let b = replicate TX_TRANSFER_BYTES 0;
          b = put_bytes b 0 (transfer_encode_unsigned t);
          b = put_bytes b TX_TRANSFER_BYTES_UNSIGNED (tr_sig t)
      in b)"

definition transfer_decode :: "bytes \<Rightarrow> codec_error + transfer_tx" where
  "transfer_decode bs =
     bindE (require_exact (length bs) TX_TRANSFER_BYTES) (\<lambda>_.
       if bs ! 0 \<noteq> TX_TYPE_TRANSFER then Inl (WrongTxType (bs ! 0))
       else Inr
         \<lparr> tr_from_pub = sub_bytes bs 1 33,
           tr_to = sub_bytes bs 33 53,
           tr_amount = from_le (sub_bytes bs 53 69),
           tr_fee = from_le (sub_bytes bs 69 85),
           tr_nonce = from_le (sub_bytes bs 85 93),
           tr_sig = sub_bytes bs 93 157 \<rparr>)"

section \<open>Author announcements\<close>

record announcement_tx =
  an_from_pub :: bytes
  an_fee :: u128
  an_nonce :: u64
  an_encoding :: u8
  an_payload :: bytes
  an_sig :: bytes

definition wf_announcement :: "announcement_tx \<Rightarrow> bool" where
  "wf_announcement a \<longleftrightarrow> length (an_from_pub a) = 32 \<and> length (an_sig a) = 64"

definition check_payload_len :: "announcement_tx \<Rightarrow> codec_error + u16" where
  "check_payload_len a =
     (let len = length (an_payload a) in
      if \<not> (ANNOUNCEMENT_MIN_PAYLOAD_BYTES \<le> len \<and> len \<le> ANNOUNCEMENT_MAX_PAYLOAD_BYTES)
      then Inl (AnnouncementLength len)
      else Inr (of_nat len))"

definition announcement_wire_len :: "announcement_tx \<Rightarrow> nat" where
  "announcement_wire_len a = TX_ANNOUNCEMENT_OVERHEAD_BYTES + length (an_payload a)"

definition announcement_encode_unsigned :: "announcement_tx \<Rightarrow> codec_error + bytes" where
  "announcement_encode_unsigned a =
     bindE (check_payload_len a) (\<lambda>len. Inr
       ([TX_TYPE_ANNOUNCEMENT] @ an_from_pub a @ to_le 16 (an_fee a) @ to_le 8 (an_nonce a) @
        [an_encoding a] @ to_le 2 len @ an_payload a))"

definition announcement_encode :: "announcement_tx \<Rightarrow> codec_error + bytes" where
  "announcement_encode a = bindE (announcement_encode_unsigned a) (\<lambda>v. Inr (v @ an_sig a))"

definition announcement_decode :: "bytes \<Rightarrow> codec_error + announcement_tx" where
  "announcement_decode bs =
     (let mn = TX_ANNOUNCEMENT_OVERHEAD_BYTES + ANNOUNCEMENT_MIN_PAYLOAD_BYTES in
      if length bs < mn then Inl (Truncated mn (length bs))
      else if bs ! 0 \<noteq> TX_TYPE_ANNOUNCEMENT then Inl (WrongTxType (bs ! 0))
      else
        let len = unat (from_le [bs ! TX_ANN_OFF_LENGTH, bs ! (TX_ANN_OFF_LENGTH + 1)] :: u16) in
        if \<not> (ANNOUNCEMENT_MIN_PAYLOAD_BYTES \<le> len \<and> len \<le> ANNOUNCEMENT_MAX_PAYLOAD_BYTES)
        then Inl (AnnouncementLength len)
        else bindE (require_exact (length bs) (TX_ANNOUNCEMENT_OVERHEAD_BYTES + len)) (\<lambda>_.
          let payload_end = TX_ANN_OFF_PAYLOAD + len in Inr
            \<lparr> an_from_pub = sub_bytes bs TX_ANN_OFF_FROM_PUB (TX_ANN_OFF_FROM_PUB + PUBKEY_BYTES),
              an_fee = from_le (sub_bytes bs TX_ANN_OFF_FEE (TX_ANN_OFF_FEE + 16)),
              an_nonce = from_le (sub_bytes bs TX_ANN_OFF_NONCE (TX_ANN_OFF_NONCE + 8)),
              an_encoding = bs ! TX_ANN_OFF_ENCODING,
              an_payload = sub_bytes bs TX_ANN_OFF_PAYLOAD payload_end,
              an_sig = sub_bytes bs payload_end (payload_end + SIG_BYTES) \<rparr>))"

section \<open>Author notes and coinbases\<close>

record author_note =
  note_encoding :: u8
  note_payload :: bytes

definition note_encode :: "author_note \<Rightarrow> codec_error + bytes" where
  "note_encode n =
     (if AUTHOR_NOTE_MAX_BYTES < length (note_payload n)
      then Inl (AuthorNoteTooLong (length (note_payload n)))
      else Inr ([AUTHOR_NOTE_RECORD_VERSION] @ [note_encoding n] @
                to_le 2 (of_nat (length (note_payload n)) :: u16) @ note_payload n))"

definition note_decode :: "bytes \<Rightarrow> codec_error + author_note" where
  "note_decode bs =
     (if length bs < AUTHOR_NOTE_HEADER_BYTES
      then Inl (Truncated AUTHOR_NOTE_HEADER_BYTES (length bs))
      else if bs ! 0 \<noteq> AUTHOR_NOTE_RECORD_VERSION then Inl (AuthorNoteVersion (bs ! 0))
      else
        let len = unat (from_le [bs ! 2, bs ! 3] :: u16) in
        if AUTHOR_NOTE_MAX_BYTES < len then Inl (AuthorNoteTooLong len)
        else bindE (require_exact (length bs) (AUTHOR_NOTE_HEADER_BYTES + len)) (\<lambda>_. Inr
          \<lparr> note_encoding = bs ! 1, note_payload = drop AUTHOR_NOTE_HEADER_BYTES bs \<rparr>))"

record coinbase_tx =
  cb_height :: u64
  cb_to :: bytes
  cb_reward :: u128
  cb_fees :: u128
  cb_note :: author_note

definition wf_coinbase :: "coinbase_tx \<Rightarrow> bool" where
  "wf_coinbase c \<longleftrightarrow> length (cb_to c) = 20"

definition coinbase_wire_len :: "coinbase_tx \<Rightarrow> nat" where
  "coinbase_wire_len c =
     COINBASE_PREFIX_BYTES + AUTHOR_NOTE_HEADER_BYTES + length (note_payload (cb_note c))"

definition coinbase_encode :: "coinbase_tx \<Rightarrow> codec_error + bytes" where
  "coinbase_encode c =
     bindE (note_encode (cb_note c)) (\<lambda>note. Inr
       ([TX_TYPE_COINBASE] @ to_le 8 (cb_height c) @ cb_to c @ to_le 16 (cb_reward c) @
        to_le 16 (cb_fees c) @ note))"

definition coinbase_decode :: "bytes \<Rightarrow> codec_error + coinbase_tx" where
  "coinbase_decode bs =
     (let mn = COINBASE_PREFIX_BYTES + AUTHOR_NOTE_HEADER_BYTES in
      if length bs < mn then Inl (Truncated mn (length bs))
      else if bs ! 0 \<noteq> TX_TYPE_COINBASE then Inl (WrongTxType (bs ! 0))
      else bindE (note_decode (drop TX_CB_OFF_NOTE bs)) (\<lambda>note. Inr
        \<lparr> cb_height = from_le (sub_bytes bs TX_CB_OFF_HEIGHT (TX_CB_OFF_HEIGHT + 8)),
          cb_to = sub_bytes bs TX_CB_OFF_TO (TX_CB_OFF_TO + ADDRESS_PAYLOAD_BYTES),
          cb_reward = from_le (sub_bytes bs TX_CB_OFF_REWARD (TX_CB_OFF_REWARD + 16)),
          cb_fees = from_le (sub_bytes bs TX_CB_OFF_FEES (TX_CB_OFF_FEES + 16)),
          cb_note = note \<rparr>))"

section \<open>Transactions\<close>

datatype tx = Coinbase coinbase_tx | Transfer transfer_tx | Announcement announcement_tx

fun tx_fee :: "tx \<Rightarrow> u128" where
  "tx_fee (Coinbase _) = 0"
| "tx_fee (Transfer t) = tr_fee t"
| "tx_fee (Announcement a) = an_fee a"

fun type_byte :: "tx \<Rightarrow> u8" where
  "type_byte (Coinbase _) = TX_TYPE_COINBASE"
| "type_byte (Transfer _) = TX_TYPE_TRANSFER"
| "type_byte (Announcement _) = TX_TYPE_ANNOUNCEMENT"

definition decode_tx :: "bytes \<Rightarrow> codec_error + tx" where
  "decode_tx bs =
     (case bs of [] \<Rightarrow> Inl (Truncated 1 0)
      | first # _ \<Rightarrow>
          if first = TX_TYPE_COINBASE then bindE (coinbase_decode bs) (\<lambda>c. Inr (Coinbase c))
          else if first = TX_TYPE_TRANSFER then bindE (transfer_decode bs) (\<lambda>t. Inr (Transfer t))
          else if first = TX_TYPE_ANNOUNCEMENT
          then bindE (announcement_decode bs) (\<lambda>a. Inr (Announcement a))
          else Inl (ReservedTxType first))"

section \<open>The codec interface\<close>

locale byte_codec =
  fixes wf :: "'a \<Rightarrow> bool"
    and enc :: "'a \<Rightarrow> 'e + bytes"
    and dec :: "bytes \<Rightarrow> 'f + 'a"
  assumes dec_enc: "wf x \<Longrightarrow> enc x = Inr bs \<Longrightarrow> dec bs = Inr x"
    and enc_dec: "dec bs = Inr x \<Longrightarrow> wf x \<and> enc x = Inr bs"
begin

lemma dec_iff: "dec bs = Inr x \<longleftrightarrow> wf x \<and> enc x = Inr bs"
  using dec_enc enc_dec by blast

lemma not_malleable: "dec bs = Inr x \<Longrightarrow> dec cs = Inr x \<Longrightarrow> bs = cs"
  by (auto simp: dec_iff)

lemma enc_inj: "wf x \<Longrightarrow> wf y \<Longrightarrow> enc x = Inr bs \<Longrightarrow> enc y = Inr bs \<Longrightarrow> x = y"
  by (metis dec_enc sum.inject(2))

end

section \<open>Fixed-layout formats\<close>

lemma header_encode_concat:
  assumes "wf_header h"
  shows "header_encode h =
    to_le 4 (hdr_version h) @ to_le 8 (hdr_height h) @ hdr_prev_hash h @ hdr_tx_root h @
    hdr_ext_root h @ to_le 8 (hdr_time h) @ to_le 4 (hdr_bits h) @
    to_le 4 (hdr_author_note_len h) @ to_le 8 (hdr_nonce h)"
  using assms
  by (simp add: header_encode_def put_bytes_start put_bytes_extend wf_header_def del: append_assoc)

lemma length_header_encode: "wf_header h \<Longrightarrow> length (header_encode h) = HEADER_BYTES"
  by (simp add: header_encode_concat wf_header_def)

lemma header_decode_encode:
  "wf_header h \<Longrightarrow> header_decode (header_encode h) = Inr h"
  by (simp add: header_decode_def length_header_encode)
     (simp add: header_encode_concat wf_header_def sub_bytes_def byte_simps)

lemma header_encode_decode:
  assumes "header_decode bs = Inr h"
  shows "wf_header h" and "header_encode h = bs"
proof -
  from assms have len: "length bs = 132"
    by (auto simp: header_decode_def result_simps)
  from assms len show wf: "wf_header h"
    by (auto simp: header_decode_def wf_header_def byte_simps)
  have "header_encode h = sub_bytes bs 0 132"
    using assms len by (auto simp: header_decode_def header_encode_concat [OF wf] byte_simps
      sub_bytes_join sub_bytes_join_append)
  then show "header_encode h = bs" using len by (simp add: sub_bytes_full)
qed

interpretation header_codec: byte_codec wf_header "\<lambda>h. Inr (header_encode h)" header_decode
  by unfold_locales (auto simp: header_decode_encode header_encode_decode)

lemma transfer_encode_unsigned_concat:
  assumes "wf_transfer t"
  shows "transfer_encode_unsigned t =
    [TX_TYPE_TRANSFER] @ tr_from_pub t @ tr_to t @ to_le 16 (tr_amount t) @ to_le 16 (tr_fee t) @
    to_le 8 (tr_nonce t)"
  using assms
  by (simp add: transfer_encode_unsigned_def put_bytes_start put_bytes_extend wf_transfer_def
      del: append_assoc append_Cons append_Nil)

lemma transfer_encode_concat:
  assumes "wf_transfer t"
  shows "transfer_encode t = transfer_encode_unsigned t @ tr_sig t"
  using assms
  by (simp add: transfer_encode_def transfer_encode_unsigned_concat put_bytes_def wf_transfer_def)

lemma transfer_decode_encode:
  assumes "wf_transfer t"
  shows "transfer_decode (transfer_encode t) = Inr t"
proof -
  have "length (transfer_encode t) = TX_TRANSFER_BYTES"
    using assms by (simp add: transfer_encode_concat transfer_encode_unsigned_concat wf_transfer_def)
  then show ?thesis
    using assms
    by (simp add: transfer_decode_def)
       (simp add: transfer_encode_concat transfer_encode_unsigned_concat wf_transfer_def
          sub_bytes_def byte_simps)
qed

lemma split_first: "bs \<noteq> [] \<Longrightarrow> bs ! 0 # sub_bytes bs (Suc 0) (length bs) = bs"
  by (cases bs) (auto simp: sub_bytes_def)

lemma transfer_encode_decode:
  assumes "transfer_decode bs = Inr t"
  shows "wf_transfer t" and "transfer_encode t = bs"
proof -
  from assms have len: "length bs = 157"
    by (auto simp: transfer_decode_def result_simps)
  from assms len show wf: "wf_transfer t"
    by (auto simp: transfer_decode_def wf_transfer_def byte_simps split: if_splits)
  have "transfer_encode t = bs ! 0 # sub_bytes bs (Suc 0) (length bs)"
    using assms len
    by (auto simp: transfer_decode_def transfer_encode_concat [OF wf] byte_simps
        transfer_encode_unsigned_concat [OF wf] sub_bytes_join sub_bytes_join_append split: if_splits)
  then show "transfer_encode t = bs" using len split_first [of bs] by (cases bs) auto
qed

interpretation transfer_codec: byte_codec wf_transfer "\<lambda>t. Inr (transfer_encode t)" transfer_decode
  by unfold_locales (auto simp: transfer_decode_encode transfer_encode_decode)

section \<open>Length-prefixed formats\<close>

lemma unat_from_le_u16: "unat (from_le (to_le 2 (w :: u16)) :: u16) = unat w"
  by (simp add: byte_simps)

lemma unat_of_nat_u16: "n < 65536 \<Longrightarrow> unat (of_nat n :: u16) = n"
  by (simp add: unat_of_nat)

lemma unat_of_nat_u32: "n < 4294967296 \<Longrightarrow> unat (of_nat n :: u32) = n"
  by (simp add: unat_of_nat)

lemma two_bytes: "length xs = 2 \<Longrightarrow> [xs ! 0, xs ! 1] = xs"
  by (auto simp: numeral_2_eq_2 length_Suc_conv)

lemma nth_to_le_pair: "[to_le 2 w ! 0, to_le 2 w ! Suc 0] = to_le 2 w"
  using two_bytes [of "to_le 2 w"] by simp

lemma note_decode_encode:
  assumes "note_encode n = Inr bs"
  shows "note_decode bs = Inr n"
proof -
  from assms have len: "length (note_payload n) \<le> 256"
    and bs: "bs = [1, note_encoding n] @ to_le 2 (of_nat (length (note_payload n)) :: u16) @ note_payload n"
    by (auto simp: note_encode_def split: if_splits)
  have "[bs ! 2, bs ! 3] = to_le 2 (of_nat (length (note_payload n)) :: u16)"
    using nth_to_le_pair [of "of_nat (length (note_payload n)) :: u16"]
    by (simp add: bs nth_append)
  then have "unat (from_le [bs ! 2, bs ! 3] :: u16) = length (note_payload n)"
    using len by (simp add: byte_simps unat_of_nat_u16)
  moreover have "length bs = 4 + length (note_payload n)" "bs ! 0 = 1" "bs ! 1 = note_encoding n"
    "drop 4 bs = note_payload n"
    by (simp_all add: bs)
  ultimately show ?thesis using len by (simp add: note_decode_def Let_def)
qed

lemma length_prefix_canonical:
  "length xs = 2 \<Longrightarrow> to_le 2 (of_nat (unat (from_le xs :: u16)) :: u16) = xs"
  by (simp add: byte_simps)

lemma first_four: "4 \<le> length bs \<Longrightarrow> bs = bs ! 0 # bs ! 1 # [bs ! 2, bs ! 3] @ drop 4 bs"
  by (auto simp: eval_nat_numeral Suc_le_length_iff)

lemma note_encode_decode:
  assumes "note_decode bs = Inr n"
  shows "note_encode n = Inr bs"
proof -
  let ?len = "unat (from_le [bs ! 2, bs ! 3] :: u16)"
  from assms have v: "bs ! 0 = 1" and l: "length bs = 4 + ?len" "?len \<le> 256"
    and n: "n = \<lparr> note_encoding = bs ! 1, note_payload = drop 4 bs \<rparr>"
    by (auto simp: note_decode_def Let_def result_simps split: if_splits)
  have "to_le 2 (of_nat ?len :: u16) = [bs ! 2, bs ! 3]"
    by (rule length_prefix_canonical) simp
  moreover have "bs = 1 # bs ! 1 # [bs ! 2, bs ! 3] @ drop 4 bs"
    using first_four [of bs] l v by simp
  ultimately show ?thesis
    using l by (simp add: note_encode_def n)
qed

interpretation note_codec: byte_codec "\<lambda>_. True" note_encode note_decode
  by unfold_locales (blast intro: note_decode_encode note_encode_decode)+

lemma coinbase_decode_encode:
  assumes "wf_coinbase c" "coinbase_encode c = Inr bs"
  shows "coinbase_decode bs = Inr c"
proof -
  from assms obtain nt where nt: "note_encode (cb_note c) = Inr nt"
    and bs: "bs = [0] @ to_le 8 (cb_height c) @ cb_to c @ to_le 16 (cb_reward c) @
        to_le 16 (cb_fees c) @ nt"
    by (auto simp: coinbase_encode_def result_simps)
  from nt have "4 \<le> length nt" by (auto simp: note_encode_def split: if_splits)
  with assms(1) note_decode_encode [OF nt] show ?thesis
    by (simp add: coinbase_decode_def bs wf_coinbase_def sub_bytes_def byte_simps Let_def)
qed

lemma coinbase_encode_decode:
  assumes "coinbase_decode bs = Inr c"
  shows "wf_coinbase c" and "coinbase_encode c = Inr bs"
proof -
  from assms obtain nt where dec: "note_decode (drop 61 bs) = Inr nt"
    and len: "65 \<le> length bs" and tb: "bs ! 0 = 0"
    and c: "c = \<lparr> cb_height = from_le (sub_bytes bs 1 9), cb_to = sub_bytes bs 9 29,
          cb_reward = from_le (sub_bytes bs 29 45), cb_fees = from_le (sub_bytes bs 45 61),
          cb_note = nt \<rparr>"
    by (auto simp: coinbase_decode_def Let_def result_simps split: if_splits)
  show "wf_coinbase c" using len by (simp add: c wf_coinbase_def byte_simps)
  have "note_encode nt = Inr (sub_bytes bs 61 (length bs))"
    using note_encode_decode [OF dec] by (simp add: sub_bytes_to_drop)
  then have "coinbase_encode c = Inr (bs ! 0 # sub_bytes bs (Suc 0) (length bs))"
    using len tb by (simp add: c coinbase_encode_def byte_simps sub_bytes_join sub_bytes_join_append)
  then show "coinbase_encode c = Inr bs" using len split_first [of bs] by (cases bs) auto
qed

interpretation coinbase_codec: byte_codec wf_coinbase coinbase_encode coinbase_decode
  by unfold_locales (blast intro: coinbase_decode_encode coinbase_encode_decode)+

lemma pair_sub_bytes: "Suc (Suc a) \<le> length bs \<Longrightarrow> [bs ! a, bs ! Suc a] = sub_bytes bs a (a + 2)"
  by (rule nth_equalityI) (auto simp: byte_simps nth_sub_bytes less_Suc_eq)

lemma single_sub_bytes: "a < length bs \<Longrightarrow> [bs ! a] = sub_bytes bs a (Suc a)"
  by (rule nth_equalityI) (auto simp: byte_simps nth_sub_bytes)

lemma announcement_decode_encode:
  assumes "wf_announcement a" "announcement_encode a = Inr bs"
  shows "announcement_decode bs = Inr a"
proof -
  let ?len = "length (an_payload a)"
  from assms have len: "1 \<le> ?len" "?len \<le> 1024"
    and bs: "bs = [2] @ an_from_pub a @ to_le 16 (an_fee a) @ to_le 8 (an_nonce a) @
        [an_encoding a] @ to_le 2 (of_nat ?len :: u16) @ an_payload a @ an_sig a"
    by (auto simp: announcement_encode_def announcement_encode_unsigned_def check_payload_len_def
        Let_def split: if_splits)
  have lbs: "length bs = 124 + ?len" using assms(1) by (simp add: bs wf_announcement_def)
  have bs': "bs = ([2] @ an_from_pub a @ to_le 16 (an_fee a) @ to_le 8 (an_nonce a) @
        [an_encoding a] @ to_le 2 (of_nat ?len :: u16) @ an_payload a) @ an_sig a"
    by (simp add: bs)
  have "sub_bytes bs (60 + ?len) (124 + ?len) = an_sig a"
    unfolding bs' using assms(1) by (subst sub_bytes_skip) (simp_all add: wf_announcement_def sub_bytes_def)
  moreover have "bs ! 57 = an_encoding a" "bs ! 0 = 2"
    using assms(1) by (simp_all add: bs wf_announcement_def nth_append)
  moreover have "[bs ! 58, bs ! 59] = to_le 2 (of_nat ?len :: u16)"
    using assms(1) pair_sub_bytes [of 58 bs] lbs
    by (simp add: bs wf_announcement_def sub_bytes_def)
  then have "unat (from_le [bs ! 58, bs ! 59] :: u16) = ?len"
    using len by (simp add: byte_simps unat_of_nat_u16)
  ultimately show ?thesis
    using assms(1) len lbs
    by (simp add: announcement_decode_def Let_def add.commute)
       (auto simp: bs wf_announcement_def sub_bytes_def byte_simps)
qed

lemma announcement_encode_decode:
  assumes "announcement_decode bs = Inr a"
  shows "wf_announcement a" and "announcement_encode a = Inr bs"
proof -
  let ?len = "unat (from_le [bs ! 58, bs ! 59] :: u16)"
  from assms have tb: "bs ! 0 = 2" and len: "1 \<le> ?len" "?len \<le> 1024" and lbs: "length bs = 124 + ?len"
    and a: "a = \<lparr> an_from_pub = sub_bytes bs 1 33, an_fee = from_le (sub_bytes bs 33 49),
          an_nonce = from_le (sub_bytes bs 49 57), an_encoding = bs ! 57,
          an_payload = sub_bytes bs 60 (60 + ?len),
          an_sig = sub_bytes bs (60 + ?len) (124 + ?len) \<rparr>"
    by (auto simp: announcement_decode_def Let_def result_simps split: if_splits)
  show "wf_announcement a" using lbs by (simp add: a wf_announcement_def byte_simps)
  have pl: "length (an_payload a) = ?len" using lbs by (simp add: a byte_simps)
  have p: "to_le 2 (of_nat ?len :: u16) = sub_bytes bs 58 60"
    using length_prefix_canonical [of "[bs ! 58, bs ! 59]"] pair_sub_bytes [of 58 bs] lbs by simp
  have e: "bs ! 57 # r = sub_bytes bs 57 58 @ r" for r
    using single_sub_bytes [of 57 bs] lbs by simp
  have "announcement_encode a = Inr (bs ! 0 # sub_bytes bs (Suc 0) (length bs))"
    using len lbs tb pl p
    by (simp add: announcement_encode_def announcement_encode_unsigned_def check_payload_len_def Let_def)
       (simp add: a byte_simps e sub_bytes_join sub_bytes_join_append)
  then show "announcement_encode a = Inr bs" using lbs split_first [of bs] by (cases bs) auto
qed

interpretation announcement_codec: byte_codec wf_announcement announcement_encode announcement_decode
  by unfold_locales (blast intro: announcement_decode_encode announcement_encode_decode)+

section \<open>All transactions\<close>

text \<open>The encoder and well-formedness of a transaction are those of its variant.\<close>

fun tx_encode :: "tx \<Rightarrow> codec_error + bytes" where
  "tx_encode (Coinbase c) = coinbase_encode c"
| "tx_encode (Transfer t) = Inr (transfer_encode t)"
| "tx_encode (Announcement a) = announcement_encode a"

fun wf_tx :: "tx \<Rightarrow> bool" where
  "wf_tx (Coinbase c) = wf_coinbase c"
| "wf_tx (Transfer t) = wf_transfer t"
| "wf_tx (Announcement a) = wf_announcement a"

lemma tx_encode_type_byte:
  "wf_tx t \<Longrightarrow> tx_encode t = Inr bs \<Longrightarrow> \<exists>r. bs = type_byte t # r"
  by (cases t) (auto simp: coinbase_encode_def announcement_encode_def
      announcement_encode_unsigned_def transfer_encode_concat transfer_encode_unsigned_concat result_simps)

lemma decode_tx_encode:
  assumes "wf_tx t" "tx_encode t = Inr bs"
  shows "decode_tx bs = Inr t"
proof -
  from tx_encode_type_byte [OF assms] obtain r where "bs = type_byte t # r" ..
  with assms show ?thesis
    by (cases t) (auto simp: decode_tx_def dest: coinbase_decode_encode announcement_decode_encode
        transfer_decode_encode)
qed

lemma encode_decode_tx:
  assumes "decode_tx bs = Inr t"
  shows "wf_tx t \<and> tx_encode t = Inr bs"
  using assms
  by (auto simp: decode_tx_def result_simps split: list.splits if_splits
      dest: coinbase_encode_decode announcement_encode_decode transfer_encode_decode)

interpretation tx_codec: byte_codec wf_tx tx_encode decode_tx
  by unfold_locales (blast intro: decode_tx_encode, blast dest: encode_decode_tx)

section \<open>Properties\<close>

text \<open>
  C15.  Transactions have exactly one wire form: \<open>decode_tx\<close> accepts a byte string with result
  \<open>t\<close> precisely when \<open>t\<close> is well formed and the byte string is the encoding of \<open>t\<close>, for
  all three transaction types, so no byte can be changed, appended or dropped without changing
  the transaction that is read.
\<close>
theorem decode_tx_iff_encode:
  "decode_tx bs = Inr t \<longleftrightarrow> wf_tx t \<and> tx_encode t = Inr bs"
  by (rule tx_codec.dec_iff)

text \<open>
  C16.  A header is read back from exactly its own 132 bytes: \<open>header_decode\<close> yields \<open>h\<close> on
  \<open>bs\<close> precisely when \<open>bs\<close> is \<open>h\<close> encoded, and that encoding has \<open>HEADER_BYTES\<close> bytes.
\<close>
theorem header_decode_iff_encode:
  "header_decode bs = Inr h \<longleftrightarrow>
     wf_header h \<and> header_encode h = bs \<and> length bs = HEADER_BYTES"
  using header_codec.dec_iff [of bs h] length_header_encode [of h] by auto

end
