(* ===== verification/Block_Body.thy ===== *)
theory Block_Body
  imports Codec
begin

text \<open>
  The block-body envelope of \<open>lib/consensus/src/codec.rs\<close>: a count followed by
  length-prefixed transaction records.  Parsing keeps the raw bytes and the spans of the
  records; the lemmas show that parsing and encoding are inverse bijections between
  accepted bodies and lists of records, and that every span lies inside the body.
\<close>

section \<open>Block bodies\<close>

record block_body =
  body_raw :: bytes
  body_spans :: "(nat \<times> nat) list"

definition usize_checked_add :: "nat \<Rightarrow> nat \<Rightarrow> nat option" where
  "usize_checked_add a b = (if a + b < 2 ^ 64 then Some (a + b) else None)"

fun parse_records :: "bytes \<Rightarrow> nat \<Rightarrow> nat \<Rightarrow> (nat \<times> nat) list \<Rightarrow>
    codec_error + ((nat \<times> nat) list \<times> nat)" where
  "parse_records raw 0 off spans = Inr (spans, off)"
| "parse_records raw (Suc n) off spans =
     bindE (ok_or (usize_checked_add off BODY_TXLEN_BYTES) (BodyTooLarge (length raw))) (\<lambda>len_end.
       if length raw < len_end then Inl (Truncated len_end (length raw))
       else
         let tx_len = unat (from_le (sub_bytes raw off len_end) :: u32) in
         if tx_len = 0 \<or> MAX_TX_BYTES < tx_len then Inl (BodyTxLen tx_len)
         else bindE (ok_or (usize_checked_add len_end tx_len) (BodyTooLarge (length raw))) (\<lambda>tx_end.
           if length raw < tx_end then Inl (Truncated tx_end (length raw))
           else parse_records raw n tx_end (spans @ [(len_end, tx_end)])))"

definition body_parse :: "bytes \<Rightarrow> codec_error + block_body" where
  "body_parse raw =
     (if MAX_BLOCK_BYTES < length raw + HEADER_BYTES then Inl (BodyTooLarge (length raw))
      else if length raw < BODY_COUNT_BYTES then Inl (Truncated BODY_COUNT_BYTES (length raw))
      else
        let count = unat (from_le (sub_bytes raw 0 BODY_COUNT_BYTES) :: u32) in
        if count = 0 \<or> MAX_TXS_PER_BLOCK < count then Inl (BodyTxCount count)
        else
          let min_total = BODY_COUNT_BYTES + count * BODY_MIN_RECORD_BYTES in
          if length raw < min_total then Inl (Truncated min_total (length raw))
          else bindE (parse_records raw count BODY_COUNT_BYTES []) (\<lambda>(spans, off).
            if off \<noteq> length raw then Inl (TrailingBytes (length raw - off))
            else Inr \<lparr> body_raw = raw, body_spans = spans \<rparr>))"

fun encode_records :: "bytes list \<Rightarrow> bytes \<Rightarrow> codec_error + bytes" where
  "encode_records [] v = Inr v"
| "encode_records (tx # txs) v =
     (if tx = [] \<or> MAX_TX_BYTES < length tx then Inl (BodyTxLen (length tx))
      else encode_records txs (v @ to_le 4 (of_nat (length tx) :: u32) @ tx))"

definition body_encode :: "bytes list \<Rightarrow> codec_error + bytes" where
  "body_encode txs =
     (if txs = [] \<or> MAX_TXS_PER_BLOCK < length txs then Inl (BodyTxCount (length txs))
      else bindE (encode_records txs (to_le 4 (of_nat (length txs) :: u32))) (\<lambda>v.
        if MAX_BLOCK_BYTES < length v + HEADER_BYTES then Inl (BodyTooLarge (length v))
        else Inr v))"

definition body_len :: "block_body \<Rightarrow> nat" where
  "body_len b = length (body_spans b)"

definition tx_bytes :: "block_body \<Rightarrow> nat \<Rightarrow> bytes option" where
  "tx_bytes b i =
     (if i < length (body_spans b)
      then Some (sub_bytes (body_raw b) (fst (body_spans b ! i)) (snd (body_spans b ! i)))
      else None)"

definition body_decode_tx :: "block_body \<Rightarrow> nat \<Rightarrow> (codec_error + tx) option" where
  "body_decode_tx b i = map_option decode_tx (tx_bytes b i)"

definition body_decode_all :: "block_body \<Rightarrow> codec_error + tx list" where
  "body_decode_all b = mapM_E (\<lambda>i. decode_tx (the (tx_bytes b i))) [0..<body_len b]"

section \<open>Encoding\<close>

definition record_bytes :: "bytes \<Rightarrow> bytes" where
  "record_bytes tx = to_le 4 (of_nat (length tx) :: u32) @ tx"

definition record_ok :: "bytes \<Rightarrow> bool" where
  "record_ok tx \<longleftrightarrow> tx \<noteq> [] \<and> length tx \<le> MAX_TX_BYTES"

lemma length_record_bytes [simp]: "length (record_bytes tx) = 4 + length tx"
  by (simp add: record_bytes_def)

lemma encode_records_Inr:
  "encode_records txs v = Inr r \<longleftrightarrow>
     list_all record_ok txs \<and> r = v @ concat (map record_bytes txs)"
  by (induction txs arbitrary: v) (auto simp: record_ok_def record_bytes_def)

lemma body_encode_Inr:
  "body_encode txs = Inr raw \<longleftrightarrow>
     txs \<noteq> [] \<and> length txs \<le> MAX_TXS_PER_BLOCK \<and> list_all record_ok txs \<and>
     raw = to_le 4 (of_nat (length txs) :: u32) @ concat (map record_bytes txs) \<and>
     length raw + HEADER_BYTES \<le> MAX_BLOCK_BYTES"
  by (auto simp: body_encode_def result_simps encode_records_Inr)

section \<open>Parsing\<close>

fun spans_at :: "nat \<Rightarrow> bytes list \<Rightarrow> (nat \<times> nat) list" where
  "spans_at off [] = []"
| "spans_at off (tx # txs) =
     (off + 4, off + 4 + length tx) # spans_at (off + 4 + length tx) txs"

definition span_bytes :: "bytes \<Rightarrow> nat \<times> nat \<Rightarrow> bytes" where
  "span_bytes raw s = sub_bytes raw (fst s) (snd s)"

definition body_txs :: "block_body \<Rightarrow> bytes list" where
  "body_txs b = map (span_bytes (body_raw b)) (body_spans b)"

lemma length_spans_at [simp]: "length (spans_at off txs) = length txs"
  by (induction txs arbitrary: off) auto

lemma parse_records_concat:
  assumes "list_all record_ok txs" "length raw < 2 ^ 64"
    and "raw = pre @ concat (map record_bytes txs) @ post"
  shows "parse_records raw (length txs) (length pre) spans =
    Inr (spans @ spans_at (length pre) txs, length pre + length (concat (map record_bytes txs)))"
  using assms
proof (induction txs arbitrary: pre spans)
  case (Cons tx txs)
  let ?n = "length pre"
  have ok: "tx \<noteq> []" "length tx \<le> 8192" using Cons.prems(1) by (simp_all add: record_ok_def)
  have raw: "raw = pre @ to_le 4 (of_nat (length tx) :: u32) @ tx @ concat (map record_bytes txs) @ post"
    using Cons.prems(3) by (simp add: record_bytes_def [of tx])
  then have bounds: "?n + 4 + length tx \<le> length raw" by simp
  have "sub_bytes raw ?n (?n + 4) = to_le 4 (of_nat (length tx) :: u32)"
    by (simp add: raw sub_bytes_def)
  then have len: "unat (from_le (sub_bytes raw ?n (?n + 4)) :: u32) = length tx"
    using ok by (simp add: byte_simps unat_of_nat_u32)
  have "parse_records raw (length txs) (length (pre @ record_bytes tx))
      (spans @ [(?n + 4, ?n + 4 + length tx)]) =
    Inr ((spans @ [(?n + 4, ?n + 4 + length tx)]) @ spans_at (length (pre @ record_bytes tx)) txs,
      length (pre @ record_bytes tx) + length (concat (map record_bytes txs)))"
    using Cons.prems by (intro Cons.IH) simp_all
  then show ?case
    using ok bounds Cons.prems(2) len by (simp add: usize_checked_add_def Let_def add.assoc)
qed simp

lemma parse_records_sound:
  assumes "parse_records raw n off spans = Inr (sp, e)" "off \<le> length raw"
  shows "\<exists>txs. length txs = n \<and> list_all record_ok txs \<and> off \<le> e \<and> e \<le> length raw \<and>
    sub_bytes raw off e = concat (map record_bytes txs) \<and> sp = spans @ spans_at off txs"
  using assms
proof (induction n arbitrary: off spans)
  case (Suc n)
  let ?len = "unat (from_le (sub_bytes raw off (off + 4)) :: u32)"
  let ?tx = "sub_bytes raw (off + 4) (off + 4 + ?len)"
  from Suc.prems have l: "off + 4 \<le> length raw" "?len \<noteq> 0" "?len \<le> 8192"
      "off + 4 + ?len \<le> length raw"
    and rec: "parse_records raw n (off + 4 + ?len) (spans @ [(off + 4, off + 4 + ?len)]) = Inr (sp, e)"
    by (auto simp: Let_def result_simps usize_checked_add_def split: if_splits)
  from Suc.IH [OF rec] l obtain txs where
    IH: "length txs = n" "list_all record_ok txs" "off + 4 + ?len \<le> e" "e \<le> length raw"
      "sub_bytes raw (off + 4 + ?len) e = concat (map record_bytes txs)"
      "sp = (spans @ [(off + 4, off + 4 + ?len)]) @ spans_at (off + 4 + ?len) txs" by auto
  have ltx: "length ?tx = ?len" using l by (simp add: byte_simps)
  then have "record_ok ?tx" using l by (auto simp: record_ok_def)
  moreover have "record_bytes ?tx = sub_bytes raw off (off + 4) @ ?tx"
    using l by (simp add: record_bytes_def ltx byte_simps)
  then have "concat (map record_bytes (?tx # txs)) = sub_bytes raw off e"
    using IH(3) by (simp add: sub_bytes_join sub_bytes_join_append flip: IH(5))
  ultimately show ?case
    using IH ltx by (intro exI [of _ "?tx # txs"]) auto
qed (auto simp: sub_bytes_def)

lemma map_span_bytes_spans_at:
  "raw = pre @ concat (map record_bytes txs) @ post \<Longrightarrow>
     map (span_bytes raw) (spans_at (length pre) txs) = txs"
proof (induction txs arbitrary: pre)
  case (Cons tx txs)
  let ?n = "length pre"
  have "raw = (pre @ record_bytes tx) @ concat (map record_bytes txs) @ post" using Cons.prems by simp
  from Cons.IH [OF this] have "map (span_bytes raw) (spans_at (?n + 4 + length tx) txs) = txs"
    by (simp add: add.assoc)
  moreover have "span_bytes raw (?n + 4, ?n + 4 + length tx) = tx"
    by (simp add: span_bytes_def Cons.prems record_bytes_def sub_bytes_def)
  ultimately show ?case by simp
qed simp

lemma body_parse_encode:
  assumes "body_encode txs = Inr raw"
  shows "body_parse raw = Inr \<lparr> body_raw = raw, body_spans = spans_at 4 txs \<rparr>"
    and "map (span_bytes raw) (spans_at 4 txs) = txs"
proof -
  let ?pre = "to_le 4 (of_nat (length txs) :: u32)"
  from assms have ok: "list_all record_ok txs" "txs \<noteq> []" "length txs \<le> 4096"
      "length raw + 132 \<le> 1048576"
    and raw: "raw = ?pre @ concat (map record_bytes txs) @ []"
    by (auto simp: body_encode_Inr)
  from map_span_bytes_spans_at [OF raw]
  show "map (span_bytes raw) (spans_at 4 txs) = txs" by simp
  have "sub_bytes raw 0 4 = ?pre" by (simp add: raw sub_bytes_def)
  then have cnt: "unat (from_le (sub_bytes raw 0 4) :: u32) = length txs"
    using ok by (simp add: byte_simps unat_of_nat_u32)
  have "length txs * 5 \<le> length (concat (map record_bytes txs))"
  proof (use ok(1) in \<open>induction txs\<close>)
    case (Cons a txs)
    then have "1 \<le> length a" by (simp add: record_ok_def Suc_le_eq)
    then show ?case using Cons by simp
  qed simp
  then have "4 + length txs * 5 \<le> length raw" by (simp add: raw)
  moreover have "parse_records raw (length txs) 4 [] = Inr (spans_at 4 txs, length raw)"
    using parse_records_concat [OF ok(1) _ raw, of "[]"] ok(4) by (simp add: raw)
  ultimately show "body_parse raw = Inr \<lparr> body_raw = raw, body_spans = spans_at 4 txs \<rparr>"
    using ok cnt by (simp add: body_parse_def Let_def)
qed

lemma body_encode_parse:
  assumes "body_parse raw = Inr b"
  shows "body_encode (body_txs b) = Inr raw" and "body_raw b = raw"
    and "body_spans b = spans_at 4 (body_txs b)"
proof -
  let ?n = "unat (from_le (sub_bytes raw 0 4) :: u32)"
  from assms have l: "length raw + 132 \<le> 1048576" "4 \<le> length raw" "?n \<noteq> 0" "?n \<le> 4096"
    and p: "parse_records raw ?n 4 [] = Inr (body_spans b, length raw)" and r: "body_raw b = raw"
    by (auto simp: body_parse_def Let_def result_simps split: if_splits)
  from parse_records_sound [OF p] l obtain txs where
    txs: "length txs = ?n" "list_all record_ok txs"
      "sub_bytes raw 4 (length raw) = concat (map record_bytes txs)" "body_spans b = spans_at 4 txs"
    by auto
  have "to_le 4 (of_nat ?n :: u32) = sub_bytes raw 0 4" using l by (simp add: byte_simps)
  then have raw: "raw = to_le 4 (of_nat (length txs) :: u32) @ concat (map record_bytes txs) @ []"
    using txs l sub_bytes_join [of 0 4 "length raw" raw] by (simp add: sub_bytes_full)
  have bt: "body_txs b = txs"
    using map_span_bytes_spans_at [OF raw] by (simp add: body_txs_def r txs)
  have "txs \<noteq> []" using txs(1) l(3) by auto
  then show "body_encode (body_txs b) = Inr raw"
    using txs l raw by (simp add: bt body_encode_Inr)
  show "body_raw b = raw" by (rule r)
  show "body_spans b = spans_at 4 (body_txs b)" by (simp add: bt txs)
qed

interpretation body_codec: byte_codec "\<lambda>_. True" body_encode
  "\<lambda>raw. bindE (body_parse raw) (\<lambda>b. Inr (body_txs b))"
proof
  fix x bs assume "body_encode x = Inr bs"
  from body_parse_encode [OF this]
  show "bindE (body_parse bs) (\<lambda>b. Inr (body_txs b)) = Inr x" by (simp add: body_txs_def)
next
  fix bs x assume "bindE (body_parse bs) (\<lambda>b. Inr (body_txs b)) = Inr x"
  then show "True \<and> body_encode x = Inr bs" by (auto simp: result_simps body_encode_parse)
qed

lemma tx_bytes_body_txs: "i < body_len b \<Longrightarrow> tx_bytes b i = Some (body_txs b ! i)"
  by (simp add: tx_bytes_def body_len_def body_txs_def span_bytes_def)

lemma length_body_txs [simp]: "length (body_txs b) = body_len b"
  by (simp add: body_txs_def body_len_def)

lemma body_decode_all_eq: "body_decode_all b = mapM_E decode_tx (body_txs b)"
proof -
  have "mapM_E (\<lambda>i. decode_tx (the (tx_bytes b i))) is = mapM_E decode_tx (map ((!) (body_txs b)) is)"
    if "set is \<subseteq> {0..<body_len b}" for "is"
    using that by (induction "is") (auto simp: tx_bytes_body_txs)
  then show ?thesis
    using map_nth [of "body_txs b"] by (simp add: body_decode_all_def)
qed

section \<open>Properties\<close>

text \<open>
  C9.  Parsing a block body inverts encoding it and accepts nothing else: \<open>body_parse\<close> returns
  \<open>b\<close> on \<open>raw\<close> precisely when \<open>b\<close> keeps \<open>raw\<close>, its spans are those of its records laid
  end to end after the count, and encoding the records gives \<open>raw\<close> back.
\<close>
theorem body_parse_iff_encode:
  "body_parse raw = Inr b \<longleftrightarrow>
     body_raw b = raw \<and> body_spans b = spans_at 4 (body_txs b) \<and> body_encode (body_txs b) = Inr raw"
proof
  assume "body_parse raw = Inr b"
  then show "body_raw b = raw \<and> body_spans b = spans_at 4 (body_txs b) \<and> body_encode (body_txs b) = Inr raw"
    by (simp add: body_encode_parse)
next
  assume r: "body_raw b = raw \<and> body_spans b = spans_at 4 (body_txs b) \<and> body_encode (body_txs b) = Inr raw"
  then have "body_parse raw = Inr \<lparr> body_raw = raw, body_spans = spans_at 4 (body_txs b) \<rparr>"
    by (intro body_parse_encode) simp
  then show "body_parse raw = Inr b" using r by (cases b) simp
qed

end
