(* ===== verification/Blake3.thy ===== *)
theory Blake3
  imports Prelude
begin

text \<open>
  The in-tree BLAKE3-256 of \<open>lib/consensus/src/blake3.rs\<close>: the compression function,
  the chunk state, and the incremental hasher with its stack of chaining values.  The
  arrays of the source are lists, the counters keep their width where they enter the
  compression; the \<open>u8\<close> lengths \<open>block_len\<close> and \<open>blocks_compressed\<close> and the stack
  height are natural numbers, bounded by the invariants proved below.
\<close>

section \<open>Compression\<close>

type_synonym cv = "u32 list"

definition OUT_LEN :: nat where [simp]: "OUT_LEN = 32"
definition BLOCK_LEN :: nat where [simp]: "BLOCK_LEN = 64"
definition CHUNK_LEN :: nat where [simp]: "CHUNK_LEN = 1024"
definition CHUNK_START :: u32 where [simp]: "CHUNK_START = 1"
definition CHUNK_END :: u32 where [simp]: "CHUNK_END = 2"
definition PARENT :: u32 where [simp]: "PARENT = 4"
definition ROOT :: u32 where [simp]: "ROOT = 8"
definition MAX_DEPTH :: nat where [simp]: "MAX_DEPTH = 54"

definition IV :: cv where
  "IV = [0x6A09E667, 0xBB67AE85, 0x3C6EF372, 0xA54FF53A,
         0x510E527F, 0x9B05688C, 0x1F83D9AB, 0x5BE0CD19]"

definition MSG_PERMUTATION :: "nat list" where
  "MSG_PERMUTATION = [2, 6, 3, 10, 7, 0, 4, 13, 1, 11, 12, 5, 9, 14, 15, 8]"

definition blake_g :: "u32 list \<Rightarrow> nat \<Rightarrow> nat \<Rightarrow> nat \<Rightarrow> nat \<Rightarrow> u32 \<Rightarrow> u32 \<Rightarrow> u32 list" where
  "blake_g st a b c d mx my =
     (let st = st[a := st ! a + st ! b + mx];
          st = st[d := word_rotr 16 (st ! d XOR st ! a)];
          st = st[c := st ! c + st ! d];
          st = st[b := word_rotr 12 (st ! b XOR st ! c)];
          st = st[a := st ! a + st ! b + my];
          st = st[d := word_rotr 8 (st ! d XOR st ! a)];
          st = st[c := st ! c + st ! d];
          st = st[b := word_rotr 7 (st ! b XOR st ! c)]
      in st)"

definition blake_round :: "u32 list \<Rightarrow> u32 list \<Rightarrow> u32 list" where
  "blake_round st m =
     (let st = blake_g st 0 4 8 12 (m ! 0) (m ! 1);
          st = blake_g st 1 5 9 13 (m ! 2) (m ! 3);
          st = blake_g st 2 6 10 14 (m ! 4) (m ! 5);
          st = blake_g st 3 7 11 15 (m ! 6) (m ! 7);
          st = blake_g st 0 5 10 15 (m ! 8) (m ! 9);
          st = blake_g st 1 6 11 12 (m ! 10) (m ! 11);
          st = blake_g st 2 7 8 13 (m ! 12) (m ! 13);
          st = blake_g st 3 4 9 14 (m ! 14) (m ! 15)
      in st)"

definition permute :: "u32 list \<Rightarrow> u32 list" where
  "permute m = map (\<lambda>src. m ! src) MSG_PERMUTATION"

definition compress :: "cv \<Rightarrow> u32 list \<Rightarrow> u64 \<Rightarrow> u32 \<Rightarrow> u32 \<Rightarrow> u32 list" where
  "compress chaining_value block_words counter block_len flags =
     (let st = take 8 chaining_value @ take 4 IV @
            [ucast counter, ucast (drop_bit 32 counter), block_len, flags];
          st = blake_round st block_words;
          (st, block) = fold (\<lambda>_ (st, block). let block = permute block in (blake_round st block, block))
            [0..<6] (st, block_words)
      in fold (\<lambda>i st. let st = st[i := st ! i XOR st ! (i + 8)]
                       in st[i + 8 := st ! (i + 8) XOR chaining_value ! i]) [0..<8] st)"

definition first_8_words :: "u32 list \<Rightarrow> cv" where
  "first_8_words ws = take 8 ws"

fun words_from_le_bytes :: "bytes \<Rightarrow> u32 list" where
  "words_from_le_bytes (a # b # c # d # bs) = from_le [a, b, c, d] # words_from_le_bytes bs"
| "words_from_le_bytes _ = []"

record b3_output =
  out_input_cv :: cv
  out_block_words :: "u32 list"
  out_counter :: u64
  out_block_len :: u32
  out_flags :: u32

definition chaining_value :: "b3_output \<Rightarrow> cv" where
  "chaining_value o' = first_8_words (compress (out_input_cv o') (out_block_words o')
     (out_counter o') (out_block_len o') (out_flags o'))"

definition root_hash :: "b3_output \<Rightarrow> hash32" where
  "root_hash o' =
     (let words = compress (out_input_cv o') (out_block_words o') 0 (out_block_len o')
            (out_flags o' OR ROOT)
      in concat (map (to_le 4) (take 8 words)))"

section \<open>Chunks\<close>

record chunk_state =
  cs_chaining_value :: cv
  cs_chunk_counter :: u64
  cs_block :: bytes
  cs_block_len :: nat
  cs_blocks_compressed :: nat

definition chunk_new :: "u64 \<Rightarrow> chunk_state" where
  "chunk_new n = \<lparr> cs_chaining_value = IV, cs_chunk_counter = n, cs_block = replicate BLOCK_LEN 0,
     cs_block_len = 0, cs_blocks_compressed = 0 \<rparr>"

definition chunk_len :: "chunk_state \<Rightarrow> nat" where
  "chunk_len cs = BLOCK_LEN * cs_blocks_compressed cs + cs_block_len cs"

definition start_flag :: "chunk_state \<Rightarrow> u32" where
  "start_flag cs = (if cs_blocks_compressed cs = 0 then CHUNK_START else 0)"

text \<open>The body of the \<open>if block_len == BLOCK_LEN\<close> in \<open>ChunkState::update\<close>.\<close>

definition chunk_flush :: "chunk_state \<Rightarrow> chunk_state" where
  "chunk_flush cs =
     cs\<lparr> cs_chaining_value := first_8_words (compress (cs_chaining_value cs)
           (words_from_le_bytes (cs_block cs)) (cs_chunk_counter cs) (of_nat BLOCK_LEN) (start_flag cs)),
         cs_blocks_compressed := cs_blocks_compressed cs + 1,
         cs_block := replicate BLOCK_LEN 0,
         cs_block_len := 0 \<rparr>"

definition chunk_absorb :: "chunk_state \<Rightarrow> bytes \<Rightarrow> chunk_state" where
  "chunk_absorb cs bs =
     cs\<lparr> cs_block := put_bytes (cs_block cs) (cs_block_len cs) bs,
         cs_block_len := cs_block_len cs + length bs \<rparr>"

text \<open>
  One turn of the loop flushes a full block and copies as much input as fits.  A
  \<open>block_len\<close> above \<open>BLOCK_LEN\<close> (an arithmetic panic in the source) stops the model;
  \<open>chunk_inv\<close> excludes it.
\<close>

function chunk_update :: "chunk_state \<Rightarrow> bytes \<Rightarrow> chunk_state" where
  "chunk_update cs input =
     (if input = [] \<or> BLOCK_LEN < cs_block_len cs then cs
      else
        let cs = (if cs_block_len cs = BLOCK_LEN then chunk_flush cs else cs);
            want = BLOCK_LEN - cs_block_len cs;
            tk = min want (length input)
        in chunk_update (chunk_absorb cs (take tk input)) (drop tk input))"
  by pat_completeness auto
termination
  by (relation "measure (\<lambda>(cs, input). length input)") (auto simp: chunk_flush_def Let_def)

declare chunk_update.simps [simp del]

definition chunk_output :: "chunk_state \<Rightarrow> b3_output" where
  "chunk_output cs =
     \<lparr> out_input_cv = cs_chaining_value cs,
       out_block_words = words_from_le_bytes (cs_block cs),
       out_counter = cs_chunk_counter cs,
       out_block_len = of_nat (cs_block_len cs),
       out_flags = start_flag cs OR CHUNK_END \<rparr>"

definition parent_output :: "cv \<Rightarrow> cv \<Rightarrow> b3_output" where
  "parent_output left right =
     \<lparr> out_input_cv = IV, out_block_words = left @ right, out_counter = 0,
       out_block_len = of_nat BLOCK_LEN, out_flags = PARENT \<rparr>"

section \<open>Hasher\<close>

text \<open>\<open>cv_stack[..cv_stack_len]\<close> is the list \<open>hs_cv_stack\<close>, the top of the stack last.\<close>

record hasher =
  hs_chunk_state :: chunk_state
  hs_cv_stack :: "cv list"

definition hasher_new :: hasher where
  "hasher_new = \<lparr> hs_chunk_state = chunk_new 0, hs_cv_stack = [] \<rparr>"

text \<open>
  \<open>add_chunk_chaining_value\<close>: pop and merge once per trailing zero of the chunk count,
  then push.  Popping an empty stack (a panic in the source) ends the loop in the
  model; \<open>stack_of\<close> below describes the stack and excludes it.
\<close>

function add_chunk_chaining_value :: "cv list \<Rightarrow> cv \<Rightarrow> nat \<Rightarrow> cv list" where
  "add_chunk_chaining_value stack new_cv total_chunks =
     (if 0 < total_chunks \<and> even total_chunks \<and> stack \<noteq> []
      then add_chunk_chaining_value (butlast stack)
             (chaining_value (parent_output (last stack) new_cv)) (total_chunks div 2)
      else stack @ [new_cv])"
  by pat_completeness auto
termination
  by (relation "measure (\<lambda>(st, c, n). n)") auto

declare add_chunk_chaining_value.simps [simp del]

definition hasher_roll :: "hasher \<Rightarrow> hasher" where
  "hasher_roll h =
     (let cs = hs_chunk_state h;
          cv = chaining_value (chunk_output cs);
          total = cs_chunk_counter cs + 1
      in h\<lparr> hs_cv_stack := add_chunk_chaining_value (hs_cv_stack h) cv (unat total),
            hs_chunk_state := chunk_new total \<rparr>)"

function hasher_update :: "hasher \<Rightarrow> bytes \<Rightarrow> hasher" where
  "hasher_update h input =
     (if input = [] \<or> CHUNK_LEN < chunk_len (hs_chunk_state h) then h
      else
        let h = (if chunk_len (hs_chunk_state h) = CHUNK_LEN then hasher_roll h else h);
            want = CHUNK_LEN - chunk_len (hs_chunk_state h);
            tk = min want (length input)
        in hasher_update
             (h\<lparr> hs_chunk_state := chunk_update (hs_chunk_state h) (take tk input) \<rparr>)
             (drop tk input))"
  by pat_completeness auto
termination
  by (relation "measure (\<lambda>(h, input). length input)")
     (auto simp: hasher_roll_def chunk_new_def chunk_len_def Let_def)

declare hasher_update.simps [simp del]

definition hasher_finalize :: "hasher \<Rightarrow> hash32" where
  "hasher_finalize h =
     root_hash (foldr (\<lambda>cv out. parent_output cv (chaining_value out)) (hs_cv_stack h)
       (chunk_output (hs_chunk_state h)))"

definition blake3_hash :: "bytes \<Rightarrow> hash32" where
  "blake3_hash input = hasher_finalize (hasher_update hasher_new input)"

section \<open>Streaming\<close>

text \<open>
  Absorbing input block by block is absorbing it byte by byte, so the way a message is cut
  into \<open>update\<close> calls does not matter.
\<close>

definition chunk_inv :: "chunk_state \<Rightarrow> bool" where
  "chunk_inv cs \<longleftrightarrow> cs_block_len cs \<le> BLOCK_LEN \<and> length (cs_block cs) = BLOCK_LEN"

definition chunk_push :: "chunk_state \<Rightarrow> u8 \<Rightarrow> chunk_state" where
  "chunk_push cs b = chunk_absorb (if cs_block_len cs = BLOCK_LEN then chunk_flush cs else cs) [b]"

lemma chunk_inv_new [simp]: "chunk_inv (chunk_new n)"
  by (simp add: chunk_inv_def chunk_new_def)

lemma chunk_inv_push [simp]: "chunk_inv cs \<Longrightarrow> chunk_inv (chunk_push cs b)"
  by (auto simp: chunk_inv_def chunk_push_def chunk_absorb_def chunk_flush_def put_bytes_def)

lemma chunk_len_push: "chunk_len (chunk_push cs b) = chunk_len cs + 1"
  by (simp add: chunk_len_def chunk_push_def chunk_absorb_def chunk_flush_def)

lemma chunk_inv_foldl [simp]: "chunk_inv cs \<Longrightarrow> chunk_inv (foldl chunk_push cs bs)"
  by (induction bs arbitrary: cs) simp_all

lemma chunk_len_foldl: "chunk_len (foldl chunk_push cs bs) = chunk_len cs + length bs"
  by (induction bs arbitrary: cs) (simp_all add: chunk_len_push)

lemma chunk_absorb_foldl:
  "chunk_inv cs \<Longrightarrow> cs_block_len cs + length bs \<le> BLOCK_LEN \<Longrightarrow>
     chunk_absorb cs bs = foldl chunk_push cs bs"
proof (induction bs arbitrary: cs)
  case (Cons b bs)
  have ne: "cs_block_len cs \<noteq> BLOCK_LEN" using Cons.prems by simp
  have p: "chunk_push cs b = chunk_absorb cs [b]" using ne by (simp add: chunk_push_def)
  have "chunk_absorb (chunk_absorb cs [b]) bs = chunk_absorb cs (b # bs)"
    using Cons.prems by (simp add: chunk_absorb_def chunk_inv_def put_bytes_def min_def add.commute)
  moreover have "chunk_absorb (chunk_push cs b) bs = foldl chunk_push (chunk_push cs b) bs"
    using Cons.prems ne by (intro Cons.IH) (simp_all add: p chunk_absorb_def chunk_inv_def put_bytes_def)
  ultimately show ?case by (simp add: p)
next
  case Nil
  then show ?case by (simp add: chunk_absorb_def put_bytes_def)
qed

lemma chunk_inv_flush [simp]: "chunk_inv (chunk_flush cs)"
  by (simp add: chunk_inv_def chunk_flush_def)

lemma chunk_push_flush:
  "cs_block_len cs = BLOCK_LEN \<Longrightarrow> chunk_push (chunk_flush cs) b = chunk_push cs b"
  by (simp add: chunk_push_def chunk_flush_def)

lemma chunk_update_foldl: "chunk_inv cs \<Longrightarrow> chunk_update cs bs = foldl chunk_push cs bs"
proof (induction cs bs rule: chunk_update.induct)
  case (1 cs bs)
  show ?case
  proof (cases "bs = []")
    case True
    then show ?thesis by (simp add: chunk_update.simps)
  next
    case False
    define cs' where "cs' = (if cs_block_len cs = BLOCK_LEN then chunk_flush cs else cs)"
    define tk where "tk = min (BLOCK_LEN - cs_block_len cs') (length bs)"
    have inv: "chunk_inv cs'" using "1.prems" by (simp add: cs'_def)
    have "cs_block_len cs' + tk \<le> BLOCK_LEN" using inv by (auto simp: tk_def chunk_inv_def)
    then have ab: "chunk_absorb cs' (take tk bs) = foldl chunk_push cs' (take tk bs)"
      using inv by (intro chunk_absorb_foldl) simp_all
    have "chunk_update cs bs = chunk_update (chunk_absorb cs' (take tk bs)) (drop tk bs)"
      using False "1.prems"
      by (subst chunk_update.simps) (simp add: cs'_def tk_def Let_def chunk_inv_def)
    also have "\<dots> = foldl chunk_push (chunk_absorb cs' (take tk bs)) (drop tk bs)"
      using False "1.prems" inv
      by (intro "1.IH" [OF _ cs'_def refl tk_def]) (auto simp: ab chunk_inv_def [of cs])
    also have "\<dots> = foldl chunk_push cs' (take tk bs @ drop tk bs)" by (simp only: ab foldl_append)
    also have "\<dots> = foldl chunk_push cs bs"
      using False by (cases bs) (simp_all add: cs'_def chunk_push_flush)
    finally show ?thesis .
  qed
qed

definition hasher_inv :: "hasher \<Rightarrow> bool" where
  "hasher_inv h \<longleftrightarrow> chunk_inv (hs_chunk_state h) \<and> chunk_len (hs_chunk_state h) \<le> CHUNK_LEN"

definition hasher_push :: "hasher \<Rightarrow> u8 \<Rightarrow> hasher" where
  "hasher_push h b =
     (let h = (if chunk_len (hs_chunk_state h) = CHUNK_LEN then hasher_roll h else h)
      in h\<lparr> hs_chunk_state := chunk_push (hs_chunk_state h) b \<rparr>)"

lemma chunk_len_new [simp]: "chunk_len (chunk_new n) = 0"
  by (simp add: chunk_len_def chunk_new_def)

lemma hasher_roll_chunk [simp]:
  "hs_chunk_state (hasher_roll h) = chunk_new (cs_chunk_counter (hs_chunk_state h) + 1)"
  by (simp add: hasher_roll_def Let_def)

lemma hasher_inv_new [simp]: "hasher_inv hasher_new"
  by (simp add: hasher_inv_def hasher_new_def)

lemma hasher_inv_push [simp]: "hasher_inv h \<Longrightarrow> hasher_inv (hasher_push h b)"
  by (auto simp: hasher_inv_def hasher_push_def Let_def chunk_len_push)

lemma hasher_inv_foldl [simp]: "hasher_inv h \<Longrightarrow> hasher_inv (foldl hasher_push h bs)"
  by (induction bs arbitrary: h) simp_all

lemma hasher_absorb_foldl:
  "chunk_len (hs_chunk_state h) + length bs \<le> CHUNK_LEN \<Longrightarrow>
     h\<lparr> hs_chunk_state := foldl chunk_push (hs_chunk_state h) bs \<rparr> = foldl hasher_push h bs"
proof (induction bs arbitrary: h)
  case (Cons b bs)
  then have p: "hasher_push h b = h\<lparr> hs_chunk_state := chunk_push (hs_chunk_state h) b \<rparr>"
    by (simp add: hasher_push_def)
  then show ?case using Cons.IH [of "hasher_push h b"] Cons.prems by (simp add: chunk_len_push)
qed simp

lemma hasher_push_roll:
  "chunk_len (hs_chunk_state h) = CHUNK_LEN \<Longrightarrow> hasher_push (hasher_roll h) b = hasher_push h b"
  by (simp add: hasher_push_def)

lemma hasher_update_foldl: "hasher_inv h \<Longrightarrow> hasher_update h bs = foldl hasher_push h bs"
proof (induction h bs rule: hasher_update.induct)
  case (1 h bs)
  show ?case
  proof (cases "bs = []")
    case True
    then show ?thesis by (simp add: hasher_update.simps)
  next
    case False
    define h' where "h' = (if chunk_len (hs_chunk_state h) = CHUNK_LEN then hasher_roll h else h)"
    define tk where "tk = min (CHUNK_LEN - chunk_len (hs_chunk_state h')) (length bs)"
    have inv: "hasher_inv h'" using "1.prems" by (simp add: h'_def hasher_inv_def)
    have "chunk_len (hs_chunk_state h') + tk \<le> CHUNK_LEN" using inv by (auto simp: tk_def hasher_inv_def)
    then have ab: "h'\<lparr> hs_chunk_state := chunk_update (hs_chunk_state h') (take tk bs) \<rparr> =
        foldl hasher_push h' (take tk bs)"
      using inv by (simp add: hasher_inv_def chunk_update_foldl hasher_absorb_foldl)
    have "hasher_update h bs =
        hasher_update (h'\<lparr> hs_chunk_state := chunk_update (hs_chunk_state h') (take tk bs) \<rparr>) (drop tk bs)"
      using False "1.prems"
      by (subst hasher_update.simps) (simp add: h'_def tk_def Let_def hasher_inv_def)
    also have "\<dots> = foldl hasher_push (foldl hasher_push h' (take tk bs)) (drop tk bs)"
      unfolding ab using False "1.prems" inv
      by (intro "1.IH" [OF _ h'_def refl tk_def, unfolded ab]) (auto simp: hasher_inv_def [of h])
    also have "\<dots> = foldl hasher_push h' (take tk bs @ drop tk bs)" by (simp only: foldl_append)
    also have "\<dots> = foldl hasher_push h bs"
      using False by (cases bs) (simp_all add: h'_def hasher_push_roll)
    finally show ?thesis .
  qed
qed

lemma hasher_update_append:
  "hasher_inv h \<Longrightarrow> hasher_update (hasher_update h a) b = hasher_update h (a @ b)"
  by (simp add: hasher_update_foldl)

lemma hasher_inv_update [simp]: "hasher_inv h \<Longrightarrow> hasher_inv (hasher_update h a)"
  by (simp add: hasher_update_foldl)

section \<open>Chunk specification\<close>

text \<open>
  The specification of a chunk walks its 64-byte blocks from the front; only the last one
  is padded and carries \<open>CHUNK_END\<close>.
\<close>

function chunk_spec :: "cv \<Rightarrow> u64 \<Rightarrow> u32 \<Rightarrow> bytes \<Rightarrow> b3_output" where
  "chunk_spec cv ctr fl bs =
     (if length bs \<le> BLOCK_LEN
      then \<lparr> out_input_cv = cv,
             out_block_words = words_from_le_bytes (bs @ replicate (BLOCK_LEN - length bs) 0),
             out_counter = ctr, out_block_len = of_nat (length bs), out_flags = fl OR CHUNK_END \<rparr>
      else chunk_spec (first_8_words (compress cv (words_from_le_bytes (take BLOCK_LEN bs)) ctr
             (of_nat BLOCK_LEN) fl)) ctr 0 (drop BLOCK_LEN bs))"
  by pat_completeness auto
termination
  by (relation "measure (\<lambda>(cv, ctr, fl, bs). length bs)") auto

declare chunk_spec.simps [simp del]

definition chunk_node :: "u64 \<Rightarrow> bytes \<Rightarrow> b3_output" where
  "chunk_node ctr bs = chunk_spec IV ctr CHUNK_START bs"

lemma chunk_output_foldl:
  "cs_block_len cs = 0 \<Longrightarrow> cs_block cs = replicate BLOCK_LEN 0 \<Longrightarrow>
     chunk_output (foldl chunk_push cs bs) =
       chunk_spec (cs_chaining_value cs) (cs_chunk_counter cs) (start_flag cs) bs"
proof (induction "length bs" arbitrary: cs bs rule: less_induct)
  case less
  have inv: "chunk_inv cs" using less.prems by (simp add: chunk_inv_def)
  show ?case
  proof (cases "length bs \<le> BLOCK_LEN")
    case True
    then have "foldl chunk_push cs bs = chunk_absorb cs bs"
      using inv less.prems by (simp add: chunk_absorb_foldl)
    then show ?thesis
      using True less.prems
      by (simp add: chunk_spec.simps chunk_output_def chunk_absorb_def put_bytes_start start_flag_def)
  next
    case False
    let ?full = "chunk_absorb cs (take BLOCK_LEN bs)"
    from False obtain b r where r: "drop BLOCK_LEN bs = b # r" by (cases "drop BLOCK_LEN bs") auto
    have "foldl chunk_push cs bs = foldl chunk_push (foldl chunk_push cs (take BLOCK_LEN bs)) (drop BLOCK_LEN bs)"
      by (metis append_take_drop_id foldl_append)
    also have "foldl chunk_push cs (take BLOCK_LEN bs) = ?full"
      using inv less.prems by (simp add: chunk_absorb_foldl)
    also have "foldl chunk_push ?full (drop BLOCK_LEN bs) = foldl chunk_push (chunk_flush ?full) (drop BLOCK_LEN bs)"
      using False less.prems by (simp only: r) (simp add: chunk_push_flush chunk_absorb_def)
    finally have "chunk_output (foldl chunk_push cs bs) =
        chunk_output (foldl chunk_push (chunk_flush ?full) (drop BLOCK_LEN bs))" by simp
    also have "\<dots> = chunk_spec (cs_chaining_value (chunk_flush ?full)) (cs_chunk_counter (chunk_flush ?full))
        (start_flag (chunk_flush ?full)) (drop BLOCK_LEN bs)"
      using False by (intro less.hyps) (simp_all add: chunk_flush_def)
    also have "\<dots> = chunk_spec (cs_chaining_value cs) (cs_chunk_counter cs) (start_flag cs) bs"
      using False less.prems
      by (subst (2) chunk_spec.simps)
         (simp add: chunk_flush_def chunk_absorb_def put_bytes_start start_flag_def)
    finally show ?thesis .
  qed
qed

lemma chunk_output_new: "chunk_output (foldl chunk_push (chunk_new n) bs) = chunk_node n bs"
  by (subst chunk_output_foldl) (simp_all add: chunk_new_def chunk_node_def start_flag_def)

end
