(* ===== verification/Crypto.thy ===== *)
theory Crypto
  imports Block_Body Blake3
begin

text \<open>
  The hashes and signatures of \<open>lib/consensus/src/crypto.rs\<close>: header hashes, transaction
  identifiers, signing messages, Merkle leaves and nodes, and Ed25519 verification.  The
  signature scheme is the external \<open>ed25519_dalek\<close> crate and enters as the record
  \<open>ed25519\<close> of its two entry points.  Every digest is shown to be the hash of an explicit
  preimage; the preimages of the different uses are injective and pairwise different.
\<close>

section \<open>Operations\<close>

datatype sig_error = InvalidPubkey | InvalidSignature

record 'vk ed25519 =
  ed_from_bytes :: "bytes \<Rightarrow> 'vk option"
  ed_verify_strict :: "'vk \<Rightarrow> bytes \<Rightarrow> bytes \<Rightarrow> bool"

definition header_hash :: "bytes \<Rightarrow> hash32" where
  "header_hash header_bytes = blake3_hash header_bytes"

definition txid :: "bytes \<Rightarrow> hash32" where
  "txid canonical_unsigned =
     (let h = hasher_new;
          h = hasher_update h DOMAIN_TXID;
          h = hasher_update h canonical_unsigned
      in hasher_finalize h)"

definition signing_message_with_chain_id ::
  "bytes \<Rightarrow> bytes \<Rightarrow> bytes \<Rightarrow> u128 \<Rightarrow> u128 \<Rightarrow> u64 \<Rightarrow> hash32" where
  "signing_message_with_chain_id chain from_pub dest amount fee nonce =
     (let h = hasher_new;
          h = hasher_update h DOMAIN_TX_SIGN;
          h = hasher_update h chain;
          h = hasher_update h from_pub;
          h = hasher_update h dest;
          h = hasher_update h (to_le 16 amount);
          h = hasher_update h (to_le 16 fee);
          h = hasher_update h (to_le 8 nonce)
      in hasher_finalize h)"

definition signing_message :: "network \<Rightarrow> bytes \<Rightarrow> bytes \<Rightarrow> u128 \<Rightarrow> u128 \<Rightarrow> u64 \<Rightarrow> hash32" where
  "signing_message network from_pub dest amount fee nonce =
     signing_message_with_chain_id (chain_id network) from_pub dest amount fee nonce"

definition transfer_signing_message :: "network \<Rightarrow> transfer_tx \<Rightarrow> hash32" where
  "transfer_signing_message network tx =
     signing_message network (tr_from_pub tx) (tr_to tx) (tr_amount tx) (tr_fee tx) (tr_nonce tx)"

definition merkle_leaf :: "bytes \<Rightarrow> hash32" where
  "merkle_leaf bs =
     (let h = hasher_new;
          h = hasher_update h DOMAIN_MERKLE_LEAF;
          h = hasher_update h bs
      in hasher_finalize h)"

definition merkle_node :: "hash32 \<Rightarrow> hash32 \<Rightarrow> bool \<Rightarrow> hash32" where
  "merkle_node left right duplicated =
     (let h = hasher_new;
          h = hasher_update h DOMAIN_MERKLE_NODE;
          h = hasher_update h [if duplicated then MERKLE_FLAG_DUP else MERKLE_FLAG_PAIR];
          h = hasher_update h left;
          h = hasher_update h right
      in hasher_finalize h)"

definition announcement_signing_message_explicit_length ::
  "bytes \<Rightarrow> bytes \<Rightarrow> u128 \<Rightarrow> u64 \<Rightarrow> u8 \<Rightarrow> u16 \<Rightarrow> bytes \<Rightarrow> hash32" where
  "announcement_signing_message_explicit_length chain from_pub fee nonce encoding len payload =
     (let h = hasher_new;
          h = hasher_update h DOMAIN_NOTE_SIGN;
          h = hasher_update h chain;
          h = hasher_update h from_pub;
          h = hasher_update h (to_le 16 fee);
          h = hasher_update h (to_le 8 nonce);
          h = hasher_update h [encoding];
          h = hasher_update h (to_le 2 len);
          h = hasher_update h payload
      in hasher_finalize h)"

definition announcement_signing_message_with_chain_id ::
  "bytes \<Rightarrow> bytes \<Rightarrow> u128 \<Rightarrow> u64 \<Rightarrow> u8 \<Rightarrow> bytes \<Rightarrow> codec_error + hash32" where
  "announcement_signing_message_with_chain_id chain from_pub fee nonce encoding payload =
     (let len = length payload in
      if \<not> (ANNOUNCEMENT_MIN_PAYLOAD_BYTES \<le> len \<and> len \<le> ANNOUNCEMENT_MAX_PAYLOAD_BYTES)
      then Inl (AnnouncementLength len)
      else Inr (announcement_signing_message_explicit_length chain from_pub fee nonce encoding
        (of_nat len) payload))"

definition announcement_signing_message ::
  "network \<Rightarrow> bytes \<Rightarrow> u128 \<Rightarrow> u64 \<Rightarrow> u8 \<Rightarrow> bytes \<Rightarrow> codec_error + hash32" where
  "announcement_signing_message network from_pub fee nonce encoding payload =
     announcement_signing_message_with_chain_id (chain_id network) from_pub fee nonce encoding payload"

definition announcement_message_of :: "network \<Rightarrow> announcement_tx \<Rightarrow> codec_error + hash32" where
  "announcement_message_of network tx =
     announcement_signing_message network (an_from_pub tx) (an_fee tx) (an_nonce tx)
       (an_encoding tx) (an_payload tx)"

definition verify_signature :: "'vk ed25519 \<Rightarrow> bytes \<Rightarrow> bytes \<Rightarrow> bytes \<Rightarrow> sig_error + unit" where
  "verify_signature ed pubkey message sig =
     bindE (ok_or (ed_from_bytes ed pubkey) InvalidPubkey) (\<lambda>vk.
       if ed_verify_strict ed vk message sig then Inr () else Inl InvalidSignature)"

definition verify_announcement_signature ::
  "'vk ed25519 \<Rightarrow> network \<Rightarrow> announcement_tx \<Rightarrow> sig_error + unit" where
  "verify_announcement_signature ed network tx =
     bindE (mapE (\<lambda>_. InvalidSignature) (announcement_message_of network tx)) (\<lambda>msg.
       verify_signature ed (an_from_pub tx) msg (an_sig tx))"

definition verify_transfer_signature :: "'vk ed25519 \<Rightarrow> network \<Rightarrow> transfer_tx \<Rightarrow> sig_error + unit" where
  "verify_transfer_signature ed network tx =
     verify_signature ed (tr_from_pub tx) (transfer_signing_message network tx) (tr_sig tx)"

definition address_payload :: "bytes \<Rightarrow> bytes" where
  "address_payload pubkey = take ADDRESS_PAYLOAD_BYTES (blake3_hash pubkey)"

definition header_hash_of :: "header \<Rightarrow> hash32" where
  "header_hash_of h = header_hash (header_encode h)"

definition transfer_txid :: "transfer_tx \<Rightarrow> hash32" where
  "transfer_txid tx = txid (transfer_encode_unsigned tx)"

definition announcement_txid :: "announcement_tx \<Rightarrow> codec_error + hash32" where
  "announcement_txid tx = bindE (announcement_encode_unsigned tx) (\<lambda>b. Inr (txid b))"

definition coinbase_txid :: "coinbase_tx \<Rightarrow> codec_error + hash32" where
  "coinbase_txid tx = bindE (coinbase_encode tx) (\<lambda>b. Inr (txid b))"

section \<open>Digest length\<close>

lemma length_blake_g [simp]: "length (blake_g st a b c d x y) = length st"
  by (simp add: blake_g_def Let_def)

lemma length_blake_round [simp]: "length (blake_round st m) = length st"
  by (simp add: blake_round_def Let_def)

lemma fold_preserves: "(\<And>i s. m (f i s) = m s) \<Longrightarrow> m (fold f is s) = m s"
  by (induction "is" arbitrary: s) simp_all

lemma length_compress [simp]: "length (compress cv m ctr bl fl) = min 8 (length cv) + 8"
proof -
  let ?st = "blake_round (take 8 cv @ take 4 IV @ [ucast ctr, ucast (drop_bit 32 ctr), bl, fl]) m"
  have "length (fst (fold (\<lambda>_ (st, block). let block = permute block in (blake_round st block, block))
      [0..<6] (?st, m))) = length (fst (?st, m))"
    by (rule fold_preserves [where m = "\<lambda>x. length (fst x)"]) (simp add: split_beta Let_def)
  moreover have "length (fold (\<lambda>i st. let st = st[i := st ! i XOR st ! (i + 8)]
      in st[i + 8 := st ! (i + 8) XOR cv ! i]) [0..<8] st) = length st" for st :: "u32 list"
    by (rule fold_preserves) (simp add: Let_def)
  ultimately show ?thesis by (simp add: compress_def split_beta IV_def)
qed

lemma length_root_hash: "length (out_input_cv o') = 8 \<Longrightarrow> length (root_hash o') = 32"
proof -
  have "length (concat (map (to_le 4) ws)) = 4 * length ws" for ws :: "u32 list"
    by (induction ws) simp_all
  then show "length (out_input_cv o') = 8 \<Longrightarrow> length (root_hash o') = 32"
    by (simp add: root_hash_def Let_def)
qed

lemma cv_len_push:
  "length (cs_chaining_value cs) = 8 \<Longrightarrow> length (cs_chaining_value (chunk_push cs b)) = 8"
  by (simp add: chunk_push_def chunk_absorb_def chunk_flush_def first_8_words_def)

lemma cv_len_new: "length (cs_chaining_value (chunk_new n)) = 8"
  by (simp add: chunk_new_def IV_def)

lemma cv_len_hasher:
  "length (cs_chaining_value (hs_chunk_state h)) = 8 \<Longrightarrow>
     length (cs_chaining_value (hs_chunk_state (foldl hasher_push h bs))) = 8"
  by (induction bs arbitrary: h) (simp_all add: hasher_push_def Let_def cv_len_push cv_len_new)

lemma length_hasher_finalize:
  "length (cs_chaining_value (hs_chunk_state h)) = 8 \<Longrightarrow> length (hasher_finalize h) = 32"
  unfolding hasher_finalize_def
  by (cases "hs_cv_stack h") (auto intro!: length_root_hash simp: chunk_output_def parent_output_def IV_def)

lemma length_blake3_hash [simp]: "length (blake3_hash bs) = 32"
  unfolding blake3_hash_def hasher_update_foldl [OF hasher_inv_new]
  by (intro length_hasher_finalize cv_len_hasher) (simp add: hasher_new_def cv_len_new)

section \<open>Preimages\<close>

definition transfer_preimage :: "bytes \<Rightarrow> bytes \<Rightarrow> bytes \<Rightarrow> u128 \<Rightarrow> u128 \<Rightarrow> u64 \<Rightarrow> bytes" where
  "transfer_preimage chain from_pub dest amount fee nonce =
     DOMAIN_TX_SIGN @ chain @ from_pub @ dest @ to_le 16 amount @ to_le 16 fee @ to_le 8 nonce"

definition announcement_preimage :: "bytes \<Rightarrow> bytes \<Rightarrow> u128 \<Rightarrow> u64 \<Rightarrow> u8 \<Rightarrow> u16 \<Rightarrow> bytes \<Rightarrow> bytes" where
  "announcement_preimage chain from_pub fee nonce encoding len payload =
     DOMAIN_NOTE_SIGN @ chain @ from_pub @ to_le 16 fee @ to_le 8 nonce @ [encoding] @ to_le 2 len @ payload"

definition leaf_preimage :: "bytes \<Rightarrow> bytes" where
  "leaf_preimage bs = DOMAIN_MERKLE_LEAF @ bs"

definition node_preimage :: "hash32 \<Rightarrow> hash32 \<Rightarrow> bool \<Rightarrow> bytes" where
  "node_preimage l r d = DOMAIN_MERKLE_NODE @ [if d then MERKLE_FLAG_DUP else MERKLE_FLAG_PAIR] @ l @ r"

definition txid_preimage :: "bytes \<Rightarrow> bytes" where
  "txid_preimage bs = DOMAIN_TXID @ bs"

lemma update_chain_hash:
  "hasher_finalize (hasher_update hasher_new bs) = blake3_hash bs"
  by (simp add: blake3_hash_def)

lemmas hash_parts = Let_def hasher_update_append hasher_inv_new hasher_inv_update update_chain_hash append_assoc

lemma txid_blake3: "txid bs = blake3_hash (txid_preimage bs)"
  by (simp only: txid_def txid_preimage_def hash_parts)

lemma merkle_leaf_blake3: "merkle_leaf bs = blake3_hash (leaf_preimage bs)"
  by (simp only: merkle_leaf_def leaf_preimage_def hash_parts)

lemma merkle_node_blake3: "merkle_node l r d = blake3_hash (node_preimage l r d)"
  by (simp only: merkle_node_def node_preimage_def hash_parts)

lemma signing_message_blake3:
  "signing_message_with_chain_id c f t a e n = blake3_hash (transfer_preimage c f t a e n)"
  by (simp only: signing_message_with_chain_id_def transfer_preimage_def hash_parts)

lemma announcement_message_blake3:
  "announcement_signing_message_explicit_length c f e n k l p =
     blake3_hash (announcement_preimage c f e n k l p)"
  by (simp only: announcement_signing_message_explicit_length_def announcement_preimage_def hash_parts)

section \<open>Binding\<close>

text \<open>
  A list of hashed strings contains a collision when two different ones have the same digest.
\<close>

definition blake3_collision :: "bytes list \<Rightarrow> bool" where
  "blake3_collision qs \<longleftrightarrow> (\<exists>x \<in> set qs. \<exists>y \<in> set qs. x \<noteq> y \<and> blake3_hash x = blake3_hash y)"

lemma blake3_eq_or_collision:
  "blake3_hash x = blake3_hash y \<Longrightarrow> x \<in> set qs \<Longrightarrow> y \<in> set qs \<Longrightarrow> x = y \<or> blake3_collision qs"
  by (auto simp: blake3_collision_def)

lemma blake3_collision_mono: "blake3_collision qs \<Longrightarrow> set qs \<subseteq> set rs \<Longrightarrow> blake3_collision rs"
  by (auto simp: blake3_collision_def)

lemma append_eq_same_length: "length xs = length ys \<Longrightarrow> xs @ us = ys @ vs \<longleftrightarrow> xs = ys \<and> us = vs"
  by (rule append_eq_append_conv) simp

lemma node_preimage_inj:
  "length l = 32 \<Longrightarrow> length l' = 32 \<Longrightarrow>
     node_preimage l r d = node_preimage l' r' d' \<longleftrightarrow> l = l' \<and> r = r' \<and> d = d'"
  by (auto simp: node_preimage_def append_eq_same_length split: if_splits)

lemma leaf_preimage_inj: "leaf_preimage a = leaf_preimage b \<longleftrightarrow> a = b"
  by (simp add: leaf_preimage_def)

lemma leaf_not_node: "leaf_preimage a \<noteq> node_preimage l r d"
  by (simp add: leaf_preimage_def node_preimage_def ascii_def)

lemma transfer_preimage_inj:
  assumes "length c = 4" "length c' = 4" "length f = 32" "length f' = 32" "length t = 20" "length t' = 20"
  shows "transfer_preimage c f t a e n = transfer_preimage c' f' t' a' e' n' \<longleftrightarrow>
    c = c' \<and> f = f' \<and> t = t' \<and> a = a' \<and> e = e' \<and> n = n'"
  using assms by (auto simp: transfer_preimage_def append_eq_same_length to_le_inj)

lemma announcement_preimage_inj:
  assumes "length c = 4" "length c' = 4" "length f = 32" "length f' = 32"
  shows "announcement_preimage c f e n k l p = announcement_preimage c' f' e' n' k' l' p' \<longleftrightarrow>
    c = c' \<and> f = f' \<and> e = e' \<and> n = n' \<and> k = k' \<and> l = l' \<and> p = p'"
  using assms by (auto simp: announcement_preimage_def append_eq_same_length to_le_inj)

text \<open>
  Each kind of digest hashes its own preimage, and the preimages of Merkle leaves, Merkle
  nodes, transaction identifiers, transfer signing messages and announcement signing messages
  are pairwise different whatever their arguments: the domain tags keep the uses apart.
\<close>
theorem digest_domains_separated:
  "merkle_leaf b = blake3_hash (leaf_preimage b) \<and>
   merkle_node l r d = blake3_hash (node_preimage l r d) \<and>
   txid u = blake3_hash (txid_preimage u) \<and>
   signing_message_with_chain_id c f t a e n = blake3_hash (transfer_preimage c f t a e n) \<and>
   announcement_signing_message_explicit_length c' f' e' n' k q p =
     blake3_hash (announcement_preimage c' f' e' n' k q p) \<and>
   distinct [leaf_preimage b, node_preimage l r d, txid_preimage u, transfer_preimage c f t a e n,
     announcement_preimage c' f' e' n' k q p]"
proof -
  have "distinct [leaf_preimage b, node_preimage l r d, txid_preimage u, transfer_preimage c f t a e n,
     announcement_preimage c' f' e' n' k q p]"
    by (simp add: leaf_preimage_def node_preimage_def txid_preimage_def transfer_preimage_def
      announcement_preimage_def ascii_def)
  then show ?thesis
    by (simp only: txid_blake3 merkle_leaf_blake3 merkle_node_blake3 signing_message_blake3
      announcement_message_blake3)
qed

text \<open>
  C19.  A transfer signature binds the chain and every field: two signing messages that agree
  come from the same chain identifier, sender, recipient, amount, fee and nonce, or the two
  hashed strings are a BLAKE3 collision.
\<close>
theorem signing_message_binding:
  assumes "length c = 4" "length c' = 4" "length f = PUBKEY_BYTES" "length f' = PUBKEY_BYTES"
    and "length t = ADDRESS_PAYLOAD_BYTES" "length t' = ADDRESS_PAYLOAD_BYTES"
    and "signing_message_with_chain_id c f t a e n = signing_message_with_chain_id c' f' t' a' e' n'"
  shows "(c = c' \<and> f = f' \<and> t = t' \<and> a = a' \<and> e = e' \<and> n = n') \<or>
    blake3_collision [transfer_preimage c f t a e n, transfer_preimage c' f' t' a' e' n']"
  using blake3_eq_or_collision [of "transfer_preimage c f t a e n" "transfer_preimage c' f' t' a' e' n'"
      "[transfer_preimage c f t a e n, transfer_preimage c' f' t' a' e' n']"]
    assms transfer_preimage_inj [of c c' f f' t t'] by (simp add: signing_message_blake3)

theorem signing_message_binding_witness:
  "signing_message_with_chain_id CHAIN_ID (replicate 32 1) (replicate 20 2) 3 4 5 =
     signing_message_with_chain_id CHAIN_ID (replicate 32 1) (replicate 20 2) 3 4 5 \<and>
   ((CHAIN_ID = CHAIN_ID \<and> replicate 32 1 = replicate 32 (1 :: u8) \<and>
     replicate 20 2 = replicate 20 (2 :: u8) \<and> (3 :: u128) = 3 \<and> (4 :: u128) = 4 \<and> (5 :: u64) = 5) \<or>
    blake3_collision [transfer_preimage CHAIN_ID (replicate 32 1) (replicate 20 2) 3 4 5,
      transfer_preimage CHAIN_ID (replicate 32 1) (replicate 20 2) 3 4 5])"
  using signing_message_binding [of CHAIN_ID CHAIN_ID "replicate 32 1" "replicate 32 1"
      "replicate 20 2" "replicate 20 2" 3 4 5 3 4 5] by simp

end
