(* ===== verification/Merkle.thy ===== *)
theory Merkle
  imports Crypto
begin

text \<open>
  Merkle roots and inclusion proofs, \<open>lib/consensus/src/merkle.rs\<close>, over the leaf and node
  digests of \<open>Crypto\<close>.  The security statements are exact: they name the list of byte strings
  the computations hash and show that a false acceptance exhibits two different members of that
  list with the same digest.
\<close>

section \<open>Operations\<close>

definition leaf_hash :: "bytes \<Rightarrow> hash32" where
  "leaf_hash bs = merkle_leaf bs"

definition node_hash :: "hash32 \<Rightarrow> hash32 \<Rightarrow> bool \<Rightarrow> hash32" where
  "node_hash left right duplicated = merkle_node left right duplicated"

text \<open>One level of the tree: the inner loop of \<open>merkle_root\<close> and \<open>merkle_proof\<close>.\<close>

fun merkle_level :: "hash32 list \<Rightarrow> hash32 list" where
  "merkle_level (a # b # level) = node_hash a b False # merkle_level level"
| "merkle_level [a] = [node_hash a a True]"
| "merkle_level [] = []"

lemma length_merkle_level [simp]: "length (merkle_level xs) = (length xs + 1) div 2"
  by (induction xs rule: merkle_level.induct) auto

function merkle_reduce :: "hash32 list \<Rightarrow> hash32" where
  "merkle_reduce level = (if 1 < length level then merkle_reduce (merkle_level level) else level ! 0)"
  by pat_completeness auto
termination
  by (relation "measure length") auto

declare merkle_reduce.simps [simp del]

definition merkle_root :: "hash32 list \<Rightarrow> hash32" where
  "merkle_root leaves = (if leaves = [] then TX_ROOT_EMPTY else merkle_reduce leaves)"

definition tx_root :: "bytes list \<Rightarrow> hash32" where
  "tx_root txs = merkle_root (map leaf_hash txs)"

record merkle_proof_t =
  mp_index :: u32
  mp_tx_count :: u32
  mp_siblings :: "hash32 list"

function merkle_siblings :: "hash32 list \<Rightarrow> nat \<Rightarrow> hash32 list" where
  "merkle_siblings level idx =
     (if 1 < length level
      then
        let is_odd_last = (idx = length level - 1 \<and> length level mod 2 = 1);
            sib = (if idx mod 2 = 0 then idx + 1 else idx - 1);
            here = (if is_odd_last then [] else [level ! sib])
        in here @ merkle_siblings (merkle_level level) (idx div 2)
      else [])"
  by pat_completeness auto
termination
  by (relation "measure (\<lambda>(level, idx). length level)") auto

declare merkle_siblings.simps [simp del]

definition merkle_proof :: "hash32 list \<Rightarrow> nat \<Rightarrow> merkle_proof_t option" where
  "merkle_proof leaves index =
     (if leaves = [] \<or> length leaves \<le> index \<or> 2 ^ 32 - 1 < length leaves then None
      else Some \<lparr> mp_index = of_nat index, mp_tx_count = of_nat (length leaves),
        mp_siblings = merkle_siblings leaves index \<rparr>)"

text \<open>
  The loop of \<open>verify_merkle_proof\<close>; \<open>None\<close> is the early return when the siblings run out.
\<close>

function verify_path :: "hash32 list \<Rightarrow> hash32 \<Rightarrow> nat \<Rightarrow> nat \<Rightarrow> nat \<Rightarrow> (hash32 \<times> nat) option" where
  "verify_path siblings h idx width used =
     (if 1 < width
      then
        if idx = width - 1 \<and> width mod 2 = 1
        then verify_path siblings (node_hash h h True) (idx div 2) ((width + 1) div 2) used
        else if used < length siblings
        then
          let sib = siblings ! used in
          verify_path siblings
            (if idx mod 2 = 0 then node_hash h sib False else node_hash sib h False)
            (idx div 2) ((width + 1) div 2) (used + 1)
        else None
      else Some (h, used))"
  by pat_completeness auto
termination
  by (relation "measure (\<lambda>(s, h, i, width, u). width)") auto

declare verify_path.simps [simp del]

definition verify_merkle_proof :: "hash32 \<Rightarrow> merkle_proof_t \<Rightarrow> hash32 \<Rightarrow> bool" where
  "verify_merkle_proof leaf proof root =
     (if mp_tx_count proof = 0 \<or> mp_tx_count proof \<le> mp_index proof then False
      else if MERKLE_MAX_DEPTH < length (mp_siblings proof) then False
      else case verify_path (mp_siblings proof) leaf (unat (mp_index proof)) (unat (mp_tx_count proof)) 0 of
        None \<Rightarrow> False
      | Some (h, used) \<Rightarrow> used = length (mp_siblings proof) \<and> h = root)"

definition body_leaves :: "block_body \<Rightarrow> hash32 list" where
  "body_leaves b = map leaf_hash (body_txs b)"

definition body_tx_root :: "block_body \<Rightarrow> hash32" where
  "body_tx_root b = merkle_root (body_leaves b)"

section \<open>Completeness\<close>

lemma length_node_hash [simp]: "length (node_hash l r d) = 32"
  by (simp add: node_hash_def merkle_node_blake3)

lemma length_leaf_hash [simp]: "length (leaf_hash b) = 32"
  by (simp add: leaf_hash_def merkle_leaf_blake3)

lemma node_hash_blake3: "node_hash l r d = blake3_hash (node_preimage l r d)"
  by (simp add: node_hash_def merkle_node_blake3)

lemma leaf_hash_blake3: "leaf_hash b = blake3_hash (leaf_preimage b)"
  by (simp add: leaf_hash_def merkle_leaf_blake3)

lemma nth_merkle_level:
  "i < length xs \<Longrightarrow> merkle_level xs ! (i div 2) =
     (if i = length xs - 1 \<and> length xs mod 2 = 1 then node_hash (xs ! i) (xs ! i) True
      else if i mod 2 = 0 then node_hash (xs ! i) (xs ! (i + 1)) False
      else node_hash (xs ! (i - 1)) (xs ! i) False)"
proof (induction xs arbitrary: i rule: merkle_level.induct)
  case (1 a b level)
  show ?case
  proof (cases "i < 2")
    case True
    then have "i = 0 \<or> i = 1" by auto
    then show ?thesis by auto
  next
    case False
    then obtain j where j: "i = j + 2" by (metis add.commute le_add_diff_inverse not_less)
    then show ?thesis using "1.IH" [of j] "1.prems" by (auto simp: nth_Cons split: nat.splits)
  qed
qed auto

lemma verify_path_complete:
  "idx < length level \<Longrightarrow>
     verify_path (pre @ merkle_siblings level idx) (level ! idx) idx (length level) (length pre) =
       Some (merkle_reduce level, length (pre @ merkle_siblings level idx))"
proof (induction "length level" arbitrary: level idx pre rule: less_induct)
  case less
  show ?case
  proof (cases "1 < length level")
    case False
    then have "length level = 1" using less.prems by auto
    then show ?thesis
      using less.prems by (simp add: verify_path.simps merkle_siblings.simps merkle_reduce.simps)
  next
    case True
    have IH: "verify_path (p @ merkle_siblings (merkle_level level) (idx div 2)) (merkle_level level ! (idx div 2))
        (idx div 2) ((length level + 1) div 2) (length p) =
        Some (merkle_reduce level, length (p @ merkle_siblings (merkle_level level) (idx div 2)))" for p
      using less.hyps [of "merkle_level level" "idx div 2" p] less.prems True
      by (simp add: merkle_reduce.simps [of level])
    show ?thesis
    proof (cases "idx = length level - 1 \<and> length level mod 2 = 1")
      case odd: True
      then have "merkle_siblings level idx = merkle_siblings (merkle_level level) (idx div 2)"
        using True by (simp add: merkle_siblings.simps [of level])
      then show ?thesis
        using odd True IH [of pre] less.prems nth_merkle_level [of idx level]
        by (subst verify_path.simps) auto
    next
      case even: False
      let ?sib = "if idx mod 2 = 0 then idx + 1 else idx - 1"
      have "merkle_siblings level idx =
          [level ! ?sib] @ merkle_siblings (merkle_level level) (idx div 2)"
        using True even by (subst merkle_siblings.simps) (simp only: Let_def if_True if_False)
      then show ?thesis
        using even True IH [of "pre @ [level ! ?sib]"] less.prems nth_merkle_level [of idx level]
        by (subst verify_path.simps) (auto simp: Let_def)
    qed
  qed
qed

lemma length_merkle_siblings: "length level \<le> 2 ^ k \<Longrightarrow> length (merkle_siblings level idx) \<le> k"
proof (induction k arbitrary: level idx)
  case (Suc k)
  show ?case
  proof (cases "1 < length level")
    case True
    have "length (merkle_siblings (merkle_level level) (idx div 2)) \<le> k"
      using Suc.prems by (intro Suc.IH) simp
    then show ?thesis using True by (auto simp: merkle_siblings.simps [of level] Let_def)
  qed (simp add: merkle_siblings.simps)
qed (simp add: merkle_siblings.simps)

lemma merkle_proof_verifies:
  assumes "merkle_proof leaves i = Some p" "length leaves \<le> MAX_TXS_PER_BLOCK"
  shows "verify_merkle_proof (leaves ! i) p (merkle_root leaves)"
proof -
  from assms have p: "p = \<lparr> mp_index = of_nat i, mp_tx_count = of_nat (length leaves),
      mp_siblings = merkle_siblings leaves i \<rparr>" and i: "i < length leaves" "leaves \<noteq> []"
    by (auto simp: merkle_proof_def split: if_splits)
  have c: "unat (mp_tx_count p) = length leaves" "unat (mp_index p) = i"
    using assms(2) i by (simp_all add: p unat_of_nat)
  have "length (merkle_siblings leaves i) \<le> 12"
    using assms(2) by (intro length_merkle_siblings) simp
  moreover have "mp_tx_count p \<noteq> 0" using c(1) i by (metis length_0_conv unat_0)
  moreover have "\<not> mp_tx_count p \<le> mp_index p" using c i by (simp add: word_le_nat_alt)
  ultimately show ?thesis
    using verify_path_complete [OF i(1), of "[]"] i c
    by (simp add: verify_merkle_proof_def merkle_root_def) (simp add: p)
qed

section \<open>What the computations hash\<close>

fun level_queries :: "hash32 list \<Rightarrow> bytes list" where
  "level_queries (a # b # level) = node_preimage a b False # level_queries level"
| "level_queries [a] = [node_preimage a a True]"
| "level_queries [] = []"

function reduce_queries :: "hash32 list \<Rightarrow> bytes list" where
  "reduce_queries level =
     (if 1 < length level then level_queries level @ reduce_queries (merkle_level level) else [])"
  by pat_completeness auto
termination
  by (relation "measure length") auto

declare reduce_queries.simps [simp del]

definition tx_root_queries :: "bytes list \<Rightarrow> bytes list" where
  "tx_root_queries txs = map leaf_preimage txs @ reduce_queries (map leaf_hash txs)"

function path_queries :: "hash32 list \<Rightarrow> hash32 \<Rightarrow> nat \<Rightarrow> nat \<Rightarrow> nat \<Rightarrow> bytes list" where
  "path_queries siblings h idx width used =
     (if 1 < width
      then
        if idx = width - 1 \<and> width mod 2 = 1
        then node_preimage h h True #
          path_queries siblings (node_hash h h True) (idx div 2) ((width + 1) div 2) used
        else if used < length siblings
        then
          let sib = siblings ! used;
              l = (if idx mod 2 = 0 then h else sib);
              r = (if idx mod 2 = 0 then sib else h)
          in node_preimage l r False #
             path_queries siblings (node_hash l r False) (idx div 2) ((width + 1) div 2) (used + 1)
        else []
      else [])"
  by pat_completeness auto
termination
  by (relation "measure (\<lambda>(s, h, i, width, u). width)") auto

declare path_queries.simps [simp del]

definition verify_queries :: "bytes \<Rightarrow> merkle_proof_t \<Rightarrow> bytes list" where
  "verify_queries tx proof = leaf_preimage tx #
     path_queries (mp_siblings proof) (leaf_hash tx) (unat (mp_index proof)) (unat (mp_tx_count proof)) 0"

lemma nth_level_queries:
  "i < length xs \<Longrightarrow>
     (if i = length xs - 1 \<and> length xs mod 2 = 1 then node_preimage (xs ! i) (xs ! i) True
      else if i mod 2 = 0 then node_preimage (xs ! i) (xs ! (i + 1)) False
      else node_preimage (xs ! (i - 1)) (xs ! i) False) \<in> set (level_queries xs)"
proof (induction xs arbitrary: i rule: level_queries.induct)
  case (1 a b level)
  show ?case
  proof (cases "i < 2")
    case True
    then have "i = 0 \<or> i = 1" by auto
    then show ?thesis by auto
  next
    case False
    then obtain j where j: "i = j + 2" by (metis add.commute le_add_diff_inverse not_less)
    then show ?thesis using "1.IH" [of j] "1.prems" by (auto simp: nth_Cons split: nat.splits)
  qed
qed auto

lemma merkle_level_32: "list_all (\<lambda>x. length x = 32) (merkle_level xs)"
  by (induction xs rule: merkle_level.induct) auto

section \<open>Soundness at the claimed position\<close>

lemma verify_path_sound:
  assumes "verify_path sibs h idx (length level) used = Some (merkle_reduce level, u)"
    and "idx < length level" "length h = 32" "list_all (\<lambda>x. length x = 32) level"
    and "list_all (\<lambda>x. length x = 32) sibs"
    and "set (path_queries sibs h idx (length level) used) \<subseteq> set qs" "set (reduce_queries level) \<subseteq> set qs"
  shows "h = level ! idx \<or> blake3_collision qs"
  using assms
proof (induction "length level" arbitrary: level h idx used rule: less_induct)
  case less
  show ?case
  proof (cases "1 < length level")
    case False
    then have "length level = 1" using less.prems(2) by auto
    then show ?thesis
      using less.prems(1,2) by (simp add: verify_path.simps merkle_reduce.simps)
  next
    case True
    define odd_last where "odd_last \<longleftrightarrow> idx = length level - 1 \<and> length level mod 2 = 1"
    define sib where "sib = sibs ! used"
    define l where "l = (if odd_last \<or> idx mod 2 = 0 then h else sib)"
    define r where "r = (if odd_last then h else if idx mod 2 = 0 then sib else h)"
    define used' where "used' = (if odd_last then used else used + 1)"
    define tl where "tl = (if odd_last \<or> idx mod 2 = 0 then level ! idx else level ! (idx - 1))"
    define tr where "tr = (if odd_last then level ! idx else if idx mod 2 = 0 then level ! (idx + 1) else level ! idx)"
    let ?next = "merkle_level level"
    have sib32: "\<not> odd_last \<Longrightarrow> used < length sibs \<and> length sib = 32"
      using less.prems(1,5) True
      by (subst (asm) verify_path.simps) (auto simp: odd_last_def sib_def list_all_length split: if_splits)
    have step: "verify_path sibs (node_hash l r odd_last) (idx div 2) (length ?next) used' = Some (merkle_reduce ?next, u)"
      using less.prems(1) True sib32
      by (subst (asm) verify_path.simps)
         (auto simp: odd_last_def l_def r_def used'_def sib_def Let_def merkle_reduce.simps [of level] split: if_splits)
    have pq: "path_queries sibs h idx (length level) used =
        node_preimage l r odd_last # path_queries sibs (node_hash l r odd_last) (idx div 2) (length ?next) used'"
      using True sib32
      by (subst path_queries.simps) (auto simp: odd_last_def l_def r_def used'_def sib_def Let_def)
    have "node_hash l r odd_last = ?next ! (idx div 2) \<or> blake3_collision qs"
      using less.prems True step pq
      by (intro less.hyps) (auto simp: reduce_queries.simps [of level] merkle_level_32)
    moreover have "?next ! (idx div 2) = node_hash tl tr odd_last"
      using nth_merkle_level [OF less.prems(2)] by (auto simp: odd_last_def tl_def tr_def)
    moreover have "node_preimage tl tr odd_last \<in> set qs"
      using nth_level_queries [OF less.prems(2)] less.prems(7) True
      by (auto simp: odd_last_def tl_def tr_def reduce_queries.simps [of level] split: if_splits)
    moreover have "node_preimage l r odd_last \<in> set qs" using less.prems(6) pq by auto
    ultimately have "node_preimage l r odd_last = node_preimage tl tr odd_last \<or> blake3_collision qs"
      using blake3_eq_or_collision by (auto simp: node_hash_blake3)
    moreover have "length l = 32" "length tl = 32"
      using sib32 less.prems(2-4) by (auto simp: l_def tl_def list_all_length)
    ultimately show ?thesis
      by (auto simp: node_preimage_inj l_def r_def tl_def tr_def split: if_splits)
  qed
qed

section \<open>Symbolic trees\<close>

text \<open>
  A digest computed from leaves and foreign digests, as the tree of its preimages.  \<open>MHash\<close>
  stands for a sibling taken from a proof.
\<close>

datatype mtree = MLeaf bytes | MHash hash32 | MNode mtree mtree bool

fun mt_hash :: "mtree \<Rightarrow> hash32" where
  "mt_hash (MLeaf b) = leaf_hash b"
| "mt_hash (MHash h) = h"
| "mt_hash (MNode l r d) = node_hash (mt_hash l) (mt_hash r) d"

fun mt_queries :: "mtree \<Rightarrow> bytes list" where
  "mt_queries (MLeaf b) = [leaf_preimage b]"
| "mt_queries (MHash h) = []"
| "mt_queries (MNode l r d) = node_preimage (mt_hash l) (mt_hash r) d # mt_queries l @ mt_queries r"

fun mt_txs :: "mtree \<Rightarrow> bytes list" where
  "mt_txs (MLeaf b) = [b]"
| "mt_txs (MHash h) = []"
| "mt_txs (MNode l r d) = mt_txs l @ (if d then [] else mt_txs r)"

fun mt_wf :: "mtree \<Rightarrow> bool" where
  "mt_wf (MLeaf b) \<longleftrightarrow> True"
| "mt_wf (MHash h) \<longleftrightarrow> length h = 32"
| "mt_wf (MNode l r d) \<longleftrightarrow> mt_wf l \<and> mt_wf r"

fun mt_known :: "mtree \<Rightarrow> bool" where
  "mt_known (MLeaf b) \<longleftrightarrow> True"
| "mt_known (MHash h) \<longleftrightarrow> False"
| "mt_known (MNode l r d) \<longleftrightarrow> mt_known l \<and> mt_known r"

lemma length_mt_hash: "mt_wf t \<Longrightarrow> length (mt_hash t) = 32"
  by (cases t) simp_all

lemma mt_known_wf: "mt_known t \<Longrightarrow> mt_wf t"
  by (induction t) simp_all

lemma node_hash_eq:
  assumes "node_hash a b d = node_hash a' b' d'" "length a = 32" "length a' = 32"
    and "node_preimage a b d \<in> set qs" "node_preimage a' b' d' \<in> set qs"
  shows "(a = a' \<and> b = b' \<and> d = d') \<or> blake3_collision qs"
  using blake3_eq_or_collision [of _ _ qs] assms by (metis node_hash_blake3 node_preimage_inj)

lemma leaf_hash_eq:
  assumes "leaf_hash a = leaf_hash b" "leaf_preimage a \<in> set qs" "leaf_preimage b \<in> set qs"
  shows "a = b \<or> blake3_collision qs"
  using blake3_eq_or_collision [of _ _ qs] assms by (metis leaf_hash_blake3 leaf_preimage_inj)

lemma leaf_hash_node_hash:
  assumes "leaf_hash a = node_hash l r d" "leaf_preimage a \<in> set qs" "node_preimage l r d \<in> set qs"
  shows "blake3_collision qs"
  using blake3_eq_or_collision [of _ _ qs] assms by (metis leaf_hash_blake3 node_hash_blake3 leaf_not_node)

lemma mt_txs_subset:
  assumes "mt_hash p = mt_hash t" "mt_wf p" "mt_known t"
    and "set (mt_queries p) \<subseteq> set qs" "set (mt_queries t) \<subseteq> set qs"
  shows "set (mt_txs p) \<subseteq> set (mt_txs t) \<or> blake3_collision qs"
  using assms
proof (induction p arbitrary: t)
  case (MLeaf b)
  then show ?case
    using leaf_hash_eq [of b _ qs] leaf_hash_node_hash [of b _ _ _ qs] by (cases t) auto
next
  case (MNode l r d)
  show ?case
  proof (cases t)
    case (MLeaf b)
    then have "blake3_collision qs"
      using MNode.prems by (intro leaf_hash_node_hash [of b "mt_hash l" "mt_hash r" d]) auto
    then show ?thesis ..
  next
    case (MNode l' r' d')
    then have "mt_hash l = mt_hash l' \<and> mt_hash r = mt_hash r' \<and> d = d' \<or> blake3_collision qs"
      using MNode.prems by (intro node_hash_eq) (auto simp: length_mt_hash mt_known_wf)
    then show ?thesis
      using MNode.IH(1) [of l'] MNode.IH(2) [of r'] MNode.prems \<open>t = MNode l' r' d'\<close> by auto
  qed (use MNode.prems in simp)
qed simp

lemma mt_hash_inj:
  assumes "mt_hash p = mt_hash t" "mt_known p" "mt_known t"
    and "set (mt_queries p) \<subseteq> set qs" "set (mt_queries t) \<subseteq> set qs"
  shows "p = t \<or> blake3_collision qs"
  using assms
proof (induction p arbitrary: t)
  case (MLeaf b)
  then show ?case
    using leaf_hash_eq [of b _ qs] leaf_hash_node_hash [of b _ _ _ qs] by (cases t) auto
next
  case (MNode l r d)
  show ?case
  proof (cases t)
    case (MLeaf b)
    then have "blake3_collision qs"
      using MNode.prems by (intro leaf_hash_node_hash [of b "mt_hash l" "mt_hash r" d]) auto
    then show ?thesis ..
  next
    case (MNode l' r' d')
    then have "mt_hash l = mt_hash l' \<and> mt_hash r = mt_hash r' \<and> d = d' \<or> blake3_collision qs"
      using MNode.prems by (intro node_hash_eq) (auto simp: length_mt_hash mt_known_wf)
    then show ?thesis
      using MNode.IH(1) [of l'] MNode.IH(2) [of r'] MNode.prems \<open>t = MNode l' r' d'\<close> by auto
  qed (use MNode.prems in simp)
qed simp

fun mt_level :: "mtree list \<Rightarrow> mtree list" where
  "mt_level (a # b # ts) = MNode a b False # mt_level ts"
| "mt_level [a] = [MNode a a True]"
| "mt_level [] = []"

lemma mt_level_hash: "map mt_hash (mt_level ts) = merkle_level (map mt_hash ts)"
  by (induction ts rule: mt_level.induct) simp_all

lemma mt_level_txs: "concat (map mt_txs (mt_level ts)) = concat (map mt_txs ts)"
  by (induction ts rule: mt_level.induct) simp_all

lemma mt_level_known: "list_all mt_known ts \<Longrightarrow> list_all mt_known (mt_level ts)"
  by (induction ts rule: mt_level.induct) simp_all

lemma mt_level_queries:
  "set (concat (map mt_queries (mt_level ts))) =
     set (level_queries (map mt_hash ts)) \<union> set (concat (map mt_queries ts))"
  by (induction ts rule: mt_level.induct) auto

lemma length_mt_level [simp]: "length (mt_level ts) = (length ts + 1) div 2"
  by (induction ts rule: mt_level.induct) auto

lemma merkle_reduce_tree:
  "ts \<noteq> [] \<Longrightarrow> list_all mt_known ts \<Longrightarrow>
     \<exists>t. mt_hash t = merkle_reduce (map mt_hash ts) \<and> mt_known t \<and> mt_txs t = concat (map mt_txs ts) \<and>
       set (mt_queries t) \<subseteq> set (reduce_queries (map mt_hash ts)) \<union> set (concat (map mt_queries ts))"
proof (induction "length ts" arbitrary: ts rule: less_induct)
  case less
  show ?case
  proof (cases "1 < length ts")
    case True
    then have "length (mt_level ts) < length ts" by simp
    moreover from True have "mt_level ts \<noteq> []" by (cases ts rule: mt_level.cases) auto
    ultimately obtain t where t: "mt_hash t = merkle_reduce (merkle_level (map mt_hash ts))" "mt_known t"
        "mt_txs t = concat (map mt_txs ts)"
        "set (mt_queries t) \<subseteq> set (reduce_queries (merkle_level (map mt_hash ts))) \<union>
          (set (level_queries (map mt_hash ts)) \<union> set (concat (map mt_queries ts)))"
      using less.hyps [of "mt_level ts", unfolded mt_level_hash mt_level_txs mt_level_queries]
        mt_level_known [OF less.prems(2)] by blast
    then show ?thesis
      using True by (intro exI [of _ t]) (auto simp: merkle_reduce.simps [of "map mt_hash ts"] reduce_queries.simps [of "map mt_hash ts"])
  next
    case False
    then obtain x where "ts = [x]" using less.prems by (cases ts rule: mt_level.cases) auto
    then show ?thesis using less.prems by (intro exI [of _ x]) (auto simp: merkle_reduce.simps)
  qed
qed

lemma tx_root_tree:
  assumes "txs \<noteq> []"
  obtains t where "mt_hash t = tx_root txs" "mt_known t" "mt_txs t = txs"
    "set (mt_queries t) \<subseteq> set (tx_root_queries txs)"
proof -
  have m: "map mt_hash (map MLeaf txs) = map leaf_hash txs"
    "concat (map mt_txs (map MLeaf txs)) = txs" "list_all mt_known (map MLeaf txs)"
    "concat (map mt_queries (map MLeaf txs)) = map leaf_preimage txs"
    by (induction txs) simp_all
  from merkle_reduce_tree [of "map MLeaf txs"] assms m(3) obtain t where
    "mt_hash t = merkle_reduce (map leaf_hash txs)" "mt_known t" "mt_txs t = txs"
    "set (mt_queries t) \<subseteq> set (reduce_queries (map leaf_hash txs)) \<union> set (map leaf_preimage txs)"
    unfolding m(1,2,4) by blast
  then show ?thesis
    using assms by (intro that [of t]) (auto simp: tx_root_def merkle_root_def tx_root_queries_def)
qed

lemma verify_path_tree:
  assumes "verify_path sibs (mt_hash p) idx width used = Some (root, u)"
    and "mt_wf p" "list_all (\<lambda>x. length x = 32) sibs"
  shows "\<exists>t. mt_hash t = root \<and> mt_wf t \<and> set (mt_txs p) \<subseteq> set (mt_txs t) \<and>
    set (mt_queries t) \<subseteq> set (mt_queries p) \<union> set (path_queries sibs (mt_hash p) idx width used)"
  using assms(1,2)
proof (induction width arbitrary: p idx used rule: less_induct)
  case (less width)
  show ?case
  proof (cases "1 < width")
    case False
    then show ?thesis using less.prems by (auto simp: verify_path.simps intro!: exI [of _ p])
  next
    case True
    define odd_last where "odd_last \<longleftrightarrow> idx = width - 1 \<and> width mod 2 = 1"
    define s where "s = MHash (sibs ! used)"
    define q where "q = (if odd_last then MNode p p True else if idx mod 2 = 0 then MNode p s False else MNode s p False)"
    define used' where "used' = (if odd_last then used else used + 1)"
    have ok: "\<not> odd_last \<Longrightarrow> used < length sibs"
      using less.prems(1) True by (subst (asm) verify_path.simps) (auto simp: odd_last_def split: if_splits)
    have step: "verify_path sibs (mt_hash q) (idx div 2) ((width + 1) div 2) used' = Some (root, u)"
      using less.prems(1) True ok
      by (subst (asm) verify_path.simps) (auto simp: odd_last_def q_def s_def used'_def Let_def split: if_splits)
    have wf: "mt_wf q" "set (mt_txs q) = set (mt_txs p)"
      using less.prems(2) ok assms(3) by (auto simp: q_def s_def list_all_length)
    have pq: "set (path_queries sibs (mt_hash p) idx width used) \<union> set (mt_queries p) =
        set (mt_queries q) \<union> set (path_queries sibs (mt_hash q) (idx div 2) ((width + 1) div 2) used')"
      using True ok by (subst path_queries.simps) (auto simp: odd_last_def q_def s_def used'_def Let_def)
    have "(width + 1) div 2 < width" using True by simp
    then obtain t where "mt_hash t = root" "mt_wf t" "set (mt_txs q) \<subseteq> set (mt_txs t)"
      "set (mt_queries t) \<subseteq> set (mt_queries q) \<union> set (path_queries sibs (mt_hash q) (idx div 2) ((width + 1) div 2) used')"
      using less.IH [OF _ step wf(1)] by blast
    then show ?thesis using wf(2) pq by (intro exI [of _ t]) auto
  qed
qed

section \<open>Properties\<close>

text \<open>
  C17.  Every transaction of a block has an inclusion proof, and the verifier accepts it against
  the block's transaction root.
\<close>
theorem merkle_proof_complete:
  assumes "i < length txs" "length txs \<le> MAX_TXS_PER_BLOCK"
  shows "\<exists>p. merkle_proof (map leaf_hash txs) i = Some p \<and>
    verify_merkle_proof (leaf_hash (txs ! i)) p (tx_root txs)"
proof -
  have "merkle_proof (map leaf_hash txs) i \<noteq> None" using assms by (auto simp: merkle_proof_def)
  then obtain p where "merkle_proof (map leaf_hash txs) i = Some p" by blast
  moreover from merkle_proof_verifies [OF this] assms
  have "verify_merkle_proof (leaf_hash (txs ! i)) p (tx_root txs)" by (simp add: tx_root_def)
  ultimately show ?thesis by blast
qed

theorem merkle_proof_complete_witness:
  "\<exists>p. merkle_proof (map leaf_hash [[1], [2], [3]]) 2 = Some p \<and>
    verify_merkle_proof (leaf_hash ([[1], [2], [3]] ! 2)) p (tx_root [[1], [2], [3]])"
  using merkle_proof_complete [of 2 "[[1], [2], [3]]"] by simp

text \<open>
  C10.  A proof accepted for the true number of leaves shows the leaf at the claimed index: if the
  verifier accepts \<open>leaf\<close> against the root of \<open>leaves\<close>, then it is \<open>leaves ! index\<close>, or two
  different strings hashed by the two computations collide under BLAKE3.
\<close>
theorem verify_merkle_proof_sound:
  assumes "verify_merkle_proof leaf p (merkle_root leaves)"
    and "unat (mp_tx_count p) = length leaves"
    and "list_all (\<lambda>h. length h = HASH_BYTES) (leaf # leaves @ mp_siblings p)"
  shows "leaf = leaves ! unat (mp_index p) \<or>
    blake3_collision (path_queries (mp_siblings p) leaf (unat (mp_index p)) (unat (mp_tx_count p)) 0 @
      reduce_queries leaves)"
proof -
  from assms have i: "unat (mp_index p) < length leaves"
    by (auto simp: verify_merkle_proof_def word_le_nat_alt not_le split: if_splits)
  then have "leaves \<noteq> []" by auto
  with assms obtain u where
    "verify_path (mp_siblings p) leaf (unat (mp_index p)) (length leaves) 0 = Some (merkle_reduce leaves, u)"
    by (auto simp: verify_merkle_proof_def merkle_root_def split: if_splits option.splits)
  from verify_path_sound [OF this i] assms(2,3) show ?thesis by (auto simp: list_all_iff)
qed

theorem verify_merkle_proof_sound_witness:
  "\<exists>p. let leaves = map leaf_hash [[1], [2], [3]] in
     verify_merkle_proof (leaves ! 1) p (merkle_root leaves) \<and> unat (mp_tx_count p) = 3 \<and>
     (leaves ! 1 = leaves ! unat (mp_index p) \<or>
      blake3_collision (path_queries (mp_siblings p) (leaves ! 1) (unat (mp_index p)) (unat (mp_tx_count p)) 0 @
        reduce_queries leaves))"
proof -
  let ?leaves = "map leaf_hash [[1], [2], [3]]"
  define p where "p = the (merkle_proof ?leaves 1)"
  have p: "merkle_proof ?leaves 1 = Some p" by (simp add: p_def merkle_proof_def)
  then have c: "unat (mp_tx_count p) = length ?leaves" "mp_siblings p = merkle_siblings ?leaves 1"
    by (auto simp: merkle_proof_def)
  have "verify_merkle_proof (?leaves ! 1) p (merkle_root ?leaves)"
    using merkle_proof_verifies [OF p] by simp
  moreover have "list_all (\<lambda>h. length h = HASH_BYTES) (?leaves ! 1 # ?leaves @ mp_siblings p)"
    by (simp add: c(2) merkle_siblings.simps)
  ultimately show ?thesis
    using verify_merkle_proof_sound [of "?leaves ! 1" p ?leaves] c(1) by (auto simp: Let_def)
qed

text \<open>
  The unauthenticated count of a proof cannot forge membership: whatever count, index and
  siblings a proof carries, if the verifier accepts the leaf of \<open>tx\<close> against the root of \<open>txs\<close>,
  then \<open>tx\<close> is one of \<open>txs\<close>, or the two computations hashed a BLAKE3 collision.
\<close>
theorem verify_merkle_proof_member:
  assumes "verify_merkle_proof (leaf_hash tx) p (tx_root txs)" "txs \<noteq> []"
    and "list_all (\<lambda>h. length h = HASH_BYTES) (mp_siblings p)"
  shows "tx \<in> set txs \<or> blake3_collision (verify_queries tx p @ tx_root_queries txs)"
proof -
  let ?qs = "verify_queries tx p @ tx_root_queries txs"
  obtain t where t: "mt_hash t = tx_root txs" "mt_known t" "mt_txs t = txs"
    "set (mt_queries t) \<subseteq> set (tx_root_queries txs)" using tx_root_tree [OF assms(2)] .
  from assms obtain u where "verify_path (mp_siblings p) (mt_hash (MLeaf tx)) (unat (mp_index p))
      (unat (mp_tx_count p)) 0 = Some (tx_root txs, u)"
    by (auto simp: verify_merkle_proof_def split: if_splits option.splits)
  from verify_path_tree [OF this] assms(3) obtain q where q: "mt_hash q = tx_root txs" "mt_wf q"
    "tx \<in> set (mt_txs q)" "set (mt_queries q) \<subseteq> set (verify_queries tx p)"
    by (auto simp: verify_queries_def)
  have "set (mt_txs q) \<subseteq> set (mt_txs t) \<or> blake3_collision ?qs"
    using t q by (intro mt_txs_subset) auto
  then show ?thesis using q(3) t(3) by auto
qed

theorem verify_merkle_proof_member_witness:
  "\<exists>p. verify_merkle_proof (leaf_hash [2]) p (tx_root [[1], [2], [3]]) \<and>
     ([2] \<in> set [[1], [2], [3]] \<or> blake3_collision (verify_queries [2] p @ tx_root_queries [[1], [2], [3]]))"
proof -
  let ?leaves = "map leaf_hash [[1], [2], [3]]"
  define p where "p = the (merkle_proof ?leaves 1)"
  have p: "merkle_proof ?leaves 1 = Some p" by (simp add: p_def merkle_proof_def)
  then have c: "mp_siblings p = merkle_siblings ?leaves 1" by (auto simp: merkle_proof_def)
  have v: "verify_merkle_proof (leaf_hash [2]) p (tx_root [[1], [2], [3]])"
    using merkle_proof_verifies [OF p] by (simp add: tx_root_def)
  moreover have "list_all (\<lambda>h. length h = HASH_BYTES) (mp_siblings p)"
    by (simp add: c merkle_siblings.simps)
  ultimately show ?thesis
    using verify_merkle_proof_member [of "[2]" p "[[1], [2], [3]]"] by auto
qed

text \<open>
  C11.  A transaction root commits to the whole list: two non-empty lists with the same root are
  equal, lengths and order included, or the two root computations hashed a BLAKE3 collision.  In
  particular duplicating the tail of a list (CVE-2012-2459) changes the root.
\<close>
theorem tx_root_binding:
  assumes "tx_root txs = tx_root txs'" "txs \<noteq> []" "txs' \<noteq> []"
  shows "txs = txs' \<or> blake3_collision (tx_root_queries txs @ tx_root_queries txs')"
proof -
  obtain t where t: "mt_hash t = tx_root txs" "mt_known t" "mt_txs t = txs"
    "set (mt_queries t) \<subseteq> set (tx_root_queries txs)" using tx_root_tree [OF assms(2)] .
  obtain t' where t': "mt_hash t' = tx_root txs'" "mt_known t'" "mt_txs t' = txs'"
    "set (mt_queries t') \<subseteq> set (tx_root_queries txs')" using tx_root_tree [OF assms(3)] .
  have "t = t' \<or> blake3_collision (tx_root_queries txs @ tx_root_queries txs')"
    using t t' assms(1) by (intro mt_hash_inj) auto
  then show ?thesis using t(3) t'(3) by auto
qed

theorem tx_root_binding_witness:
  "tx_root [[1], [2], [3]] = tx_root [[1], [2], [3]] \<and>
   ([[1], [2], [3]] = [[1], [2], [3 :: u8]] \<or>
    blake3_collision (tx_root_queries [[1], [2], [3]] @ tx_root_queries [[1], [2], [3]]))"
  using tx_root_binding [of "[[1], [2], [3]]" "[[1], [2], [3]]"] by simp

end
