(* ===== verification/Blake3_Tree.thy ===== *)
theory Blake3_Tree
  imports Blake3
begin

text \<open>
  The incremental hasher of \<open>Blake3\<close> against the tree specification of BLAKE3: the left
  subtree of a message covers the largest power of two of whole chunks that leaves at least
  one byte to the right.  The stack kept by the hasher is characterised by \<open>stack_of\<close>, which
  groups the chaining values of the finished chunks by the binary digits of their number.
\<close>

section \<open>The stack of chaining values\<close>

definition parent_cv :: "cv \<Rightarrow> cv \<Rightarrow> cv" where
  "parent_cv l r = chaining_value (parent_output l r)"

fun pair_up :: "cv list \<Rightarrow> cv list" where
  "pair_up (a # b # xs) = parent_cv a b # pair_up xs"
| "pair_up _ = []"

lemma length_pair_up [simp]: "length (pair_up xs) = length xs div 2"
  by (induction xs rule: pair_up.induct) auto

lemma pair_up_append: "even (length xs) \<Longrightarrow> pair_up (xs @ ys) = pair_up xs @ pair_up ys"
  by (induction xs rule: pair_up.induct) auto

lemma half_pred_less: "0 < n \<Longrightarrow> (n - Suc 0) div 2 < (n :: nat)"
  by linarith

function stack_of :: "cv list \<Rightarrow> cv list" where
  "stack_of xs =
     (if xs = [] then []
      else if odd (length xs) then stack_of (pair_up (butlast xs)) @ [last xs]
      else stack_of (pair_up xs))"
  by pat_completeness auto
termination
  by (relation "measure length") (auto intro: half_pred_less)

declare stack_of.simps [simp del]

lemma stack_of_Nil [simp]: "stack_of [] = []"
  by (simp add: stack_of.simps)

lemma stack_of_even: "even (length xs) \<Longrightarrow> stack_of xs = stack_of (pair_up xs)"
  by (cases "xs = []") (simp_all add: stack_of.simps [of xs])

lemma stack_of_snoc: "even (length xs) \<Longrightarrow> stack_of (xs @ [x]) = stack_of xs @ [x]"
  by (subst stack_of.simps) (simp add: stack_of_even)

lemma add_chunk_stack_of:
  "add_chunk_chaining_value (stack_of xs) cv (Suc (length xs)) = stack_of (xs @ [cv])"
proof (induction "length xs" arbitrary: xs cv rule: less_induct)
  case less
  show ?case
  proof (cases "even (length xs)")
    case True
    then show ?thesis by (simp add: add_chunk_chaining_value.simps stack_of_snoc)
  next
    case False
    then obtain ys y where xs: "xs = ys @ [y]" by (cases xs rule: rev_cases) auto
    with False have ev: "even (length ys)" by simp
    have "add_chunk_chaining_value (stack_of xs) cv (Suc (length xs)) =
        add_chunk_chaining_value (stack_of (pair_up ys)) (parent_cv y cv) (Suc (length (pair_up ys)))"
      using ev by (subst add_chunk_chaining_value.simps)
        (simp add: xs stack_of_snoc parent_cv_def flip: stack_of_even)
    also have "\<dots> = stack_of (pair_up ys @ [parent_cv y cv])"
      by (rule less.hyps) (simp add: xs)
    also have "\<dots> = stack_of (pair_up (ys @ [y, cv]))"
      using ev by (simp add: pair_up_append)
    also have "\<dots> = stack_of (xs @ [cv])"
      using ev by (simp add: xs stack_of_even [of "ys @ [y, cv]"])
    finally show ?thesis .
  qed
qed

text \<open>The root over a list whose length is a power of two.\<close>

function perfect_root :: "cv list \<Rightarrow> cv" where
  "perfect_root xs = (if length xs \<le> 1 then hd xs else perfect_root (pair_up xs))"
  by pat_completeness auto
termination
  by (relation "measure length") auto

declare perfect_root.simps [simp del]

lemma perfect_root_single [simp]: "perfect_root [x] = x"
  by (simp add: perfect_root.simps)

lemma perfect_root_pair_up: "1 < length xs \<Longrightarrow> perfect_root xs = perfect_root (pair_up xs)"
  by (simp add: perfect_root.simps [of xs])

lemma stack_of_perfect_prefix:
  "length xs = 2 ^ k \<Longrightarrow> length ys < 2 ^ k \<Longrightarrow>
     stack_of (xs @ ys) = perfect_root xs # stack_of ys"
proof (induction k arbitrary: xs ys)
  case 0
  then obtain x where "xs = [x]" by (auto simp: length_Suc_conv)
  then show ?case using 0 stack_of_snoc [of "[]" x] by simp
next
  case (Suc k)
  have ev: "even (length xs)" using Suc.prems by simp
  have big: "1 < length xs" unfolding Suc.prems(1) by (rule one_less_power) simp_all
  have IH: "stack_of (pair_up xs @ pair_up zs) = perfect_root xs # stack_of (pair_up zs)"
    if "length zs < 2 * 2 ^ k" for zs
    using Suc.IH [of "pair_up xs" "pair_up zs"] Suc.prems that big by (simp add: perfect_root_pair_up)
  show ?case
  proof (cases "even (length ys)")
    case True
    then show ?thesis
      using IH [of ys] Suc.prems ev
      by (simp add: stack_of_even [of "xs @ ys"] stack_of_even [of ys] pair_up_append)
  next
    case False
    then obtain zs z where ys: "ys = zs @ [z]" by (cases ys rule: rev_cases) auto
    with False have ez: "even (length zs)" by simp
    have "stack_of (xs @ zs) = perfect_root xs # stack_of zs"
      using IH [of zs] Suc.prems ev ez
      by (simp add: ys stack_of_even [of "xs @ zs"] stack_of_even [of zs] pair_up_append)
    then show ?thesis
      using ev ez stack_of_snoc [of "xs @ zs" z] by (simp add: ys stack_of_snoc)
  qed
qed

lemma foldr_stack_of_perfect:
  "Suc (length xs) = 2 ^ k \<Longrightarrow> foldr parent_cv (stack_of xs) c = perfect_root (xs @ [c])"
proof (induction k arbitrary: xs c)
  case (Suc k)
  then have odd: "odd (length xs)" by (metis even_Suc dvd_triv_left power_Suc)
  then obtain ys y where xs: "xs = ys @ [y]" by (cases xs rule: rev_cases) auto
  with odd have ev: "even (length ys)" by simp
  have "foldr parent_cv (stack_of xs) c = foldr parent_cv (stack_of (pair_up ys)) (parent_cv y c)"
    using ev by (simp add: xs stack_of_snoc stack_of_even)
  also have "\<dots> = perfect_root (pair_up ys @ [parent_cv y c])"
    using Suc.prems ev by (intro Suc.IH) (auto simp: xs elim: evenE)
  also have "\<dots> = perfect_root (xs @ [c])"
    using ev by (simp add: xs pair_up_append perfect_root_pair_up [of "ys @ [y, c]"])
  finally show ?case .
qed simp

text \<open>
  The stack never outgrows its \<open>MAX_DEPTH\<close> slots: it has one entry per binary digit of the
  chunk count.
\<close>

lemma length_stack_of: "length xs < 2 ^ k \<Longrightarrow> length (stack_of xs) \<le> k"
proof (induction k arbitrary: xs)
  case (Suc k)
  have half: "length ys div 2 < 2 ^ k" if "length ys < 2 ^ Suc k" for ys :: "cv list"
    using that by (simp add: less_mult_imp_div_less mult.commute)
  show ?case
  proof (cases "even (length xs)")
    case True
    then show ?thesis using Suc.IH [of "pair_up xs"] Suc.prems half [of xs] by (simp add: stack_of_even)
  next
    case False
    then obtain ys y where xs: "xs = ys @ [y]" by (cases xs rule: rev_cases) auto
    with False have ev: "even (length ys)" by simp
    then show ?thesis
      using Suc.IH [of "pair_up ys"] Suc.prems half [of ys] by (simp add: xs stack_of_snoc stack_of_even)
  qed
qed simp

section \<open>The tree specification\<close>

text \<open>The largest power of two that is at most \<open>n\<close> (for positive \<open>n\<close>).\<close>

function pow2_le :: "nat \<Rightarrow> nat" where
  "pow2_le n = (if n < 2 then 1 else 2 * pow2_le (n div 2))"
  by pat_completeness auto
termination
  by (relation "measure id") auto

declare pow2_le.simps [simp del]

lemma pow2_le_bounds: "0 < n \<Longrightarrow> pow2_le n \<le> n \<and> n < 2 * pow2_le n"
proof (induction n rule: pow2_le.induct)
  case (1 n)
  then show ?case by (cases "n < 2") (auto simp: pow2_le.simps [of n])
qed

lemma pow2_le_power: "\<exists>k. pow2_le n = 2 ^ k"
proof (induction n rule: pow2_le.induct)
  case (1 n)
  show ?case
  proof (cases "n < 2")
    case True
    then show ?thesis by (intro exI [of _ 0]) (simp add: pow2_le.simps)
  next
    case False
    with 1 obtain k where "pow2_le (n div 2) = 2 ^ k" by auto
    then show ?thesis using False by (intro exI [of _ "Suc k"]) (simp add: pow2_le.simps [of n])
  qed
qed

text \<open>\<open>full_chunks bs\<close> is the number of chunks that end before the last byte of \<open>bs\<close>.\<close>

definition full_chunks :: "bytes \<Rightarrow> nat" where
  "full_chunks bs = (length bs - 1) div CHUNK_LEN"

definition left_len :: "bytes \<Rightarrow> nat" where
  "left_len bs = CHUNK_LEN * pow2_le (full_chunks bs)"

lemma left_len_bounds:
  "CHUNK_LEN < length bs \<Longrightarrow> 0 < left_len bs \<and> left_len bs < length bs"
proof -
  assume "CHUNK_LEN < length bs"
  then have "0 < full_chunks bs" "CHUNK_LEN * full_chunks bs < length bs"
    by (auto simp: full_chunks_def div_greater_zero_iff intro: le_less_trans [OF times_div_less_eq_dividend])
  then show ?thesis using pow2_le_bounds [of "full_chunks bs"] by (auto simp: left_len_def)
qed

function tree_output :: "u64 \<Rightarrow> bytes \<Rightarrow> b3_output" where
  "tree_output ctr bs =
     (if length bs \<le> CHUNK_LEN then chunk_node ctr bs
      else parent_output
        (chaining_value (tree_output ctr (take (left_len bs) bs)))
        (chaining_value (tree_output (ctr + of_nat (pow2_le (full_chunks bs))) (drop (left_len bs) bs))))"
  by pat_completeness auto
termination
  by (relation "measure (\<lambda>(ctr, bs). length bs)") (use left_len_bounds in \<open>auto simp: not_le intro!: diff_less\<close>)

declare tree_output.simps [simp del]

definition blake3_spec :: "bytes \<Rightarrow> hash32" where
  "blake3_spec bs = root_hash (tree_output 0 bs)"

definition chunk_cvs :: "u64 \<Rightarrow> bytes \<Rightarrow> nat \<Rightarrow> cv list" where
  "chunk_cvs ctr bs n =
     map (\<lambda>i. chaining_value (chunk_node (ctr + of_nat i) (sub_bytes bs (CHUNK_LEN * i) (CHUNK_LEN * Suc i)))) [0..<n]"

definition finish :: "cv list \<Rightarrow> b3_output \<Rightarrow> b3_output" where
  "finish = foldr (\<lambda>cv out. parent_output cv (chaining_value out))"

lemma chaining_value_finish:
  "chaining_value (finish st out) = foldr parent_cv st (chaining_value out)"
  by (induction st) (simp_all add: finish_def parent_cv_def)

lemma length_chunk_cvs [simp]: "length (chunk_cvs ctr bs n) = n"
  by (simp add: chunk_cvs_def)

lemma sub_bytes_take: "b \<le> m \<Longrightarrow> sub_bytes (take m bs) a b = sub_bytes bs a b"
  by (simp add: sub_bytes_def drop_take min_def)

lemma chunk_cvs_take:
  assumes "CHUNK_LEN * n \<le> m"
  shows "chunk_cvs ctr (take m bs) n = chunk_cvs ctr bs n"
proof -
  have "CHUNK_LEN * Suc i \<le> m" if "i < n" for i
    using mult_le_mono2 [of "Suc i" n CHUNK_LEN] that assms by simp
  then show ?thesis unfolding chunk_cvs_def by (intro map_cong) (simp_all add: sub_bytes_take)
qed

lemma chunk_cvs_split:
  assumes "l \<le> n"
  shows "chunk_cvs ctr bs n =
    chunk_cvs ctr bs l @ chunk_cvs (ctr + of_nat l) (drop (CHUNK_LEN * l) bs) (n - l)"
proof -
  have "[0..<n] = [0..<l] @ map (\<lambda>i. i + l) [0..<n - l]"
    using assms upt_add_eq_append [of 0 l "n - l"] by (simp add: map_add_upt)
  then show ?thesis
    by (simp add: chunk_cvs_def sub_bytes_def add.assoc add.commute add.left_commute)
qed

lemma tree_output_finish:
  "tree_output ctr bs =
     finish (stack_of (chunk_cvs ctr bs (full_chunks bs)))
       (chunk_node (ctr + of_nat (full_chunks bs)) (drop (CHUNK_LEN * full_chunks bs) bs))"
proof (induction "length bs" arbitrary: ctr bs rule: less_induct)
  case less
  define n where "n = full_chunks bs"
  define l where "l = pow2_le n"
  show ?case
  proof (cases "length bs \<le> CHUNK_LEN")
    case True
    then have "full_chunks bs = 0" by (simp add: full_chunks_def)
    then show ?thesis using True by (simp add: tree_output.simps chunk_cvs_def finish_def)
  next
    case False
    then have n0: "0 < n" by (simp add: n_def full_chunks_def div_greater_zero_iff)
    then have l: "l \<le> n" "n < 2 * l" "0 < l" using pow2_le_bounds [of n] by (simp_all add: l_def)
    obtain k where k: "l = 2 ^ k" using pow2_le_power by (auto simp: l_def)
    have ll: "left_len bs = CHUNK_LEN * l" by (simp add: left_len_def l_def n_def)
    have len: "left_len bs < length bs" "0 < left_len bs" using False left_len_bounds [of bs] by auto
    let ?L = "take (left_len bs) bs" and ?R = "drop (left_len bs) bs"
    have fl: "full_chunks ?L = l - 1"
      using l(3) len by (cases l) (simp_all add: full_chunks_def ll)
    have fr: "full_chunks ?R = n - l"
      using len by (simp add: full_chunks_def n_def ll)
    let ?last = "chunk_node (ctr + of_nat n) (drop (CHUNK_LEN * n) bs)"
    have shift: "drop (CHUNK_LEN * (n - l)) ?R = drop (CHUNK_LEN * n) bs"
      using l(1) by (simp add: ll diff_mult_distrib2)
    have ctr: "ctr + of_nat l + of_nat (n - l) = ctr + of_nat n" using l(1) by (simp add: of_nat_diff)
    have R: "tree_output (ctr + of_nat l) ?R = finish (stack_of (chunk_cvs (ctr + of_nat l) ?R (n - l))) ?last"
      using less.hyps [of ?R "ctr + of_nat l"] len by (simp only: fr shift ctr) simp
    have lastL: "chunk_cvs ctr bs l = chunk_cvs ctr ?L (l - 1) @
        [chaining_value (chunk_node (ctr + of_nat (l - 1)) (drop (CHUNK_LEN * (l - 1)) ?L))]"
      using l(3) chunk_cvs_take [of l "left_len bs" ctr bs]
      by (cases l) (simp_all add: chunk_cvs_def sub_bytes_def ll drop_take)
    have "Suc (length (chunk_cvs ctr ?L (l - 1))) = 2 ^ k" using k l(3) by simp
    note root = foldr_stack_of_perfect [OF this]
    have "length ?L < length bs" using len by simp
    from less.hyps [OF this, of ctr]
    have L: "chaining_value (tree_output ctr ?L) = perfect_root (chunk_cvs ctr bs l)"
      by (simp only: fl chaining_value_finish root lastL)
    have "stack_of (chunk_cvs ctr bs n) =
        perfect_root (chunk_cvs ctr bs l) # stack_of (chunk_cvs (ctr + of_nat l) ?R (n - l))"
      using stack_of_perfect_prefix [of "chunk_cvs ctr bs l" k] l k
      by (simp add: chunk_cvs_split [of l n] ll)
    then have "finish (stack_of (chunk_cvs ctr bs n)) ?last =
        parent_output (chaining_value (tree_output ctr ?L)) (chaining_value (tree_output (ctr + of_nat l) ?R))"
      by (simp add: L R) (simp add: finish_def)
    then show ?thesis
      using False by (simp add: tree_output.simps [of ctr bs] flip: n_def l_def)
  qed
qed

section \<open>The hasher computes the tree\<close>

lemma counter_foldl [simp]: "cs_chunk_counter (foldl chunk_push cs bs) = cs_chunk_counter cs"
  by (induction bs arbitrary: cs) (simp_all add: chunk_push_def chunk_absorb_def chunk_flush_def)

lemma counter_new [simp]: "cs_chunk_counter (chunk_new n) = n"
  by (simp add: chunk_new_def)

lemma full_chunks_le: "bs \<noteq> [] \<Longrightarrow> CHUNK_LEN * full_chunks bs < length bs"
  unfolding full_chunks_def
  by (rule le_less_trans [OF times_div_less_eq_dividend]) simp

lemma full_chunks_snoc:
  assumes "bs \<noteq> []"
  shows "full_chunks (bs @ [b]) =
    (if length bs - CHUNK_LEN * full_chunks bs = CHUNK_LEN then Suc (full_chunks bs) else full_chunks bs)"
proof -
  obtain m where m: "length bs = Suc m" using assms by (cases bs) auto
  have "m - 1024 * (m div 1024) = m mod 1024" by (simp add: minus_mult_div_eq_mod)
  then have "Suc m - 1024 * (m div 1024) = Suc (m mod 1024)"
    by (metis Suc_diff_le times_div_less_eq_dividend)
  moreover have "Suc (m mod 1024) = 1024 \<longleftrightarrow> Suc m mod 1024 = 0" by (simp add: mod_Suc)
  ultimately show ?thesis
    unfolding full_chunks_def by (simp only: m length_append list.size diff_Suc_1 CHUNK_LEN_def
      add_Suc_right add_0_right div_Suc [of m 1024])
qed

lemma hasher_state:
  assumes "length bs < 2 ^ 64"
  shows "foldl hasher_push hasher_new bs =
    \<lparr> hs_chunk_state = foldl chunk_push (chunk_new (of_nat (full_chunks bs))) (drop (CHUNK_LEN * full_chunks bs) bs),
      hs_cv_stack = stack_of (chunk_cvs 0 bs (full_chunks bs)) \<rparr>"
  using assms
proof (induction bs rule: rev_induct)
  case Nil
  then show ?case by (simp add: hasher_new_def full_chunks_def chunk_cvs_def)
next
  case (snoc b bs)
  define n where "n = full_chunks bs"
  let ?cs = "foldl chunk_push (chunk_new (of_nat n)) (drop (CHUNK_LEN * n) bs)"
  have IH: "foldl hasher_push hasher_new bs = \<lparr> hs_chunk_state = ?cs, hs_cv_stack = stack_of (chunk_cvs 0 bs n) \<rparr>"
    using snoc by (simp add: n_def)
  have step: "foldl hasher_push hasher_new (bs @ [b]) =
      hasher_push \<lparr> hs_chunk_state = ?cs, hs_cv_stack = stack_of (chunk_cvs 0 bs n) \<rparr> b"
    by (simp add: IH)
  show ?case
  proof (cases "bs = []")
    case True
    then show ?thesis
      by (simp add: hasher_push_def hasher_new_def full_chunks_def chunk_cvs_def)
  next
    case False
    have le: "CHUNK_LEN * n < length bs" using full_chunks_le [OF False] by (simp add: n_def)
    have cvs: "chunk_cvs 0 (bs @ [b]) n = chunk_cvs 0 bs n"
      using le chunk_cvs_take [of n "length bs" 0 "bs @ [b]"] by simp
    show ?thesis
    proof (cases "length bs - CHUNK_LEN * n = CHUNK_LEN")
      case True
      have n': "full_chunks (bs @ [b]) = Suc n"
        using full_chunks_snoc [OF False, of b] True by (simp add: n_def)
      have "unat (of_nat (Suc n) :: u64) = Suc n"
        unfolding unat_of_nat using le snoc.prems by simp
      then have "unat (of_nat n + 1 :: u64) = Suc n" by (simp add: add.commute)
      moreover have "chaining_value (chunk_output ?cs) =
          chaining_value (chunk_node (of_nat n) (sub_bytes (bs @ [b]) (CHUNK_LEN * n) (CHUNK_LEN * Suc n)))"
        using True by (simp add: chunk_output_new sub_bytes_def)
      then have "chunk_cvs 0 (bs @ [b]) (Suc n) = chunk_cvs 0 bs n @ [chaining_value (chunk_output ?cs)]"
        unfolding cvs [symmetric] by (simp add: chunk_cvs_def)
      ultimately have "hasher_roll \<lparr> hs_chunk_state = ?cs, hs_cv_stack = stack_of (chunk_cvs 0 bs n) \<rparr> =
          \<lparr> hs_chunk_state = chunk_new (of_nat (Suc n)), hs_cv_stack = stack_of (chunk_cvs 0 (bs @ [b]) (Suc n)) \<rparr>"
        using add_chunk_stack_of [of "chunk_cvs 0 bs n" "chaining_value (chunk_output ?cs)"]
        by (simp add: hasher_roll_def Let_def add.commute)
      then show ?thesis
        unfolding step using True le by (simp add: n' hasher_push_def chunk_len_foldl)
    next
      case other: False
      then show ?thesis
        unfolding step using full_chunks_snoc [OF False, of b] le cvs
        by (simp add: hasher_push_def chunk_len_foldl flip: n_def)
    qed
  qed
qed

lemma stack_depth:
  assumes "length bs < 2 ^ 64"
  shows "length (hs_cv_stack (hasher_update hasher_new bs)) \<le> MAX_DEPTH"
proof -
  have "full_chunks bs < 2 ^ 54"
    using assms by (simp add: full_chunks_def less_mult_imp_div_less)
  then show ?thesis
    using length_stack_of [of "chunk_cvs 0 bs (full_chunks bs)" 54] assms
    by (simp add: hasher_update_foldl hasher_state)
qed

section \<open>Properties\<close>

text \<open>
  C14.  The incremental hasher computes the BLAKE3 tree: for every input that fits a \<open>usize\<close>, the
  lazily merged stack of chaining values yields the hash that the recursive specification
  assigns to the input, whose left subtrees cover the largest power of two of whole chunks.
\<close>
theorem blake3_hash_is_tree:
  assumes "length bs < 2 ^ 64"
  shows "blake3_hash bs = blake3_spec bs"
  using tree_output_finish [of 0 bs] assms
  by (simp add: blake3_hash_def blake3_spec_def hasher_update_foldl hasher_state hasher_finalize_def
    chunk_output_new finish_def)

theorem blake3_hash_is_tree_witness:
  "length (replicate 3000 (7 :: u8)) < 2 ^ 64 \<and> blake3_hash (replicate 3000 7) = blake3_spec (replicate 3000 7)"
  using blake3_hash_is_tree [of "replicate 3000 7"] by simp

text \<open>
  Cutting a message into \<open>update\<close> calls does not change its hash, and the hasher never needs
  more than the \<open>MAX_DEPTH\<close> slots of its stack, so the indexed push cannot go out of bounds.
\<close>
theorem hasher_streaming_and_depth:
  assumes "length (a @ b) < 2 ^ 64"
  shows "hasher_finalize (hasher_update (hasher_update hasher_new a) b) = blake3_hash (a @ b) \<and>
    length (hs_cv_stack (hasher_update (hasher_update hasher_new a) b)) \<le> MAX_DEPTH"
  using stack_depth [OF assms] by (simp add: hasher_update_append blake3_hash_def)

theorem hasher_streaming_and_depth_witness:
  "length ([1, 2] @ [3 :: u8]) < 2 ^ 64 \<and>
   hasher_finalize (hasher_update (hasher_update hasher_new [1, 2]) [3]) = blake3_hash ([1, 2] @ [3]) \<and>
   length (hs_cv_stack (hasher_update (hasher_update hasher_new [1, 2]) [3])) \<le> MAX_DEPTH"
  using hasher_streaming_and_depth [of "[1, 2]" "[3]"] by simp

end
