(* ===== verification/Emission.thy ===== *)
theory Emission
  imports Constants
begin

text \<open>
  The issuance schedule of \<open>lib/consensus/src/emission.rs\<close>.  The products are taken in
  \<open>u128\<close>; the lemmas show that they never wrap for a \<open>u64\<close> height, so the closed forms
  agree with the sum of the block rewards.
\<close>

definition subsidy :: "u64 \<Rightarrow> u128" where
  "subsidy height = (if height = 0 then 0 else BLOCK_SUBSIDY)"

definition block_reward :: "u64 \<Rightarrow> u128" where
  "block_reward height = subsidy height"

definition cumulative_issued :: "u64 \<Rightarrow> u128" where
  "cumulative_issued height = ucast (saturating_sub height 1) * BLOCK_SUBSIDY"

definition issued_through :: "u64 \<Rightarrow> u128" where
  "issued_through height = ucast height * BLOCK_SUBSIDY"

lemma unat_height_times_subsidy: "unat (ucast (h :: u64) * BLOCK_SUBSIDY :: u128) = unat h * 200000"
  using unat_u64_lt [of h] by (subst unat_mult_no_overflow) (simp_all add: unat_ucast_up)

lemma unat_subsidy: "unat (subsidy h) = (if h = 0 then 0 else 200000)"
  by (simp add: subsidy_def)

lemma unat_issued_through: "unat (issued_through h) = unat h * 200000"
  by (simp only: issued_through_def unat_height_times_subsidy)

lemma unat_cumulative_issued: "unat (cumulative_issued h) = (unat h - 1) * 200000"
  by (simp only: cumulative_issued_def unat_height_times_subsidy unat_saturating_sub unsigned_1)

lemma sum_subsidy: "n \<le> unat (h :: u64) \<Longrightarrow> (\<Sum>i = 0..n. unat (subsidy (of_nat i))) = n * 200000"
proof (induction n)
  case (Suc n)
  have "unat (of_nat (Suc n) :: u64) = Suc n"
    using Suc.prems unat_u64_lt [of h] by (intro unat_of_nat_small) simp
  then have "(of_nat (Suc n) :: u64) \<noteq> 0" by (metis nat.simps(3) unsigned_0)
  then have "unat (subsidy (of_nat (Suc n))) = 200000" by (simp only: unat_subsidy) simp
  then show ?case using Suc by (simp del: of_nat_Suc)
qed (simp add: unat_subsidy)

text \<open>
  C20.  Issuance adds up: the amount reported as issued through a height is the sum of the
  rewards of all blocks from genesis to that height, and the amount issued before it is the
  same sum without the last block; both are exact, with no wrap-around at any \<open>u64\<close> height.
\<close>
theorem issuance_is_sum_of_rewards:
  "unat (issued_through h) = (\<Sum>i = 0..unat h. unat (block_reward (of_nat i))) \<and>
   unat (issued_through h) = unat (cumulative_issued h) + unat (block_reward h)"
proof -
  have "unat h = 0 \<longleftrightarrow> h = 0" by (rule unat_eq_0)
  then have "unat h * 200000 = (unat h - 1) * 200000 + (if h = 0 then 0 else 200000)"
    by (cases "unat h") auto
  then show ?thesis
    using sum_subsidy [of "unat h" h]
    by (simp add: block_reward_def unat_issued_through unat_cumulative_issued unat_subsidy)
qed

end
