(* ===== verification/Limbs.thy ===== *)
theory Limbs
  imports Prelude
begin

text \<open>
  Multi-precision naturals as little-endian lists of \<open>u64\<close> limbs, the representation shared by
  \<open>Target\<close> (four limbs), the 320-bit intermediate of the difficulty rule (five limbs) and
  \<open>Work\<close> (eight limbs).  The loops that the sources write out once per width are stated here
  once over the length of the list, and each is shown to compute its natural-number operation.
\<close>

section \<open>Value\<close>

type_synonym limbs = "u64 list"

fun limbs_val :: "limbs \<Rightarrow> nat" where
  "limbs_val [] = 0"
| "limbs_val (x # xs) = unat x + 2 ^ 64 * limbs_val xs"

lemma limbs_val_less: "limbs_val xs < 2 ^ (64 * length xs)"
proof (induction xs)
  case (Cons x xs)
  have "unat x + 2 ^ 64 * limbs_val xs < 2 ^ 64 * Suc (limbs_val xs)"
    using unat_u64_lt [of x] by simp
  also have "\<dots> \<le> 2 ^ 64 * 2 ^ (64 * length xs)"
    using Cons.IH by (intro mult_le_mono2) simp
  finally show ?case by (simp add: power_add)
qed simp

lemma limbs_val_append: "limbs_val (xs @ ys) = limbs_val xs + 2 ^ (64 * length xs) * limbs_val ys"
  by (induction xs) (simp_all add: power_add algebra_simps)

lemma limbs_val_replicate [simp]: "limbs_val (replicate n 0) = 0"
  by (induction n) simp_all

lemma limbs_val_eq_0: "limbs_val xs = 0 \<longleftrightarrow> (\<forall>x \<in> set xs. x = 0)"
  by (induction xs) (simp_all add: unat_eq_0)

lemma limbs_val_inj: "length xs = length ys \<Longrightarrow> limbs_val xs = limbs_val ys \<longleftrightarrow> xs = ys"
proof (induction xs ys rule: list_induct2)
  case (Cons x xs y ys)
  have "unat x = unat y \<and> limbs_val xs = limbs_val ys"
    if "unat x + 2 ^ 64 * limbs_val xs = unat y + 2 ^ 64 * limbs_val ys"
  proof -
    from that have "(unat x + 2 ^ 64 * limbs_val xs) mod 2 ^ 64 = (unat y + 2 ^ 64 * limbs_val ys) mod 2 ^ 64"
      by simp
    then have "unat x = unat y" using unat_u64_lt [of x] unat_u64_lt [of y] by simp
    with that show ?thesis by simp
  qed
  then show ?case using Cons.IH by (auto simp: word_unat_eq_iff)
qed simp

lemma limbs_val_nth_bound: "i < length xs \<Longrightarrow> 2 ^ (64 * i) * unat (xs ! i) \<le> limbs_val xs"
proof (induction xs arbitrary: i)
  case (Cons x xs)
  show ?case
  proof (cases i)
    case (Suc j)
    then have "2 ^ (64 * j) * unat (xs ! j) \<le> limbs_val xs" using Cons by simp
    then have "2 ^ 64 * (2 ^ (64 * j) * unat (xs ! j)) \<le> 2 ^ 64 * limbs_val xs" by (rule mult_le_mono2)
    then show ?thesis by (simp add: Suc power_add mult.assoc)
  qed simp
qed simp

lemma bit_limbs_val:
  "bit (limbs_val xs) k \<longleftrightarrow> k div 64 < length xs \<and> bit (xs ! (k div 64)) (k mod 64)"
proof (induction xs arbitrary: k)
  case (Cons x xs)
  have "limbs_val (x # xs) = take_bit 64 (unat x) + push_bit 64 (limbs_val xs)"
    using unat_u64_lt [of x] by (simp add: push_bit_eq_mult take_bit_nat_eq_self)
  also have "\<dots> = take_bit 64 (unat x) OR push_bit 64 (limbs_val xs)"
    by (rule disjunctive_add) (auto simp: bit_simps)
  finally have v: "bit (limbs_val (x # xs)) k \<longleftrightarrow>
      k < 64 \<and> bit x k \<or> 64 \<le> k \<and> bit (limbs_val xs) (k - 64)"
    by (simp only: bit_simps) (auto simp: bit_unsigned_iff)
  show ?case
  proof (cases "k < 64")
    case False
    then have "k div 64 = Suc ((k - 64) div 64)" "k mod 64 = (k - 64) mod 64"
      by (simp_all add: le_div_geq le_mod_geq)
    then show ?thesis using v Cons.IH [of "k - 64"] False by simp
  qed (use v in simp)
qed simp

lemma bit_limbs_val_at:
  "j < 64 \<Longrightarrow> bit (limbs_val xs) (64 * i + j) \<longleftrightarrow> i < length xs \<and> bit (xs ! i) j"
  by (simp add: bit_limbs_val)

section \<open>Comparison\<close>

datatype ordering = Less | Equal | Greater

fun limbs_cmp_rev :: "limbs \<Rightarrow> limbs \<Rightarrow> ordering" where
  "limbs_cmp_rev (x # xs) (y # ys) =
     (if x < y then Less else if y < x then Greater else limbs_cmp_rev xs ys)"
| "limbs_cmp_rev _ _ = Equal"

definition limbs_cmp :: "limbs \<Rightarrow> limbs \<Rightarrow> ordering" where
  "limbs_cmp a b = limbs_cmp_rev (rev a) (rev b)"

definition nat_cmp :: "nat \<Rightarrow> nat \<Rightarrow> ordering" where
  "nat_cmp a b = (if a < b then Less else if b < a then Greater else Equal)"

lemma nat_cmp_top:
  assumes "a < m" "b < m"
  shows "nat_cmp (a + m * x) (b + m * y) = (if x < y then Less else if y < x then Greater else nat_cmp a b)"
proof -
  have less: "u + m * p < v + m * q" if "p < q" "u < m" for p q u v :: nat
  proof -
    have "u + m * p < m * Suc p" using that by simp
    also have "\<dots> \<le> m * q" using that by (intro mult_le_mono2) simp
    finally show ?thesis by simp
  qed
  show ?thesis
    using less [of x y a b] less [of y x b a] assms by (auto simp: nat_cmp_def)
qed

lemma limbs_cmp_nat: "length a = length b \<Longrightarrow> limbs_cmp a b = nat_cmp (limbs_val a) (limbs_val b)"
proof (induction a arbitrary: b rule: rev_induct)
  case Nil
  then show ?case by (simp add: limbs_cmp_def nat_cmp_def)
next
  case (snoc x xs)
  then obtain ys y where b: "b = ys @ [y]" "length xs = length ys"
    by (cases b rule: rev_cases) auto
  have bounds: "limbs_val xs < 2 ^ (64 * length ys)" "limbs_val ys < 2 ^ (64 * length ys)"
    using limbs_val_less [of xs] limbs_val_less [of ys] b(2) by simp_all
  show ?case
    using snoc.IH [OF b(2)] nat_cmp_top [OF bounds, of "unat x" "unat y"] b
    by (simp add: limbs_cmp_def limbs_val_append word_less_nat_alt)
qed

section \<open>Multiplication by one limb\<close>

fun limbs_mul_carry :: "limbs \<Rightarrow> u64 \<Rightarrow> u128 \<Rightarrow> limbs" where
  "limbs_mul_carry [] b carry = [ucast carry]"
| "limbs_mul_carry (limb # a) b carry =
     (let p = ucast limb * ucast b + carry
      in ucast p # limbs_mul_carry a b (drop_bit 64 p))"

lemma length_limbs_mul_carry [simp]: "length (limbs_mul_carry a b c) = Suc (length a)"
  by (induction a arbitrary: c) (simp_all add: Let_def)

lemma unat_ucast_u128_u64: "unat (ucast (p :: u128) :: u64) = unat p mod 2 ^ 64"
  by (simp add: unsigned_ucast_eq take_bit_eq_mod)

lemma unat_drop_bit: "unat (drop_bit n w) = unat w div 2 ^ n"
  unfolding drop_bit_eq_div [symmetric] by (simp only: unsigned_drop_bit_eq) (simp add: take_bit_nat_eq_self unsigned_less)

lemma limbs_mul_carry_val:
  "unat c < 2 ^ 64 \<Longrightarrow> limbs_val (limbs_mul_carry a b c) = limbs_val a * unat b + unat c"
proof (induction a arbitrary: c)
  case Nil
  then show ?case by (simp add: unat_ucast_u128_u64)
next
  case (Cons x a)
  define p where "p = ucast x * ucast b + c"
  have m: "unat x * unat b \<le> (2 ^ 64 - 1) * (2 ^ 64 - 1)"
    using unat_u64_lt [of x] unat_u64_lt [of b] by (intro mult_le_mono) simp_all
  have "unat (ucast x * ucast b :: u128) = unat x * unat b"
    using m by (subst unat_mult_no_overflow) (simp_all add: unat_ucast_up)
  then have p: "unat p = unat x * unat b + unat c"
    unfolding p_def using m Cons.prems by (subst unat_add_no_overflow) simp_all
  then have hi: "unat (drop_bit 64 p) < 2 ^ 64"
    using m Cons.prems by (simp add: unat_drop_bit less_mult_imp_div_less)
  have "limbs_val (limbs_mul_carry (x # a) b c) = unat p mod 2 ^ 64 + 2 ^ 64 * (limbs_val a * unat b + unat p div 2 ^ 64)"
    using Cons.IH [OF hi] by (simp add: p_def Let_def unat_ucast_u128_u64 unat_drop_bit)
  also have "\<dots> = (unat p mod 2 ^ 64 + 2 ^ 64 * (unat p div 2 ^ 64)) + 2 ^ 64 * (limbs_val a * unat b)"
    by (simp only: distrib_left ac_simps)
  also have "unat p mod 2 ^ 64 + 2 ^ 64 * (unat p div 2 ^ 64) = unat x * unat b + unat c"
    by (simp only: mod_mult_div_eq p)
  finally show ?case by (simp only: limbs_val.simps distrib_left distrib_right ac_simps)
qed

section \<open>Shifts\<close>

definition limbs_shl :: "limbs \<Rightarrow> nat \<Rightarrow> limbs" where
  "limbs_shl v n =
     (let limb = n div 64; bt = n mod 64
      in map (\<lambda>i.
           if limb \<le> i
           then
             let src = i - limb;
                 x = push_bit bt (v ! src)
             in if 0 < bt \<and> 0 < src then x OR drop_bit (64 - bt) (v ! (src - 1)) else x
           else 0) [0..<length v])"

definition limbs_shr :: "limbs \<Rightarrow> nat \<Rightarrow> limbs" where
  "limbs_shr v n =
     (let limb = n div 64; bt = n mod 64
      in map (\<lambda>i.
           let src = i + limb in
           if src < length v
           then
             let x = drop_bit bt (v ! src)
             in if 0 < bt \<and> src + 1 < length v then x OR push_bit (64 - bt) (v ! (src + 1)) else x
           else 0) [0..<length v])"

lemma length_limbs_shl [simp]: "length (limbs_shl v n) = length v"
  by (simp add: limbs_shl_def Let_def)

lemma length_limbs_shr [simp]: "length (limbs_shr v n) = length v"
  by (simp add: limbs_shr_def Let_def)

lemma bit_limbs_shl:
  assumes "i < length v" "j < 64"
  shows "bit (limbs_shl v n ! i) j \<longleftrightarrow> n \<le> 64 * i + j \<and> bit (limbs_val v) (64 * i + j - n)"
proof -
  define limb bt where "limb = n div 64" and "bt = n mod 64"
  have n: "n = 64 * limb + bt" and bt: "bt < 64" by (simp_all add: limb_def bt_def)
  show ?thesis
  proof (cases "limb \<le> i")
    case False
    then have "64 * i + j < 64 * Suc i" "64 * Suc i \<le> 64 * limb"
      using assms(2) by (simp, intro mult_le_mono2) simp
    then show ?thesis using False assms n by (simp add: limbs_shl_def Let_def flip: limb_def bt_def)
  next
    case True
    then obtain src where src: "i = limb + src" using le_Suc_ex by blast
    show ?thesis
    proof (cases "bt \<le> j")
      case True
      then have "64 * i + j - n = 64 * src + (j - bt)" "n \<le> 64 * i + j" by (simp_all add: n src)
      then show ?thesis
        using assms True bt bit_limbs_val_at [of "j - bt" v src]
        by (auto simp: limbs_shl_def Let_def src bit_simps dest: bit_imp_le_length simp flip: limb_def bt_def)
    next
      case lt: False
      show ?thesis
      proof (cases src)
        case 0
        then show ?thesis
          using assms lt bt n by (auto simp: limbs_shl_def Let_def src bit_simps simp flip: limb_def bt_def)
      next
        case (Suc s)
        then have "64 * i + j - n = 64 * s + (64 + j - bt)" "n \<le> 64 * i + j"
          using lt bt by (simp_all add: n src)
        then show ?thesis
          using assms lt bt bit_limbs_val_at [of "64 + j - bt" v s]
          by (auto simp: limbs_shl_def Let_def src Suc bit_simps simp flip: limb_def bt_def)
      qed
    qed
  qed
qed

lemma limbs_shl_val: "limbs_val (limbs_shl v n) = (limbs_val v * 2 ^ n) mod 2 ^ (64 * length v)"
proof -
  have "limbs_val (limbs_shl v n) = take_bit (64 * length v) (push_bit n (limbs_val v))"
  proof (rule bit_eqI)
    fix k :: nat
    have k: "k = 64 * (k div 64) + k mod 64" by simp
    have lt: "k div 64 < length v \<longleftrightarrow> k < 64 * length v" by (simp add: less_mult_imp_div_less div_less_iff_less_mult mult.commute)
    show "bit (limbs_val (limbs_shl v n)) k \<longleftrightarrow> bit (take_bit (64 * length v) (push_bit n (limbs_val v))) k"
      using bit_limbs_shl [of "k div 64" v "k mod 64" n] lt
      by (auto simp: bit_limbs_val [of "limbs_shl v n"] bit_simps simp flip: k)
  qed
  then show ?thesis by (simp add: push_bit_eq_mult take_bit_eq_mod)
qed

lemma bit_limbs_shr:
  assumes "i < length v" "j < 64"
  shows "bit (limbs_shr v n ! i) j \<longleftrightarrow> bit (limbs_val v) (64 * i + j + n)"
proof -
  define limb bt where "limb = n div 64" and "bt = n mod 64"
  have n: "n = 64 * limb + bt" and bt: "bt < 64" by (simp_all add: limb_def bt_def)
  show ?thesis
  proof (cases "bt + j < 64")
    case True
    have idx: "64 * i + j + n = 64 * (i + limb) + (bt + j)" by (simp add: n)
    show ?thesis
      unfolding idx bit_limbs_val_at [OF True] using assms True
      by (auto simp: limbs_shr_def Let_def bit_simps simp flip: limb_def bt_def)
  next
    case False
    have idx: "64 * i + j + n = 64 * (i + limb + 1) + (j - (64 - bt))"
      using False bt by (simp add: n)
    have lt: "j - (64 - bt) < 64" using assms(2) by simp
    show ?thesis
      unfolding idx bit_limbs_val_at [OF lt] using assms False bt
      by (auto simp: limbs_shr_def Let_def bit_simps dest: bit_imp_le_length simp flip: limb_def bt_def)
  qed
qed

lemma limbs_shr_val: "limbs_val (limbs_shr v n) = limbs_val v div 2 ^ n"
proof -
  have "limbs_val (limbs_shr v n) = drop_bit n (limbs_val v)"
  proof (rule bit_eqI)
    fix k :: nat
    have k: "k = 64 * (k div 64) + k mod 64" by simp
    have "\<not> bit (limbs_val v) (k + n)" if "\<not> k div 64 < length v"
      using that div_le_mono [of k "k + n" 64] by (simp add: bit_limbs_val)
    then show "bit (limbs_val (limbs_shr v n)) k \<longleftrightarrow> bit (drop_bit n (limbs_val v)) k"
      using bit_limbs_shr [of "k div 64" v "k mod 64" n]
      by (auto simp: bit_limbs_val [of "limbs_shr v n"] bit_simps add.commute simp flip: k)
  qed
  then show ?thesis by (simp add: drop_bit_eq_div)
qed

section \<open>Bit length\<close>

definition leading_zeros :: "u64 \<Rightarrow> nat" where
  "leading_zeros x = length (takeWhile (\<lambda>i. \<not> bit x i) (rev [0..<64]))"

fun limbs_bit_len_rev :: "limbs \<Rightarrow> nat" where
  "limbs_bit_len_rev [] = 0"
| "limbs_bit_len_rev (x # xs) =
     (if x \<noteq> 0 then length xs * 64 + (64 - leading_zeros x) else limbs_bit_len_rev xs)"

definition limbs_bit_len :: "limbs \<Rightarrow> nat" where
  "limbs_bit_len v = limbs_bit_len_rev (rev v)"

text \<open>The number of binary digits of a natural number.\<close>

definition bit_width :: "nat \<Rightarrow> nat" where
  "bit_width n = (LEAST k. n < 2 ^ k)"

lemma bit_width_le: "bit_width n \<le> k \<longleftrightarrow> n < 2 ^ k"
proof
  have "n < 2 ^ bit_width n" unfolding bit_width_def by (rule LeastI [of _ n]) simp
  then show "bit_width n \<le> k \<Longrightarrow> n < 2 ^ k"
    by (meson less_le_trans one_le_numeral power_increasing)
  show "n < 2 ^ k \<Longrightarrow> bit_width n \<le> k" unfolding bit_width_def by (rule Least_le)
qed

lemma bit_width_unique: "(\<And>k. m \<le> k \<longleftrightarrow> n < 2 ^ k) \<Longrightarrow> bit_width n = m"
  by (metis bit_width_le order_antisym order_refl)

lemma bit_width_0 [simp]: "bit_width 0 = 0"
  by (rule bit_width_unique) simp

lemma bit_width_add_high:
  "a < 2 ^ m \<Longrightarrow> 0 < x \<Longrightarrow> bit_width (a + 2 ^ m * x) = m + bit_width x"
proof (rule bit_width_unique)
  fix k
  assume a: "a < 2 ^ m" and x: "0 < x"
  show "m + bit_width x \<le> k \<longleftrightarrow> a + 2 ^ m * x < 2 ^ k"
  proof (cases "m \<le> k")
    case True
    then obtain j where k: "k = m + j" using le_Suc_ex by blast
    have "a + 2 ^ m * x < 2 ^ m * 2 ^ j \<longleftrightarrow> x < 2 ^ j"
    proof
      assume "a + 2 ^ m * x < 2 ^ m * 2 ^ j"
      then have "2 ^ m * x < 2 ^ m * (2 ^ j :: nat)" by linarith
      then show "x < 2 ^ j" by simp
    next
      assume "x < 2 ^ j"
      then have "2 ^ m * Suc x \<le> 2 ^ m * (2 ^ j :: nat)" by (intro mult_le_mono2) simp
      then show "a + 2 ^ m * x < 2 ^ m * 2 ^ j" using a by simp
    qed
    then show ?thesis by (simp add: k bit_width_le power_add)
  next
    case False
    have "(2 :: nat) ^ k \<le> 2 ^ m" using False by (intro power_increasing) auto
    also have "\<dots> \<le> 2 ^ m * x" using x by simp
    finally show ?thesis using False by simp
  qed
qed

lemma takeWhile_rev_upt_le:
  "n - length (takeWhile (\<lambda>i. \<not> P i) (rev [0..<n])) \<le> k \<longleftrightarrow> (\<forall>i<n. k \<le> i \<longrightarrow> \<not> P i)"
proof (induction n)
  case (Suc n)
  then show ?case by (auto simp: less_Suc_eq not_less_eq_eq)
qed simp

lemma nat_less_exp_iff_bits: "(n :: nat) < 2 ^ k \<longleftrightarrow> (\<forall>i. k \<le> i \<longrightarrow> \<not> bit n i)"
proof -
  have "n < 2 ^ k \<longleftrightarrow> take_bit k n = n" by (rule take_bit_nat_eq_self_iff [symmetric])
  also have "\<dots> \<longleftrightarrow> (\<forall>i. k \<le> i \<longrightarrow> \<not> bit n i)"
  proof
    assume "take_bit k n = n"
    then show "\<forall>i. k \<le> i \<longrightarrow> \<not> bit n i" by (metis bit_take_bit_iff not_le)
  next
    assume "\<forall>i. k \<le> i \<longrightarrow> \<not> bit n i"
    then show "take_bit k n = n" by (intro bit_eqI) (metis bit_take_bit_iff not_le)
  qed
  finally show ?thesis .
qed

lemma leading_zeros_bit_width:
  assumes "x \<noteq> 0"
  shows "64 - leading_zeros x = bit_width (unat x)"
proof -
  have "64 - leading_zeros x \<le> k \<longleftrightarrow> unat x < 2 ^ k" for k
    unfolding leading_zeros_def takeWhile_rev_upt_le nat_less_exp_iff_bits
    using bit_imp_le_length [of x] by (auto simp: bit_unsigned_iff)
  then show ?thesis by (metis bit_width_unique)
qed

lemma limbs_bit_len_width: "limbs_bit_len v = bit_width (limbs_val v)"
proof (induction v rule: rev_induct)
  case (snoc x xs)
  then show ?case
    using leading_zeros_bit_width [of x] bit_width_add_high [OF limbs_val_less [of xs], of "unat x"]
    by (auto simp: limbs_bit_len_def limbs_val_append unat_gt_0)
qed (simp add: limbs_bit_len_def)

section \<open>Addition and subtraction\<close>

text \<open>
  \<open>overflowing_add\<close> and \<open>overflowing_sub\<close> return the wrapped result and the carry flag.
\<close>

definition overflowing_add :: "u64 \<Rightarrow> u64 \<Rightarrow> u64 \<times> bool" where
  "overflowing_add a b = (a + b, 2 ^ 64 \<le> unat a + unat b)"

definition overflowing_sub :: "u64 \<Rightarrow> u64 \<Rightarrow> u64 \<times> bool" where
  "overflowing_sub a b = (a - b, a < b)"

fun limbs_add_carry :: "limbs \<Rightarrow> limbs \<Rightarrow> u64 \<Rightarrow> limbs \<times> u64" where
  "limbs_add_carry (a # as) (b # bs) carry =
     (let (s1, c1) = overflowing_add a b;
          (s2, c2) = overflowing_add s1 carry;
          (out, c) = limbs_add_carry as bs (of_bool c1 + of_bool c2)
      in (s2 # out, c))"
| "limbs_add_carry _ _ carry = ([], carry)"

fun limbs_sub_borrow :: "limbs \<Rightarrow> limbs \<Rightarrow> u64 \<Rightarrow> limbs \<times> u64" where
  "limbs_sub_borrow (a # as) (b # bs) borrow =
     (let (d1, b1) = overflowing_sub a b;
          (d2, b2) = overflowing_sub d1 borrow;
          (out, c) = limbs_sub_borrow as bs (of_bool b1 + of_bool b2)
      in (d2 # out, c))"
| "limbs_sub_borrow _ _ borrow = ([], borrow)"

lemma unat_overflowing_add:
  "overflowing_add a b = (s, c) \<Longrightarrow> unat s + 2 ^ 64 * of_bool c = unat a + unat b"
  using unat_u64_lt [of a] unat_u64_lt [of b]
  by (auto simp: overflowing_add_def unat_word_ariths mod_if)

lemma unat_overflowing_sub:
  "overflowing_sub a b = (d, c) \<Longrightarrow> unat d + unat b = unat a + 2 ^ 64 * of_bool c"
  using unat_u64_lt [of a] unat_u64_lt [of b]
  by (auto simp: overflowing_sub_def unat_sub_if' word_less_nat_alt)

lemma limbs_add_carry_val:
  "length as = length bs \<Longrightarrow> unat carry \<le> 1 \<Longrightarrow> limbs_add_carry as bs carry = (out, c) \<Longrightarrow>
     length out = length as \<and> unat c \<le> 1 \<and>
     limbs_val out + 2 ^ (64 * length as) * unat c = limbs_val as + limbs_val bs + unat carry"
proof (induction as bs arbitrary: carry out rule: list_induct2)
  case (Cons a as b bs)
  obtain s1 c1 s2 c2 where o: "overflowing_add a b = (s1, c1)" "overflowing_add s1 carry = (s2, c2)"
    by (metis surj_pair)
  obtain out' where out: "limbs_add_carry as bs (of_bool c1 + of_bool c2) = (out', c)" "out = s2 # out'"
    using Cons.prems o by (auto split: prod.splits)
  note e = unat_overflowing_add [OF o(1)] unat_overflowing_add [OF o(2)]
  have "\<not> (c1 \<and> c2)" using e unat_u64_lt [of a] unat_u64_lt [of b] Cons.prems(1) by auto
  then have k: "unat (of_bool c1 + of_bool c2 :: u64) = of_bool c1 + of_bool c2" by auto
  have IH: "length out' = length as" "unat c \<le> 1"
    "limbs_val out' + 2 ^ (64 * length as) * unat c = limbs_val as + limbs_val bs + (of_bool c1 + of_bool c2)"
    using Cons.IH [OF _ out(1)] k \<open>\<not> (c1 \<and> c2)\<close> by (auto simp: of_bool_def split: if_splits)
  have "limbs_val out + 2 ^ (64 * length (a # as)) * unat c =
      unat s2 + 2 ^ 64 * (limbs_val out' + 2 ^ (64 * length as) * unat c)"
    by (simp add: out power_add algebra_simps)
  also have "\<dots> = unat s2 + 2 ^ 64 * (limbs_val as + limbs_val bs + (of_bool c1 + of_bool c2))"
    by (simp only: IH)
  also have "\<dots> = limbs_val (a # as) + limbs_val (b # bs) + unat carry"
    using e by (simp add: algebra_simps)
  finally show ?case using IH out by simp
qed simp

lemma limbs_sub_borrow_val:
  "length as = length bs \<Longrightarrow> unat borrow \<le> 1 \<Longrightarrow> limbs_sub_borrow as bs borrow = (out, c) \<Longrightarrow>
     length out = length as \<and> unat c \<le> 1 \<and>
     limbs_val out + limbs_val bs + unat borrow = limbs_val as + 2 ^ (64 * length as) * unat c"
proof (induction as bs arbitrary: borrow out rule: list_induct2)
  case (Cons a as b bs)
  obtain d1 b1 d2 b2 where o: "overflowing_sub a b = (d1, b1)" "overflowing_sub d1 borrow = (d2, b2)"
    by (metis surj_pair)
  obtain out' where out: "limbs_sub_borrow as bs (of_bool b1 + of_bool b2) = (out', c)" "out = d2 # out'"
    using Cons.prems o by (auto split: prod.splits)
  note e = unat_overflowing_sub [OF o(1)] unat_overflowing_sub [OF o(2)]
  have "\<not> (b1 \<and> b2)"
    using e unat_u64_lt [of a] unat_u64_lt [of b] unat_u64_lt [of d2] Cons.prems(1) by auto
  then have k: "unat (of_bool b1 + of_bool b2 :: u64) = of_bool b1 + of_bool b2" by auto
  have IH: "length out' = length as" "unat c \<le> 1"
    "limbs_val out' + limbs_val bs + (of_bool b1 + of_bool b2) = limbs_val as + 2 ^ (64 * length as) * unat c"
    using Cons.IH [OF _ out(1)] k \<open>\<not> (b1 \<and> b2)\<close> by (auto simp: of_bool_def split: if_splits)
  have "limbs_val (a # as) + 2 ^ (64 * length (a # as)) * unat c =
      unat a + 2 ^ 64 * (limbs_val as + 2 ^ (64 * length as) * unat c)"
    by (simp add: power_add algebra_simps)
  also have "\<dots> = unat a + 2 ^ 64 * (limbs_val out' + limbs_val bs + (of_bool b1 + of_bool b2))"
    by (simp only: IH)
  also have "\<dots> = limbs_val out + limbs_val (b # bs) + unat borrow"
    using e by (simp add: out algebra_simps)
  finally show ?case using IH out by simp
qed simp

end
