(* ===== verification/Hex.thy ===== *)
theory Hex
  imports Prelude
begin

text \<open>
  Hexadecimal strings, \<open>lib/consensus/src/hex.rs\<close>.  A string is its ASCII bytes.
\<close>

datatype hex_error = OddLength nat | InvalidChar nat u8

definition LUT :: bytes where
  "LUT = map (of_nat \<circ> of_char) ''0123456789abcdef''"

definition hex_encode :: "bytes \<Rightarrow> bytes" where
  "hex_encode bs = concat (map (\<lambda>b. [LUT ! unat (drop_bit 4 b), LUT ! unat (b AND 0x0f)]) bs)"

definition nibble :: "u8 \<Rightarrow> u8 option" where
  "nibble b =
     (if 0x30 \<le> b \<and> b \<le> 0x39 then Some (b - 0x30)
      else if 0x61 \<le> b \<and> b \<le> 0x66 then Some (b - 0x61 + 10)
      else if 0x41 \<le> b \<and> b \<le> 0x46 then Some (b - 0x41 + 10)
      else None)"

fun hex_decode_from :: "nat \<Rightarrow> bytes \<Rightarrow> bytes \<Rightarrow> hex_error + bytes" where
  "hex_decode_from i (a # b # rest) out =
     bindE (ok_or (nibble a) (InvalidChar i a)) (\<lambda>hi.
     bindE (ok_or (nibble b) (InvalidChar (i + 1) b)) (\<lambda>lo.
       hex_decode_from (i + 2) rest (out @ [push_bit 4 hi OR lo])))"
| "hex_decode_from i _ out = Inr out"

definition hex_decode :: "bytes \<Rightarrow> hex_error + bytes" where
  "hex_decode s =
     (if length s mod 2 \<noteq> 0 then Inl (OddLength (length s)) else hex_decode_from 0 s [])"

text \<open>ASCII lower case, the canonical spelling of a digit.\<close>

definition ascii_lower :: "u8 \<Rightarrow> u8" where
  "ascii_lower b = (if 0x41 \<le> b \<and> b \<le> 0x5A then b + 32 else b)"

lemma nibble_range:
  assumes "nibble a = Some h"
  shows "a \<in> set (map of_nat ([48..<58] @ [65..<71] @ [97..<103]))"
proof -
  have "unat a \<in> set ([48..<58] @ [65..<71] @ [97..<103])"
    using assms by (auto simp: nibble_def word_le_nat_alt simp del: upt_rec_numeral split: if_splits)
  then show ?thesis by (metis image_eqI list.set_map word_of_nat_unat)
qed

lemma hex_digit_checks:
  "list_all (\<lambda>n. nibble (LUT ! n) = Some (of_nat n)) [0..<16]"
  "list_all (\<lambda>a. case nibble a of None \<Rightarrow> False | Some h \<Rightarrow>
     unat h < 16 \<and> LUT ! unat h = ascii_lower a) (map of_nat ([48..<58] @ [65..<71] @ [97..<103]))"
  by code_simp+

lemma nibble_LUT: "n < 16 \<Longrightarrow> nibble (LUT ! n) = Some (of_nat n)"
  using hex_digit_checks(1) by (auto simp: list_all_iff)

lemma nibble_Some:
  assumes "nibble a = Some h"
  shows "unat h < 16" "LUT ! unat h = ascii_lower a"
  using hex_digit_checks(2) nibble_range [OF assms] assms unfolding list_all_iff
  by (fastforce split: option.splits)+

lemma byte_split:
  fixes b :: u8
  shows "unat (drop_bit 4 b) = unat b div 16" "unat (b AND 0x0f) = unat b mod 16"
    "push_bit 4 (drop_bit 4 b) OR (b AND 0x0f) = b"
proof -
  show "unat (drop_bit 4 b) = unat b div 16" by (simp add: drop_bit_eq_div unat_div)
  have m: "(0x0f :: u8) = mask 4" by (simp add: mask_eq_exp_minus_1)
  show "unat (b AND 0x0f) = unat b mod 16"
    unfolding m take_bit_eq_mask [symmetric] by (simp add: take_bit_eq_mod unat_mod)
  show "push_bit 4 (drop_bit 4 b) OR (b AND 0x0f) = b"
    unfolding m by (intro bit_word_eqI) (auto simp: bit_simps)
qed

lemma take_bit_nibble: "unat (l :: u8) < 16 \<Longrightarrow> take_bit 4 l = l"
  by (simp add: word_unat_eq_iff unsigned_take_bit_eq take_bit_nat_eq_self)

lemma byte_join:
  fixes h l :: u8
  assumes "unat h < 16" "unat l < 16"
  shows "drop_bit 4 (push_bit 4 h OR l) = h" "(push_bit 4 h OR l) AND 0x0f = l"
proof -
  have "bit h n \<Longrightarrow> n < 4" and "bit l n \<Longrightarrow> n < 4" for n
    using assms by (metis bit_take_bit_iff take_bit_nibble)+
  moreover have m: "(0x0f :: u8) = mask 4" by (simp add: mask_eq_exp_minus_1)
  ultimately show "drop_bit 4 (push_bit 4 h OR l) = h" "(push_bit 4 h OR l) AND 0x0f = l"
    unfolding m by (intro bit_word_eqI; fastforce simp: bit_simps)+
qed

lemma hex_encode_Cons:
  "hex_encode (b # bs) = LUT ! unat (drop_bit 4 b) # LUT ! unat (b AND 0x0f) # hex_encode bs"
  by (simp add: hex_encode_def)

lemma hex_decode_from_encode: "hex_decode_from i (hex_encode bs) out = Inr (out @ bs)"
proof (induction bs arbitrary: i out)
  case (Cons b bs)
  have "unat b div 16 < 16" "unat b mod 16 < 16" using unat_u8_lt [of b] by auto
  then have "nibble (LUT ! unat (drop_bit 4 b)) = Some (drop_bit 4 b)"
    "nibble (LUT ! unat (b AND 0x0f)) = Some (b AND 0x0f)"
    by (metis byte_split(1) nibble_LUT word_of_nat_unat, metis byte_split(2) nibble_LUT word_of_nat_unat)
  then show ?case
    using Cons [of "i + 2" "out @ [b]"] by (simp add: hex_encode_def byte_split(3))
qed (simp add: hex_encode_def)

lemma even_length_hex_encode: "length (hex_encode bs) = 2 * length bs"
  by (induction bs) (simp_all add: hex_encode_def)

lemma hex_encode_decode_from:
  "hex_decode_from i s out = Inr r \<Longrightarrow> even (length s) \<Longrightarrow>
     \<exists>bs. r = out @ bs \<and> hex_encode bs = map ascii_lower s"
proof (induction i s out rule: hex_decode_from.induct)
  case (1 i a b rest out)
  from "1.prems" obtain hi lo where n: "nibble a = Some hi" "nibble b = Some lo"
    and rec: "hex_decode_from (i + 2) rest (out @ [push_bit 4 hi OR lo]) = Inr r"
    by (auto simp: result_simps)
  from "1.IH" [OF rec] "1.prems" obtain bs where
    "r = (out @ [push_bit 4 hi OR lo]) @ bs" "hex_encode bs = map ascii_lower rest"
    by auto
  then show ?case
    using nibble_Some [OF n(1)] nibble_Some [OF n(2)]
    by (intro exI [of _ "(push_bit 4 hi OR lo) # bs"]) (simp only: hex_encode_Cons byte_join, simp)
qed (auto simp: hex_encode_def)

lemma upper_checks:
  "list_all (\<lambda>c. nibble (ascii_lower c) = nibble c) (map of_nat [65..<91])"
  by code_simp

lemma nibble_ascii_lower: "nibble (ascii_lower c) = nibble c"
proof (cases "0x41 \<le> c \<and> c \<le> 0x5A")
  case True
  then have "unat c \<in> set [65..<91]" by (auto simp: word_le_nat_alt simp del: upt_rec_numeral)
  then have "c \<in> set (map of_nat [65..<91])" by (metis image_eqI list.set_map word_of_nat_unat)
  then show ?thesis using upper_checks unfolding list_all_iff by blast
qed (simp only: ascii_lower_def if_False)

lemma hex_decode_from_lower:
  "hex_decode_from i (map ascii_lower s) out = Inr r \<longleftrightarrow> hex_decode_from i s out = Inr r"
  by (induction i s out rule: hex_decode_from.induct) (simp_all add: result_simps nibble_ascii_lower)

text \<open>
  Hex round trip: a string decodes to \<open>bs\<close> precisely when, up to the case of its letters,
  it is what \<open>hex_encode\<close> prints for \<open>bs\<close>.
\<close>
theorem hex_decode_iff_encode:
  "hex_decode s = Inr bs \<longleftrightarrow> hex_encode bs = map ascii_lower s"
proof
  assume "hex_decode s = Inr bs"
  then have "hex_decode_from 0 s [] = Inr bs" "even (length s)"
    by (auto simp: hex_decode_def mod2_eq_if split: if_splits)
  then show "hex_encode bs = map ascii_lower s" using hex_encode_decode_from by fastforce
next
  assume e: "hex_encode bs = map ascii_lower s"
  then have "even (length s)" using even_length_hex_encode [of bs] by simp
  moreover have "hex_decode_from 0 s [] = Inr bs"
    using hex_decode_from_encode [of 0 bs "[]"] hex_decode_from_lower by (simp add: e)
  ultimately show "hex_decode s = Inr bs" by (simp add: hex_decode_def mod2_eq_if)
qed

end
