(* ===== verification/Asert.thy ===== *)
theory Asert
  imports Limbs Hex Constants "HOL-Library.Signed_Division"
begin

text \<open>
  Proof-of-work targets and the difficulty rule of \<open>lib/consensus/src/asert.rs\<close>: 256-bit
  targets as four limbs, their compact form, and the ASERT update computed through a 320-bit
  product.  The \<open>i128\<close> values are integers; \<open>asert_i128_range\<close> shows that no intermediate
  leaves the type.
\<close>

section \<open>Targets\<close>

type_synonym target = limbs

definition wf_target :: "target \<Rightarrow> bool" where
  "wf_target t \<longleftrightarrow> length t = 4"

definition POW_LIMIT :: target where
  "POW_LIMIT = POW_LIMIT_LIMBS"

definition target_ZERO :: target where
  "target_ZERO = [0, 0, 0, 0]"

definition target_ONE :: target where
  "target_ONE = [1, 0, 0, 0]"

definition target_from_u64 :: "u64 \<Rightarrow> target" where
  "target_from_u64 v = [v, 0, 0, 0]"

definition target_is_zero :: "target \<Rightarrow> bool" where
  "target_is_zero t \<longleftrightarrow> t = [0, 0, 0, 0]"

definition target_low_u64 :: "target \<Rightarrow> u64" where
  "target_low_u64 t = t ! 0"

definition target_bit_len :: "target \<Rightarrow> nat" where
  "target_bit_len t = limbs_bit_len t"

definition target_shl :: "target \<Rightarrow> nat \<Rightarrow> target" where
  "target_shl t n = limbs_shl t n"

definition target_shr :: "target \<Rightarrow> nat \<Rightarrow> target" where
  "target_shr t n = (if 256 \<le> n then target_ZERO else limbs_shr t n)"

definition target_cmp :: "target \<Rightarrow> target \<Rightarrow> ordering" where
  "target_cmp a b = limbs_cmp a b"

datatype asert_error = NegativeCompact | OverflowCompact | ParentBelowAnchor | BadHex

definition target_from_be_hex :: "bytes \<Rightarrow> asert_error + target" where
  "target_from_be_hex s =
     bindE (mapE (\<lambda>_. BadHex) (hex_decode s)) (\<lambda>bs.
       if length bs \<noteq> 32 then Inl BadHex
       else Inr (map (\<lambda>i. from_be (sub_bytes bs (8 * (3 - i)) (8 * (3 - i) + 8))) [0..<4]))"

definition target_to_be_hex :: "target \<Rightarrow> bytes" where
  "target_to_be_hex t = hex_encode (concat (map (\<lambda>i. to_be 8 (t ! (3 - i))) [0..<4]))"

definition target_from_compact :: "u32 \<Rightarrow> asert_error + target" where
  "target_from_compact bits =
     (let size = unat (drop_bit 24 bits);
          word = (ucast (bits AND 0x007fffff) :: u64)
      in
      if word \<noteq> 0 \<and> bits AND 0x00800000 \<noteq> 0 then Inl NegativeCompact
      else if word = 0 then Inr target_ZERO
      else if 34 < size \<or> (0xff < word \<and> 33 < size) \<or> (0xffff < word \<and> 32 < size) then Inl OverflowCompact
      else if size \<le> 3 then Inr (target_from_u64 (drop_bit (8 * (3 - size)) word))
      else Inr (target_shl (target_from_u64 word) (8 * (size - 3))))"

definition target_to_compact :: "target \<Rightarrow> u32" where
  "target_to_compact t =
     (let size = (target_bit_len t + 7) div 8;
          compact = (if size \<le> 3 then push_bit (8 * (3 - size)) (target_low_u64 t)
                     else target_low_u64 (target_shr t (8 * (size - 3))));
          (compact, size) = (if compact AND 0x00800000 \<noteq> 0 then (drop_bit 8 compact, size + 1)
                             else (compact, size))
      in ucast compact OR push_bit 24 (of_nat size))"

definition GENESIS_BITS :: u32 where
  "GENESIS_BITS = target_to_compact POW_LIMIT"

section \<open>The difficulty rule\<close>

definition RADIX_BITS :: nat where [simp]: "RADIX_BITS = 16"
definition RADIX :: int where [simp]: "RADIX = 65536"
definition CUBE_C1 :: u128 where [simp]: "CUBE_C1 = 195766423245049"
definition CUBE_C2 :: u128 where [simp]: "CUBE_C2 = 971821376"
definition CUBE_C3 :: u128 where [simp]: "CUBE_C3 = 5127"

definition mul_256_by_64 :: "target \<Rightarrow> u64 \<Rightarrow> limbs" where
  "mul_256_by_64 a b = limbs_mul_carry a b 0"

definition bit_len_320 :: "limbs \<Rightarrow> nat" where
  "bit_len_320 v = limbs_bit_len v"

definition shr_320 :: "limbs \<Rightarrow> nat \<Rightarrow> limbs" where
  "shr_320 v n = (if 320 \<le> n then [0, 0, 0, 0, 0] else limbs_shr v n)"

definition shl_320 :: "limbs \<Rightarrow> nat \<Rightarrow> limbs" where
  "shl_320 v n = limbs_shl v n"

definition asert_exponent :: "u64 \<Rightarrow> int \<Rightarrow> int" where
  "asert_exponent height_diff time_diff =
     (let ideal = ASERT_TARGET_SPACING_SECS * (uint height_diff + 1)
      in ((time_diff - ideal) * RADIX) sdiv ASERT_HALF_LIFE_SECS)"

definition asert_factor :: "u64 \<Rightarrow> u64" where
  "asert_factor frac =
     (let f = (ucast frac :: u128)
      in of_int RADIX + ucast (drop_bit 48
           (CUBE_C1 * f + CUBE_C2 * f * f + CUBE_C3 * f * f * f + push_bit 47 1)))"

text \<open>The final clamp: overshoot to the limit, zero to one, and never above the limit.\<close>

definition asert_clamp :: "limbs \<Rightarrow> target \<Rightarrow> target" where
  "asert_clamp wide pow_limit =
     (if wide ! 4 \<noteq> 0 then pow_limit
      else
        let next_t = take 4 wide in
        if target_is_zero next_t then target_ONE
        else if target_cmp next_t pow_limit = Greater then pow_limit
        else next_t)"

definition asert_next_target_from_ref :: "target \<Rightarrow> u64 \<Rightarrow> int \<Rightarrow> target \<Rightarrow> target" where
  "asert_next_target_from_ref ref_target height_diff time_diff pow_limit =
     (let exponent = asert_exponent height_diff time_diff;
          shifts = drop_bit RADIX_BITS exponent;
          frac = (of_int (exponent AND 0xffff) :: u64);
          factor = asert_factor frac;
          wide = mul_256_by_64 ref_target factor;
          shifts = shifts - int RADIX_BITS
      in
      if shifts \<le> 0 then asert_clamp (shr_320 wide (nat (min (- shifts) 320))) pow_limit
      else
        let bl = int (bit_len_320 wide) in
        if bl \<noteq> 0
        then if 256 < bl + shifts then pow_limit
             else asert_clamp (shl_320 wide (nat shifts)) pow_limit
        else asert_clamp wide pow_limit)"

definition asert_next_target :: "u32 \<Rightarrow> u64 \<Rightarrow> u64 \<Rightarrow> u64 \<Rightarrow> u64 \<Rightarrow> target \<Rightarrow> asert_error + target" where
  "asert_next_target anchor_bits anchor_height anchor_parent_time parent_height parent_time pow_limit =
     (if parent_height < anchor_height then Inl ParentBelowAnchor
      else bindE (target_from_compact anchor_bits) (\<lambda>ref_target.
        let height_diff = parent_height - anchor_height;
            time_diff = uint parent_time - uint anchor_parent_time
        in Inr (asert_next_target_from_ref ref_target height_diff time_diff pow_limit)))"

definition asert_next_bits :: "u32 \<Rightarrow> u64 \<Rightarrow> u64 \<Rightarrow> u64 \<Rightarrow> u64 \<Rightarrow> target \<Rightarrow> asert_error + u32" where
  "asert_next_bits anchor_bits anchor_height anchor_parent_time parent_height parent_time pow_limit =
     bindE (asert_next_target anchor_bits anchor_height anchor_parent_time parent_height parent_time pow_limit)
       (\<lambda>t. Inr (target_to_compact t))"

section \<open>The exponent\<close>

lemma sdiv_mono:
  fixes x y c :: int
  assumes "x \<le> y" "0 < c"
  shows "x sdiv c \<le> y sdiv c"
proof -
  have "\<bar>x\<bar> div c = - (x sdiv c)" if "x < 0" for x using that assms by (simp add: signed_divide_int_def)
  moreover have "x sdiv c = x div c" if "0 \<le> x" for x
    using that assms by (cases "x = 0") (simp_all add: signed_divide_int_def)
  moreover have "- x div c \<ge> - y div c" using assms by (intro zdiv_mono1) simp_all
  moreover have "0 \<le> - x div c" if "x < 0" using that assms by (simp add: pos_imp_zdiv_nonneg_iff)
  moreover have "0 \<le> y div c" if "0 \<le> y" using that assms by (simp add: pos_imp_zdiv_nonneg_iff)
  moreover have "x div c \<le> y div c" using assms by (intro zdiv_mono1)
  ultimately show ?thesis using assms by (cases "x < 0"; cases "y < 0") fastforce+
qed

lemma asert_exponent_mono: "t \<le> t' \<Longrightarrow> asert_exponent h t \<le> asert_exponent h t'"
  unfolding asert_exponent_def Let_def by (intro sdiv_mono) simp_all

lemma asert_i128_range:
  assumes "\<bar>t\<bar> < 2 ^ 64"
  shows "\<bar>(t - ASERT_TARGET_SPACING_SECS * (uint (h :: u64) + 1)) * RADIX\<bar> < 2 ^ 127"
proof -
  define n where "n = unat h"
  have "uint h = int n" "n < 2 ^ 64" using unat_u64_lt [of h] by (simp_all only: n_def uint_nat)
  then show ?thesis using assms by (simp add: abs_less_iff)
qed

section \<open>The factor\<close>

definition cube_factor :: "nat \<Rightarrow> nat" where
  "cube_factor f = 65536 + (195766423245049 * f + 971821376 * f * f + 5127 * f * f * f + 2 ^ 47) div 2 ^ 48"

lemma cube_factor_mono: "f \<le> g \<Longrightarrow> cube_factor f \<le> cube_factor g"
  unfolding cube_factor_def by (intro add_mono div_le_mono mult_le_mono) simp_all

lemma cube_factor_ends: "cube_factor 0 = 65536" "cube_factor 65535 \<le> 131072"
  by (simp_all add: cube_factor_def)

lemma cube_factor_le: "f < 65536 \<Longrightarrow> cube_factor f \<le> 131072"
  using cube_factor_mono [of f 65535] cube_factor_ends by simp

lemma unat_asert_factor:
  assumes "unat frac < 65536"
  shows "unat (asert_factor frac) = cube_factor (unat frac)"
proof -
  define n where "n = unat frac"
  have n: "n \<le> 65535" using assms by (simp add: n_def)
  have b: "195766423245049 * n \<le> 195766423245049 * 65535" "971821376 * n * n \<le> 971821376 * 65535 * 65535"
    "5127 * n * n * n \<le> 5127 * 65535 * 65535 * 65535"
    by (intro mult_le_mono n order_refl)+
  define N where "N = 195766423245049 * n + 971821376 * n * n + 5127 * n * n * n + 2 ^ 47"
  have N: "N < 2 ^ 66" "N div 2 ^ 48 < 2 ^ 18" using b by (simp_all add: N_def less_mult_imp_div_less)
  have f: "(ucast frac :: u128) = of_nat n" by (simp add: n_def of_nat_unat)
  have "195766423245049 * (of_nat n :: u128) + 971821376 * of_nat n * of_nat n +
      5127 * of_nat n * of_nat n * of_nat n + push_bit 47 1 = of_nat N"
    by (simp add: N_def)
  then have e: "asert_factor frac = 65536 + ucast (drop_bit 48 (of_nat N :: u128))"
    by (simp add: asert_factor_def f)
  have "unat (of_nat N :: u128) = N" using N by (intro unat_of_nat_small) simp
  then have "unat (drop_bit 48 (of_nat N :: u128)) = N div 2 ^ 48" by (simp only: unat_drop_bit)
  then have "unat (ucast (drop_bit 48 (of_nat N :: u128)) :: u64) = N div 2 ^ 48"
    using N(2) by (simp only: unat_ucast_u128_u64) simp
  then have "unat (asert_factor frac) = 65536 + N div 2 ^ 48"
    unfolding e using N(2) by (subst unat_add_no_overflow) simp_all
  then show ?thesis by (simp add: cube_factor_def N_def n_def)
qed

section \<open>The specification\<close>

text \<open>
  The scaled reference target: \<open>ref\<close> times the factor times a power of two, rounded down.
\<close>

definition asert_scaled :: "nat \<Rightarrow> int \<Rightarrow> nat" where
  "asert_scaled ref e =
     (let p = ref * cube_factor (nat (e mod 65536)); k = e div 65536 - 16
      in if k \<le> 0 then p div 2 ^ nat (- k) else p * 2 ^ nat k)"

definition asert_spec :: "nat \<Rightarrow> int \<Rightarrow> nat \<Rightarrow> nat" where
  "asert_spec ref e limit = (let v = asert_scaled ref e in if v = 0 then 1 else min v limit)"

lemma asert_scaled_step: "asert_scaled ref e \<le> asert_scaled ref (e + 1)"
proof (cases "e mod 65536 = 65535")
  case False
  have r: "0 \<le> e mod 65536" "e mod 65536 < 65536" by simp_all
  have d: "e + 1 = 65536 * (e div 65536) + (e mod 65536 + 1)" by simp
  have e: "(e + 1) mod 65536 = e mod 65536 + 1" "(e + 1) div 65536 = e div 65536"
    using r False by (intro int_mod_pos_eq [OF d] int_div_pos_eq [OF d]; linarith)+
  have "cube_factor (nat (e mod 65536)) \<le> cube_factor (nat ((e + 1) mod 65536))"
    by (intro cube_factor_mono) (simp add: e)
  then show ?thesis unfolding asert_scaled_def Let_def e by (simp add: div_le_mono)
next
  case True
  have "e = 65536 * (e div 65536) + 65535" by (metis True mult_div_mod_eq)
  then have "e + 1 = 65536 * (e div 65536) + 65535 + 1" by (rule arg_cong)
  then have d: "e + 1 = 65536 * (e div 65536 + 1) + 0" by (simp only: distrib_left)
  have e: "(e + 1) mod 65536 = 0" "(e + 1) div 65536 = e div 65536 + 1"
    by (intro int_mod_pos_eq [OF d] int_div_pos_eq [OF d]; simp)+
  define k where "k = e div 65536 - 16"
  have k': "(e + 1) div 65536 - 16 = k + 1" by (simp add: e k_def)
  have p: "ref * cube_factor 65535 \<le> 2 * (ref * 65536)" using cube_factor_ends by simp
  have v: "asert_scaled ref e = (if k \<le> 0 then ref * cube_factor 65535 div 2 ^ nat (- k) else ref * cube_factor 65535 * 2 ^ nat k)"
    unfolding asert_scaled_def Let_def True k_def [symmetric] by (simp only: nat_numeral)
  have v': "asert_scaled ref (e + 1) = (if k + 1 \<le> 0 then ref * 65536 div 2 ^ nat (- (k + 1)) else ref * 65536 * 2 ^ nat (k + 1))"
    unfolding asert_scaled_def Let_def e(1) k' by (simp only: nat_0 cube_factor_ends)
  show ?thesis
  proof (cases "k < 0")
    case True
    then have n: "nat (- k) = Suc (nat (- (k + 1)))" by simp
    have "ref * cube_factor 65535 div 2 ^ nat (- k) \<le> 2 * (ref * 65536) div 2 ^ nat (- k)"
      by (rule div_le_mono [OF p])
    also have "\<dots> = ref * 65536 div 2 ^ nat (- (k + 1))" unfolding n by (simp add: mult.commute)
    finally show ?thesis unfolding v v' using True by simp
  next
    case False
    then have n: "nat (k + 1) = Suc (nat k)" by simp
    have "ref * cube_factor 65535 * 2 ^ nat k \<le> 2 * (ref * 65536) * 2 ^ nat k"
      by (rule mult_le_mono1 [OF p])
    then show ?thesis unfolding v v' n using False by (cases "k = 0") simp_all
  qed
qed

lemma asert_scaled_mono: "e \<le> e' \<Longrightarrow> asert_scaled ref e \<le> asert_scaled ref e'"
proof (induction e' rule: int_ge_induct)
  case (step i)
  then show ?case using asert_scaled_step [of ref i] by linarith
qed simp

lemma asert_spec_mono: "e \<le> e' \<Longrightarrow> 1 \<le> limit \<Longrightarrow> asert_spec ref e limit \<le> asert_spec ref e' limit"
  using asert_scaled_mono [of e e' ref] by (auto simp: asert_spec_def Let_def)

section \<open>The limb computation meets the specification\<close>

lemma limbs_val_split4:
  assumes "length w = 5"
  shows "limbs_val w = limbs_val (take 4 w) + 2 ^ 256 * unat (w ! 4)"
proof -
  have "drop 4 w = [w ! 4]" using Cons_nth_drop_Suc [of 4 w] assms by simp
  then have "w = take 4 w @ [w ! 4]" by (metis append_take_drop_id)
  then show ?thesis using limbs_val_append [of "take 4 w" "[w ! 4]"] assms by simp
qed

lemma target_is_zero_val: "length t = 4 \<Longrightarrow> target_is_zero t \<longleftrightarrow> limbs_val t = 0"
  using limbs_val_inj [of t "[0, 0, 0, 0]"] by (simp add: target_is_zero_def)

lemma asert_clamp_val:
  assumes "length w = 5" "wf_target limit"
  shows "limbs_val (asert_clamp w limit) = (if limbs_val w = 0 then 1 else min (limbs_val w) (limbs_val limit)) \<and>
    wf_target (asert_clamp w limit)"
proof -
  have lim: "limbs_val limit < 2 ^ 256" using limbs_val_less [of limit] assms by (simp add: wf_target_def)
  have w: "limbs_val w = limbs_val (take 4 w) + 2 ^ 256 * unat (w ! 4)" by (rule limbs_val_split4 [OF assms(1)])
  show ?thesis
  proof (cases "w ! 4 = 0")
    case True
    define t where "t = take 4 w"
    have t: "length t = 4" "limbs_val w = limbs_val t"
      using w True assms(1) by (simp_all add: t_def)
    have cmp: "target_cmp t limit = nat_cmp (limbs_val t) (limbs_val limit)"
      using t assms(2) by (simp add: target_cmp_def limbs_cmp_nat wf_target_def)
    have "asert_clamp w limit = (if limbs_val t = 0 then target_ONE
        else if limbs_val limit < limbs_val t then limit else t)"
      using True t by (simp add: asert_clamp_def cmp target_is_zero_val nat_cmp_def flip: t_def)
    then show ?thesis
      using t assms(2) by (simp add: wf_target_def target_ONE_def)
  next
    case False
    then have "1 \<le> unat (w ! 4)" by (simp add: Suc_le_eq unat_gt_0)
    then have "2 ^ 256 \<le> limbs_val w" unfolding w by (simp add: trans_le_add2)
    then show ?thesis using False lim assms by (simp add: asert_clamp_def)
  qed
qed

lemma asert_frac:
  "unat (of_int (e AND 0xffff) :: u64) = nat (e mod 65536)" "drop_bit 16 e = e div 65536"
proof -
  have mask: "(0xffff :: int) = mask 16" by (simp add: mask_eq_exp_minus_1)
  have m: "e AND 0xffff = e mod 65536"
    unfolding mask take_bit_eq_mask [symmetric] by (simp add: take_bit_eq_mod)
  have "uint (of_int (e mod 65536) :: u64) = e mod 65536"
    using pos_mod_bound [of 65536 e] by (simp add: uint_word_of_int_eq take_bit_int_eq_self)
  then show "unat (of_int (e AND 0xffff) :: u64) = nat (e mod 65536)"
    unfolding m by (metis nat_uint_eq)
  show "drop_bit 16 e = e div 65536" by (simp add: drop_bit_eq_div)
qed

lemma asert_next_target_from_ref_val:
  assumes "wf_target ref" "wf_target limit"
  shows "limbs_val (asert_next_target_from_ref ref h_diff t_diff limit) =
      asert_spec (limbs_val ref) (asert_exponent h_diff t_diff) (limbs_val limit) \<and>
    wf_target (asert_next_target_from_ref ref h_diff t_diff limit)"
proof -
  define e where "e = asert_exponent h_diff t_diff"
  define wide where "wide = mul_256_by_64 ref (asert_factor (of_int (e AND 0xffff)))"
  define k where "k = e div 65536 - 16"
  define p where "p = limbs_val ref * cube_factor (nat (e mod 65536))"
  have fr: "nat (e mod 65536) < 65536" by simp
  have wide: "limbs_val wide = p" "length wide = 5"
    using assms(1) unat_asert_factor [of "of_int (e AND 0xffff)"] fr
    by (simp_all add: wide_def p_def mul_256_by_64_def limbs_mul_carry_val asert_frac wf_target_def)
  have unf: "asert_next_target_from_ref ref h_diff t_diff limit =
      (if k \<le> 0 then asert_clamp (shr_320 wide (nat (min (- k) 320))) limit
       else if int (bit_len_320 wide) \<noteq> 0
         then if 256 < int (bit_len_320 wide) + k then limit else asert_clamp (shl_320 wide (nat k)) limit
         else asert_clamp wide limit)"
    unfolding asert_next_target_from_ref_def Let_def e_def [symmetric] wide_def [symmetric]
    by (simp add: asert_frac k_def)
  have lim: "limbs_val limit < 2 ^ 256" using limbs_val_less [of limit] assms by (simp add: wf_target_def)
  have spec: "asert_spec (limbs_val ref) e (limbs_val limit) =
      (if limbs_val w = 0 then 1 else min (limbs_val w) (limbs_val limit))"
    if "limbs_val w = asert_scaled (limbs_val ref) e" for w
    using that by (simp add: asert_spec_def Let_def)
  have sc: "asert_scaled (limbs_val ref) e = (if k \<le> 0 then p div 2 ^ nat (- k) else p * 2 ^ nat k)"
    by (simp add: asert_scaled_def Let_def p_def k_def)
  have p320: "p < 2 ^ 320" using limbs_val_less [of wide] wide by simp
  show ?thesis
  proof (cases "k \<le> 0")
    case True
    let ?w = "shr_320 wide (nat (min (- k) 320))"
    have "p div 2 ^ nat (- k) = 0" if "320 \<le> - k"
    proof -
      have "(2 :: nat) ^ 320 \<le> 2 ^ nat (- k)" using that by (intro power_increasing) auto
      then have "p < 2 ^ nat (- k)" by (rule less_le_trans [OF p320])
      then show ?thesis by (rule div_less)
    qed
    then have w: "limbs_val ?w = asert_scaled (limbs_val ref) e" "length ?w = 5"
      using True wide by (auto simp: sc shr_320_def limbs_shr_val min_def)
    show ?thesis
      unfolding unf e_def [symmetric] spec [OF w(1)] using asert_clamp_val [OF w(2) assms(2)] True by simp
  next
    case False
    show ?thesis
    proof (cases "p = 0")
      case True
      then have w: "limbs_val wide = asert_scaled (limbs_val ref) e" using False wide by (simp add: sc)
      show ?thesis
        unfolding unf e_def [symmetric] spec [OF w]
        using asert_clamp_val [OF wide(2) assms(2)] False True wide
        by (simp add: bit_len_320_def limbs_bit_len_width)
    next
      case p0: False
      have bl: "bit_len_320 wide = bit_width p" by (simp add: bit_len_320_def limbs_bit_len_width wide)
      have "bit_width p \<noteq> 0" using p0 bit_width_le [of p 0] by simp
      have pk: "p * 2 ^ nat k < 2 ^ 256 \<longleftrightarrow> int (bit_width p) + k \<le> 256"
        using bit_width_add_high [of 0 "nat k" p] p0 bit_width_le [of "p * 2 ^ nat k" 256] False
        by (auto simp: mult.commute)
      show ?thesis
      proof (cases "256 < int (bit_width p) + k")
        case True
        then have "2 ^ 256 \<le> p * 2 ^ nat k" using pk by linarith
        then have "asert_spec (limbs_val ref) e (limbs_val limit) = limbs_val limit"
          using lim False p0 by (simp add: asert_spec_def sc)
        then show ?thesis
          unfolding unf e_def [symmetric] using False True \<open>bit_width p \<noteq> 0\<close> assms(2) by (simp add: bl)
      next
        case fits: False
        let ?w = "shl_320 wide (nat k)"
        have "p * 2 ^ nat k < 2 ^ 320" using fits pk by (simp add: less_trans [of _ "2 ^ 256"])
        then have w: "limbs_val ?w = asert_scaled (limbs_val ref) e" "length ?w = 5"
          using False wide by (simp_all add: sc shl_320_def limbs_shl_val)
        show ?thesis
          unfolding unf e_def [symmetric] spec [OF w(1)]
          using asert_clamp_val [OF w(2) assms(2)] False fits \<open>bit_width p \<noteq> 0\<close> by (simp add: bl)
      qed
    qed
  qed
qed

lemma wf_target_from_compact: "target_from_compact bits = Inr t \<Longrightarrow> wf_target t"
  by (auto simp: target_from_compact_def Let_def wf_target_def target_ZERO_def target_from_u64_def
    target_shl_def split: if_splits)

lemma asert_next_target_Inr:
  assumes "asert_next_target b ah at ph pt limit = Inr t" "wf_target limit"
  obtains ref where "ah \<le> ph" "target_from_compact b = Inr ref" "wf_target t"
    "limbs_val t = asert_spec (limbs_val ref) (asert_exponent (ph - ah) (uint pt - uint at)) (limbs_val limit)"
  using assms asert_next_target_from_ref_val wf_target_from_compact
  by (auto simp: asert_next_target_def result_simps Let_def split: if_splits)

lemma asert_spec_bounds: "1 \<le> limit \<Longrightarrow> 1 \<le> asert_spec ref e limit \<and> asert_spec ref e limit \<le> limit"
  by (auto simp: asert_spec_def Let_def)

section \<open>Properties\<close>



text \<open>
  C13.  Later blocks are never harder: with the same anchor and heights, a later parent timestamp
  gives a next target at least as large, and every target lies between one and the limit.
\<close>
theorem asert_monotone_in_time:
  assumes "asert_next_target bits ah at ph pt limit = Inr t"
    and "asert_next_target bits ah at ph pt' limit = Inr t'"
    and "pt \<le> pt'" "wf_target limit" "limbs_val limit \<noteq> 0"
  shows "1 \<le> limbs_val t \<and> limbs_val t \<le> limbs_val t' \<and> limbs_val t' \<le> limbs_val limit"
proof -
  obtain ref where r: "target_from_compact bits = Inr ref"
    "limbs_val t = asert_spec (limbs_val ref) (asert_exponent (ph - ah) (uint pt - uint at)) (limbs_val limit)"
    using asert_next_target_Inr [OF assms(1,4)] .
  obtain ref' where r': "target_from_compact bits = Inr ref'"
    "limbs_val t' = asert_spec (limbs_val ref') (asert_exponent (ph - ah) (uint pt' - uint at)) (limbs_val limit)"
    using asert_next_target_Inr [OF assms(2,4)] .
  have "uint pt - uint at \<le> uint pt' - uint at" using assms(3) by (simp add: word_le_def)
  then have "limbs_val t \<le> limbs_val t'"
    using r r' assms(5) by (auto intro!: asert_spec_mono asert_exponent_mono)
  then show ?thesis using r r' assms(5) asert_spec_bounds by (simp add: Suc_leI)
qed

theorem asert_monotone_in_time_witness:
  "\<exists>t t'. asert_next_target 0x1F00FFFF 1 1000 5 1300 POW_LIMIT = Inr t \<and>
     asert_next_target 0x1F00FFFF 1 1000 5 1400 POW_LIMIT = Inr t' \<and>
     1 \<le> limbs_val t \<and> limbs_val t \<le> limbs_val t' \<and> limbs_val t' \<le> limbs_val POW_LIMIT"
proof -
  have "\<exists>t. asert_next_target 0x1F00FFFF 1 1000 5 1300 POW_LIMIT = Inr t"
    "\<exists>t. asert_next_target 0x1F00FFFF 1 1000 5 1400 POW_LIMIT = Inr t"
    by (simp_all add: asert_next_target_def target_from_compact_def)
  then show ?thesis
    using asert_monotone_in_time [of "0x1F00FFFF" 1 1000 5 1300 POW_LIMIT _ 1400]
    by (fastforce simp: wf_target_def POW_LIMIT_def)
qed

end
