(* ===== verification/Compact.thy ===== *)
theory Compact
  imports Asert
begin

text \<open>
  The compact form of targets (\<open>from_compact\<close>, \<open>to_compact\<close> of
  \<open>lib/consensus/src/asert.rs\<close>): what it denotes, how it rounds, and that it is stable.
\<close>

section \<open>Compact form\<close>

definition byte_len :: "nat \<Rightarrow> nat" where
  "byte_len n = (bit_width n + 7) div 8"

definition compact_mantissa :: "nat \<Rightarrow> nat" where
  "compact_mantissa n = (if byte_len n \<le> 3 then n * 256 ^ (3 - byte_len n) else n div 256 ^ (byte_len n - 3))"

text \<open>Size and mantissa of the compact form, and the value such a pair denotes.\<close>

definition compact_pair :: "nat \<Rightarrow> nat \<times> nat" where
  "compact_pair n =
     (if 2 ^ 23 \<le> compact_mantissa n then (byte_len n + 1, compact_mantissa n div 256)
      else (byte_len n, compact_mantissa n))"

definition compact_value :: "nat \<Rightarrow> nat \<Rightarrow> nat" where
  "compact_value sz word = (if sz \<le> 3 then word div 256 ^ (3 - sz) else word * 256 ^ (sz - 3))"

lemma byte_len_le: "byte_len n \<le> k \<longleftrightarrow> n < 256 ^ k"
proof -
  have "byte_len n \<le> k \<longleftrightarrow> bit_width n \<le> 8 * k" unfolding byte_len_def by linarith
  also have "\<dots> \<longleftrightarrow> n < 256 ^ k" by (simp add: bit_width_le power_mult)
  finally show ?thesis .
qed

lemma byte_len_bounds: "n < 256 ^ byte_len n" "0 < n \<Longrightarrow> 256 ^ (byte_len n - 1) \<le> n"
proof -
  show "n < 256 ^ byte_len n" using byte_len_le [of n "byte_len n"] by simp
  assume "0 < n"
  then have "0 < byte_len n" using byte_len_le [of n 0] by (cases "byte_len n") auto
  then have "\<not> byte_len n \<le> byte_len n - 1" by simp
  then show "256 ^ (byte_len n - 1) \<le> n" unfolding byte_len_le by (rule leI)
qed

lemma byte_len_eq: "256 ^ k \<le> n \<Longrightarrow> n < 256 ^ Suc k \<Longrightarrow> byte_len n = Suc k"
  using byte_len_le [of n k] byte_len_le [of n "Suc k"] by simp

lemma pow256_split: "j \<le> k \<Longrightarrow> (256 :: nat) ^ k = 256 ^ (k - j) * 256 ^ j"
  by (simp flip: power_add)

lemma compact_mantissa_bounds:
  assumes "0 < n"
  shows "compact_mantissa n < 2 ^ 24" "2 ^ 16 \<le> compact_mantissa n"
proof -
  let ?s = "byte_len n"
  note b = byte_len_bounds(1) [of n] byte_len_bounds(2) [OF assms]
  have s0: "0 < ?s" using assms byte_len_le [of n 0] by (cases "?s") auto
  have "compact_mantissa n < 256 ^ 3 \<and> 256 ^ 2 \<le> compact_mantissa n"
  proof (cases "?s \<le> 3")
    case True
    have "n * 256 ^ (3 - ?s) < 256 ^ ?s * 256 ^ (3 - ?s)" using b by simp
    moreover have "256 ^ (?s - 1) * 256 ^ (3 - ?s) \<le> n * 256 ^ (3 - ?s)" using b by simp
    moreover have "?s + (3 - ?s) = 3" "?s - 1 + (3 - ?s) = 2" using True s0 by simp_all
    ultimately show ?thesis using True by (simp add: compact_mantissa_def flip: power_add)
  next
    case False
    have "n < 256 ^ 3 * 256 ^ (?s - 3)" using b pow256_split [of 3 ?s] False by (simp add: mult.commute)
    moreover have "256 ^ 2 * 256 ^ (?s - 3) \<le> n" using b pow256_split [of 2 "?s - 1"] False
      by (simp add: mult.commute numeral_3_eq_3)
    ultimately show ?thesis
      using False by (simp add: compact_mantissa_def less_mult_imp_div_less less_eq_div_iff_mult_less_eq)
  qed
  then show "compact_mantissa n < 2 ^ 24" "2 ^ 16 \<le> compact_mantissa n" by simp_all
qed

lemma compact_pair_0: "compact_pair 0 = (0, 0)"
  by (simp add: compact_pair_def compact_mantissa_def byte_len_def)

text \<open>The pair keeps the top two or three bytes: it denotes \<open>n\<close> with the lower bytes cleared.\<close>

lemma compact_pair_small:
  assumes "compact_pair n = (sz, m)" "sz \<le> 3" "0 < n"
  shows "compact_value sz m = n"
proof (cases "2 ^ 23 \<le> compact_mantissa n")
  case True
  then have p: "sz = byte_len n + 1" "m = n * 256 ^ (3 - byte_len n) div 256"
    using assms(1,2) by (auto simp: compact_pair_def compact_mantissa_def)
  then have "(256 :: nat) ^ (3 - byte_len n) = 256 ^ (3 - sz) * 256"
    using assms(2) pow256_split [of 1 "3 - byte_len n"] by simp
  then show ?thesis using p assms(2) by (simp add: compact_value_def)
next
  case False
  then show ?thesis
    using assms by (auto simp: compact_pair_def compact_mantissa_def compact_value_def)
qed

lemma compact_pair_large:
  assumes "compact_pair n = (sz, m)" "3 < sz"
  shows "m = n div 256 ^ (sz - 3)" "compact_value sz m = n div 256 ^ (sz - 3) * 256 ^ (sz - 3)"
proof -
  show m: "m = n div 256 ^ (sz - 3)"
  proof (cases "2 ^ 23 \<le> compact_mantissa n")
    case True
    then have p: "sz = byte_len n + 1" "m = compact_mantissa n div 256"
      using assms(1) by (auto simp: compact_pair_def)
    show ?thesis
    proof (cases "byte_len n = 3")
      case False
      then have "compact_mantissa n = n div 256 ^ (byte_len n - 3)" "sz - 3 = Suc (byte_len n - 3)"
        using assms(2) p by (simp_all add: compact_mantissa_def)
      then show ?thesis using p(2) by (simp only: power_Suc2 div_mult2_eq)
    qed (use p in \<open>simp add: compact_mantissa_def\<close>)
  next
    case False
    then show ?thesis using assms by (auto simp: compact_pair_def compact_mantissa_def)
  qed
  then show "compact_value sz m = n div 256 ^ (sz - 3) * 256 ^ (sz - 3)"
    using assms(2) by (simp add: compact_value_def)
qed

lemma compact_pair_bounds:
  assumes "compact_pair n = (sz, m)" "0 < n"
  shows "2 ^ 15 \<le> m" "m < 2 ^ 23" "byte_len n \<le> sz" "sz \<le> byte_len n + 1" "byte_len n < sz \<Longrightarrow> m < 2 ^ 16"
  using assms compact_mantissa_bounds [of n]
  by (auto simp: compact_pair_def less_mult_imp_div_less split: if_splits)

lemma compact_value_bounds:
  assumes "compact_pair n = (sz, m)" "0 < n"
  shows "compact_value sz m \<le> n" "(n - compact_value sz m) * 2 ^ 15 \<le> n"
proof -
  have "compact_value sz m \<le> n \<and> (n - compact_value sz m) * 2 ^ 15 \<le> n"
  proof (cases "sz \<le> 3")
    case False
    let ?B = "256 ^ (sz - 3) :: nat"
    have v: "compact_value sz m = n div ?B * ?B" and m: "m = n div ?B"
      using compact_pair_large [OF assms(1)] False by simp_all
    have "n - n div ?B * ?B = n mod ?B" by (simp add: minus_div_mult_eq_mod)
    moreover have "n mod ?B * 2 ^ 15 \<le> ?B * m"
      using compact_pair_bounds(1) [OF assms] by (intro mult_le_mono) (simp_all add: less_imp_le)
    moreover have "?B * m \<le> n" by (simp add: m)
    ultimately show ?thesis by (simp add: v)
  qed (use compact_pair_small [OF assms(1) _ assms(2)] in simp)
  then show "compact_value sz m \<le> n" "(n - compact_value sz m) * 2 ^ 15 \<le> n" by simp_all
qed

lemma compact_pair_stable:
  assumes "compact_pair n = (sz, m)" "0 < n"
  shows "compact_pair (compact_value sz m) = (sz, m)"
proof (cases "sz \<le> 3")
  case True
  then show ?thesis using compact_pair_small [OF assms(1) _ assms(2)] assms(1) by simp
next
  case False
  then obtain j where j: "sz = j + 3" "0 < j" by (metis add.commute le_add_diff_inverse nat_le_linear not_le zero_less_diff)
  let ?B = "256 ^ j :: nat" and ?v = "compact_value sz m"
  have v: "?v = m * ?B" using False j by (simp add: compact_value_def)
  note b = compact_pair_bounds [OF assms]
  have up: "?v < 256 ^ byte_len n"
    using compact_value_bounds(1) [OF assms] byte_len_bounds(1) [of n] by (rule le_less_trans)
  show ?thesis
  proof (cases "byte_len n = sz")
    case True
    then have big: "2 ^ 16 \<le> m" "m < 2 ^ 23"
      using assms compact_mantissa_bounds [of n] by (auto simp: compact_pair_def split: if_splits)
    have low: "256 ^ (j + 2) \<le> ?v" using big by (simp add: v power_add)
    have "byte_len n = Suc (j + 2)" using True j by simp
    with up have "byte_len ?v = Suc (j + 2)" by (intro byte_len_eq [OF low]) (simp only:)
    then have "byte_len ?v = sz" using j by simp
    then have "compact_mantissa ?v = m" using j by (simp add: compact_mantissa_def v [unfolded j])
    then show ?thesis using big \<open>byte_len ?v = sz\<close> by (simp add: compact_pair_def)
  next
    case neq: False
    then have bl: "byte_len n = j + 2" using b j by simp
    have low: "256 ^ (j + 1) \<le> ?v" using b(1) by (simp add: v power_add)
    have "byte_len n = Suc (j + 1)" using bl by simp
    with up have "byte_len ?v = Suc (j + 1)" by (intro byte_len_eq [OF low]) (simp only:)
    then have "byte_len ?v = j + 2" by simp
    moreover have "compact_mantissa ?v = m * 256"
    proof (cases "j = 1")
      case False
      then obtain i where "j = Suc i" "0 < i" using j(2) by (cases j) auto
      then show ?thesis using \<open>byte_len ?v = j + 2\<close> by (simp add: compact_mantissa_def v mult.assoc)
    qed (use \<open>byte_len ?v = j + 2\<close> in \<open>simp add: compact_mantissa_def v\<close>)
    ultimately show ?thesis using b(1) j by (simp add: compact_pair_def)
  qed
qed

section \<open>The word operations\<close>

lemma unat_and_mask:
  assumes "m = mask n"
  shows "unat ((w :: 'a::len word) AND m) = unat w mod 2 ^ n"
  unfolding assms take_bit_eq_mask [symmetric] take_bit_eq_mod [symmetric]
  by (rule unsigned_take_bit_eq)

lemma and_single_bit:
  assumes "m = push_bit n 1" "n < LENGTH('a)"
  shows "(w :: 'a::len word) AND m \<noteq> 0 \<longleftrightarrow> bit w n"
proof -
  have "w AND push_bit n 1 = push_bit n (of_bool (bit w n))"
    by (intro bit_word_eqI) (auto simp: bit_simps)
  then show ?thesis using assms by (auto simp: push_bit_of_1)
qed

lemma bit_top:
  assumes "unat (w :: 'a::len word) < 2 ^ Suc n"
  shows "bit w n \<longleftrightarrow> 2 ^ n \<le> unat w"
proof -
  have "bit w n \<longleftrightarrow> bit (unat w) n" by (auto simp: bit_unsigned_iff dest: bit_imp_le_length)
  also have "\<dots> \<longleftrightarrow> odd (unat w div 2 ^ n)" by (simp add: bit_nat_iff bit_iff_odd)
  also have "\<dots> \<longleftrightarrow> 2 ^ n \<le> unat w"
  proof -
    have "unat w div 2 ^ n < 2" using assms by (simp add: less_mult_imp_div_less)
    then have "unat w div 2 ^ n = 0 \<or> unat w div 2 ^ n = 1" by linarith
    moreover have "2 ^ n \<le> unat w \<longleftrightarrow> unat w div 2 ^ n \<noteq> 0" by (simp add: div_eq_0_iff not_less)
    ultimately show ?thesis by auto
  qed
  finally show ?thesis .
qed

lemma compact_bits:
  assumes "m < 2 ^ 24" "sz < 256"
  shows "unat (of_nat m OR push_bit 24 (of_nat sz) :: u32) = m + 2 ^ 24 * sz"
proof -
  have "(of_nat m :: u32) = take_bit 24 (of_nat m)"
    using assms(1) by (simp add: word_unat_eq_iff unsigned_take_bit_eq take_bit_nat_eq_self unat_of_nat)
  then have "(of_nat m :: u32) OR push_bit 24 (of_nat sz) = of_nat m + push_bit 24 (of_nat sz)"
    by (intro disjunctive_add [symmetric]) (metis bit_push_bit_iff bit_take_bit_iff not_le)
  also have "\<dots> = of_nat (m + 2 ^ 24 * sz)" by (simp add: push_bit_eq_mult mult.commute)
  finally have e: "(of_nat m :: u32) OR push_bit 24 (of_nat sz) = of_nat (m + 2 ^ 24 * sz)" .
  show ?thesis unfolding e by (rule unat_of_nat_small) (use assms in simp)
qed

lemma unat_target_low: "wf_target t \<Longrightarrow> unat (target_low_u64 t) = limbs_val t mod 2 ^ 64"
  using unat_u64_lt by (cases t) (simp_all add: wf_target_def target_low_u64_def)

lemma unat_push_bit_u64: "unat (push_bit n (w :: u64)) = (unat w * 2 ^ n) mod 2 ^ 64"
  unfolding unsigned_push_bit_eq by (simp add: push_bit_eq_mult take_bit_eq_mod)

lemma target_byte_len: "(target_bit_len t + 7) div 8 = byte_len (limbs_val t)"
  by (simp add: target_bit_len_def limbs_bit_len_width byte_len_def)

lemma byte_len_target: "wf_target t \<Longrightarrow> byte_len (limbs_val t) \<le> 32"
  using limbs_val_less [of t] by (simp add: byte_len_le wf_target_def)

lemma compact_mantissa_less: "compact_mantissa n < 2 ^ 24"
  using compact_mantissa_bounds(1) [of n] by (cases "n = 0") (simp_all add: compact_mantissa_def)

lemma compact_word_mantissa:
  assumes "wf_target t"
  shows "unat (if byte_len (limbs_val t) \<le> 3 then push_bit (8 * (3 - byte_len (limbs_val t))) (target_low_u64 t)
    else target_low_u64 (target_shr t (8 * (byte_len (limbs_val t) - 3)))) = compact_mantissa (limbs_val t)"
proof -
  let ?n = "limbs_val t" and ?s = "byte_len (limbs_val t)"
  have pow: "(2 :: nat) ^ (8 * k) = 256 ^ k" for k by (simp add: power_mult)
  show ?thesis
  proof (cases "?s \<le> 3")
    case True
    have "?n < 256 ^ 3" using True by (simp only: byte_len_le [symmetric])
    then have "unat (target_low_u64 t) = ?n" using unat_target_low [OF assms] by simp
    moreover have "?n * 256 ^ (3 - ?s) < 2 ^ 64"
      using compact_mantissa_less [of ?n] True by (simp add: compact_mantissa_def)
    ultimately show ?thesis using True by (simp add: unat_push_bit_u64 pow compact_mantissa_def)
  next
    case False
    have "wf_target (target_shr t (8 * (?s - 3)))"
      using assms by (simp add: wf_target_def target_shr_def target_ZERO_def)
    moreover have "\<not> 32 \<le> ?s - 3" using byte_len_target [OF assms] by linarith
    then have "limbs_val (target_shr t (8 * (?s - 3))) = compact_mantissa ?n"
      using False by (simp add: target_shr_def limbs_shr_val pow compact_mantissa_def)
    moreover have "compact_mantissa ?n < 2 ^ 64" using compact_mantissa_less [of ?n] by simp
    ultimately show ?thesis using False unat_target_low by simp
  qed
qed

lemma target_to_compact_pair:
  assumes "wf_target t" "compact_pair (limbs_val t) = (sz, m)"
  shows "target_to_compact t = of_nat m OR push_bit 24 (of_nat sz)"
proof -
  define c :: u64 where "c = (if byte_len (limbs_val t) \<le> 3 then push_bit (8 * (3 - byte_len (limbs_val t))) (target_low_u64 t)
    else target_low_u64 (target_shr t (8 * (byte_len (limbs_val t) - 3))))"
  have c: "unat c = compact_mantissa (limbs_val t)" using compact_word_mantissa [OF assms(1)] by (simp add: c_def)
  have "(0x00800000 :: u64) = push_bit 23 1" by simp
  then have b: "c AND 0x00800000 \<noteq> 0 \<longleftrightarrow> 2 ^ 23 \<le> unat c"
    using and_single_bit [of "0x00800000" 23 c] bit_top [of c 23] compact_mantissa_less c by simp
  have u: "(ucast x :: u32) = of_nat (unat x)" for x :: u64 by (simp add: of_nat_unat)
  show ?thesis
    unfolding target_to_compact_def Let_def target_byte_len c_def [symmetric] b u
    using assms(2) by (auto simp: c unat_drop_bit compact_pair_def simp del: of_nat_unat)
qed

lemma target_from_compact_pair:
  assumes "m < 2 ^ 23" "sz \<le> 33" "sz = 33 \<Longrightarrow> m < 2 ^ 16"
  shows "\<exists>t. target_from_compact (of_nat m OR push_bit 24 (of_nat sz)) = Inr t \<and>
    limbs_val t = compact_value sz m"
proof -
  define b :: u32 where "b = of_nat m OR push_bit 24 (of_nat sz)"
  have b: "unat b = m + 2 ^ 24 * sz" using assms by (simp add: b_def compact_bits)
  have size: "unat (drop_bit 24 b) = sz" using assms(1) by (simp add: unat_drop_bit b)
  have "unat (b AND 0x007fffff) = unat b mod 2 ^ 23" by (rule unat_and_mask) (simp add: mask_eq_exp_minus_1)
  also have "\<dots> = m" using assms(1) unfolding b by (simp add: mod_mult_self2 [of m "2 ^ 23" "2 * sz", simplified])
  finally have am: "unat (b AND 0x007fffff) = m" .
  have word: "(ucast (b AND 0x007fffff) :: u64) = of_nat m" unfolding am [symmetric] by simp
  have um: "unat (of_nat m :: u64) = m" using assms(1) by (intro unat_of_nat_small) simp
  have "unat b div 2 ^ 23 = 2 * sz" using assms(1) unfolding b by simp
  then have "\<not> bit (unat b) 23" by (simp add: bit_iff_odd)
  then have "\<not> bit b 23" by (simp add: bit_unsigned_iff)
  then have neg: "b AND 0x00800000 = 0" using and_single_bit [of "0x00800000" 23 b] by simp
  have pow: "(2 :: nat) ^ (8 * k) = 256 ^ k" for k by (simp add: power_mult)
  have fits: "m * 256 ^ (sz - 3) < 2 ^ 256"
  proof (cases "sz = 33")
    case False
    then have "(256 :: nat) ^ (sz - 3) \<le> 256 ^ 29" using assms(2) by (intro power_increasing) auto
    then have "m * 256 ^ (sz - 3) \<le> m * 256 ^ 29" by (rule mult_le_mono2)
    also have "m * 256 ^ 29 < 2 ^ 256" using assms(1) by simp
    finally show ?thesis .
  qed (use assms(3) in simp)
  show ?thesis
  proof (cases "m = 0")
    case True
    then show ?thesis
      unfolding b_def [symmetric] target_from_compact_def Let_def size word neg
      by (simp add: target_ZERO_def compact_value_def)
  next
    case False
    then have nz: "(of_nat m :: u64) \<noteq> 0" using um by (metis unsigned_0)
    have ok: "\<not> (34 < sz \<or> (0xff < (of_nat m :: u64) \<and> 33 < sz) \<or> (0xffff < (of_nat m :: u64) \<and> 32 < sz))"
      using assms by (auto simp: word_less_nat_alt um)
    show ?thesis
      unfolding b_def [symmetric] target_from_compact_def Let_def size word neg
      using nz ok fits
      by (simp add: target_from_u64_def target_shl_def limbs_shl_val unat_drop_bit um pow compact_value_def)
  qed
qed

text \<open>
  C18.  Compact bits round a target down, by less than one part in \<open>2\<^sup>1\<^sup>5\<close>, and are stable: they
  always decode, the decoded target has the same bits, and it differs from the original only
  below the leading two or three bytes.
\<close>
theorem compact_round_trip:
  assumes "wf_target t"
  shows "\<exists>t'. target_from_compact (target_to_compact t) = Inr t' \<and> wf_target t' \<and>
    target_to_compact t' = target_to_compact t \<and>
    limbs_val t' \<le> limbs_val t \<and> (limbs_val t - limbs_val t') * 2 ^ 15 \<le> limbs_val t"
proof -
  obtain sz m where p: "compact_pair (limbs_val t) = (sz, m)" by fastforce
  have b: "m < 2 ^ 23" "sz \<le> 33" "sz = 33 \<Longrightarrow> m < 2 ^ 16"
    using compact_pair_bounds [OF p] byte_len_target [OF assms] p
    by (cases "limbs_val t = 0"; simp add: compact_pair_0)+
  obtain t' where t': "target_from_compact (target_to_compact t) = Inr t'" "limbs_val t' = compact_value sz m"
    using target_from_compact_pair [OF b] target_to_compact_pair [OF assms p] by auto
  have wf: "wf_target t'" using t'(1) by (rule wf_target_from_compact)
  have "compact_pair (compact_value sz m) = (sz, m)"
    using compact_pair_stable [OF p] p by (cases "limbs_val t = 0") (auto simp: compact_pair_0 compact_value_def)
  then have "target_to_compact t' = target_to_compact t"
    using target_to_compact_pair [OF wf, of sz m] target_to_compact_pair [OF assms p] t'(2) by simp
  moreover have "compact_value sz m \<le> limbs_val t \<and> (limbs_val t - compact_value sz m) * 2 ^ 15 \<le> limbs_val t"
    using compact_value_bounds [OF p] p by (cases "limbs_val t = 0") (auto simp: compact_pair_0 compact_value_def)
  ultimately show ?thesis using t' wf by auto
qed

theorem compact_round_trip_witness:
  "\<exists>t'. target_from_compact (target_to_compact POW_LIMIT) = Inr t' \<and> wf_target t' \<and>
    target_to_compact t' = target_to_compact POW_LIMIT \<and>
    limbs_val t' \<le> limbs_val POW_LIMIT \<and> (limbs_val POW_LIMIT - limbs_val t') * 2 ^ 15 \<le> limbs_val POW_LIMIT"
  using compact_round_trip [of POW_LIMIT] by (simp add: wf_target_def POW_LIMIT_def)

lemma GENESIS_BITS_value: "GENESIS_BITS = 0x1F00FFFF"
  by code_simp

end
