(* ===== verification/Work.thy ===== *)
theory Work
  imports Limbs
begin

text \<open>
  The 512-bit work arithmetic of \<open>lib/consensus/src/rules.rs\<close>: addition and subtraction with
  overflow detection, bitwise long division, and the work of a target.  The \<open>expect\<close> calls and
  the assertion of \<open>div_floor\<close> are the \<open>None\<close> branches; they are shown unreachable from
  \<open>work_from_target\<close>, whose value is \<open>2\<^sup>2\<^sup>5\<^sup>6\<close> divided by the target plus one.
\<close>

section \<open>Operations\<close>

type_synonym work = limbs

definition wf_work :: "work \<Rightarrow> bool" where
  "wf_work w \<longleftrightarrow> length w = 8"

definition work_ZERO :: work where
  "work_ZERO = replicate 8 0"

definition work_ONE :: work where
  "work_ONE = 1 # replicate 7 0"

definition two_pow_256 :: work where
  "two_pow_256 = work_ZERO[4 := 1]"

definition be_limb :: "bytes \<Rightarrow> u64" where
  "be_limb bs = foldl (\<lambda>v b. push_bit 8 v OR ucast b) 0 bs"

definition work_from_be256 :: "hash32 \<Rightarrow> work" where
  "work_from_be256 bs =
     map (\<lambda>i. be_limb (sub_bytes bs ((3 - i) * 8) ((3 - i) * 8 + 8))) [0..<4] @ replicate 4 0"

definition work_checked_add :: "work \<Rightarrow> work \<Rightarrow> work option" where
  "work_checked_add a b =
     (let (out, carry) = limbs_add_carry a b 0
      in if carry \<noteq> 0 then None else Some out)"

definition work_checked_sub :: "work \<Rightarrow> work \<Rightarrow> work option" where
  "work_checked_sub a b =
     (let (out, borrow) = limbs_sub_borrow a b 0
      in if borrow \<noteq> 0 then None else Some out)"

definition work_bit :: "work \<Rightarrow> nat \<Rightarrow> bool" where
  "work_bit w i \<longleftrightarrow> drop_bit (i mod 64) (w ! (i div 64)) AND 1 = 1"

definition work_set_bit :: "work \<Rightarrow> nat \<Rightarrow> work" where
  "work_set_bit w i = w[i div 64 := w ! (i div 64) OR push_bit (i mod 64) 1]"

fun shl1_carry :: "limbs \<Rightarrow> u64 \<Rightarrow> limbs" where
  "shl1_carry [] carry = []"
| "shl1_carry (limb # w) carry = (push_bit 1 limb OR carry) # shl1_carry w (drop_bit 63 limb)"

definition work_shl1_or :: "work \<Rightarrow> bool \<Rightarrow> work" where
  "work_shl1_or w low = shl1_carry w (of_bool low)"

definition work_cmp :: "work \<Rightarrow> work \<Rightarrow> ordering" where
  "work_cmp a b = limbs_cmp a b"

definition div_step :: "work \<Rightarrow> work \<Rightarrow> nat \<Rightarrow> work \<times> work \<Rightarrow> (work \<times> work) option" where
  "div_step num den i qr =
     (let (quot, rem) = qr;
          rem = work_shl1_or rem (work_bit num i)
      in if work_cmp rem den \<noteq> Less
         then (case work_checked_sub rem den of
             None \<Rightarrow> None
           | Some rem \<Rightarrow> Some (work_set_bit quot i, rem))
         else Some (quot, rem))"

text \<open>The loop over bit positions, from \<open>n - 1\<close> down to zero.\<close>

fun div_loop :: "work \<Rightarrow> work \<Rightarrow> nat \<Rightarrow> work \<times> work \<Rightarrow> (work \<times> work) option" where
  "div_loop num den 0 qr = Some qr"
| "div_loop num den (Suc i) qr =
     (case div_step num den i qr of None \<Rightarrow> None | Some qr \<Rightarrow> div_loop num den i qr)"

definition work_div_floor :: "work \<Rightarrow> work \<Rightarrow> work option" where
  "work_div_floor num den =
     (if den = work_ZERO then None
      else map_option fst (div_loop num den 512 (work_ZERO, work_ZERO)))"

definition work_from_target :: "hash32 \<Rightarrow> work option" where
  "work_from_target target_be =
     (case work_checked_add (work_from_be256 target_be) work_ONE of
        None \<Rightarrow> None
      | Some denom \<Rightarrow> work_div_floor two_pow_256 denom)"

section \<open>Addition, subtraction, comparison\<close>

lemma wf_work_consts [simp]: "wf_work work_ZERO" "wf_work work_ONE" "wf_work two_pow_256"
  by (simp_all add: wf_work_def work_ZERO_def work_ONE_def two_pow_256_def)

lemma two_pow_256_limbs: "two_pow_256 = [0, 0, 0, 0, 1, 0, 0, 0]"
  by code_simp

lemma val_work_consts [simp]:
  "limbs_val work_ZERO = 0" "limbs_val work_ONE = 1" "limbs_val two_pow_256 = 2 ^ 256"
  by (simp_all add: work_ZERO_def work_ONE_def two_pow_256_limbs)

lemma work_val_less: "wf_work w \<Longrightarrow> limbs_val w < 2 ^ 512"
  using limbs_val_less [of w] by (simp add: wf_work_def)

lemma work_val_inj: "wf_work a \<Longrightarrow> wf_work b \<Longrightarrow> limbs_val a = limbs_val b \<longleftrightarrow> a = b"
  by (simp add: wf_work_def limbs_val_inj)

lemma work_add_result:
  assumes "wf_work a" "wf_work b" "limbs_add_carry a b 0 = (out, k)"
  shows "wf_work out \<and> (k = 0 \<longleftrightarrow> limbs_val a + limbs_val b < 2 ^ 512) \<and>
    (k = 0 \<longrightarrow> limbs_val out = limbs_val a + limbs_val b)"
proof -
  have l: "length a = length b" using assms by (simp add: wf_work_def)
  have v: "length out = 8" "unat k \<le> 1" "limbs_val out + 2 ^ 512 * unat k = limbs_val a + limbs_val b"
    using limbs_add_carry_val [OF l _ assms(3)] assms(1) by (simp_all add: wf_work_def)
  have "k = 0 \<longleftrightarrow> unat k = 0" by (simp add: unat_eq_0)
  then show ?thesis using v work_val_less [of out] by (auto simp: wf_work_def)
qed

lemma work_sub_result:
  assumes "wf_work a" "wf_work b" "limbs_sub_borrow a b 0 = (out, k)"
  shows "wf_work out \<and> (k = 0 \<longleftrightarrow> limbs_val b \<le> limbs_val a) \<and>
    (k = 0 \<longrightarrow> limbs_val out + limbs_val b = limbs_val a)"
proof -
  have l: "length a = length b" using assms by (simp add: wf_work_def)
  have v: "length out = 8" "unat k \<le> 1" "limbs_val out + limbs_val b = limbs_val a + 2 ^ 512 * unat k"
    using limbs_sub_borrow_val [OF l _ assms(3)] assms(1) by (simp_all add: wf_work_def)
  have "k = 0 \<longleftrightarrow> unat k = 0" by (simp add: unat_eq_0)
  then show ?thesis
    using v work_val_less [of out] work_val_less [of b] assms(2) by (auto simp: wf_work_def)
qed

lemma work_checked_add_Some:
  assumes "wf_work a" "wf_work b"
  shows "work_checked_add a b = Some c \<longleftrightarrow> wf_work c \<and> limbs_val c = limbs_val a + limbs_val b"
proof -
  obtain out k where o: "limbs_add_carry a b 0 = (out, k)" by fastforce
  show ?thesis
    using work_add_result [OF assms o] work_val_less [of c] work_val_inj [of out c]
    by (auto simp: work_checked_add_def o)
qed

lemma work_checked_add_None:
  assumes "wf_work a" "wf_work b"
  shows "work_checked_add a b = None \<longleftrightarrow> 2 ^ 512 \<le> limbs_val a + limbs_val b"
proof -
  obtain out k where o: "limbs_add_carry a b 0 = (out, k)" by fastforce
  show ?thesis using work_add_result [OF assms o] by (auto simp: work_checked_add_def o)
qed

lemma work_checked_sub_Some:
  assumes "wf_work a" "wf_work b"
  shows "work_checked_sub a b = Some c \<longleftrightarrow> wf_work c \<and> limbs_val c + limbs_val b = limbs_val a"
proof -
  obtain out k where o: "limbs_sub_borrow a b 0 = (out, k)" by fastforce
  show ?thesis
    using work_sub_result [OF assms o] work_val_inj [of out c] by (auto simp: work_checked_sub_def o)
qed

lemma work_checked_sub_None:
  assumes "wf_work a" "wf_work b"
  shows "work_checked_sub a b = None \<longleftrightarrow> limbs_val a < limbs_val b"
proof -
  obtain out k where o: "limbs_sub_borrow a b 0 = (out, k)" by fastforce
  show ?thesis using work_sub_result [OF assms o] by (auto simp: work_checked_sub_def o)
qed

lemma work_cmp_nat: "wf_work a \<Longrightarrow> wf_work b \<Longrightarrow> work_cmp a b = nat_cmp (limbs_val a) (limbs_val b)"
  by (simp add: work_cmp_def limbs_cmp_nat wf_work_def)

section \<open>Long division\<close>

lemma or_low_bit:
  assumes "unat c \<le> 1"
  shows "unat (push_bit 1 x OR c :: u64) = (2 * unat x + unat c) mod 2 ^ 64"
proof -
  have c: "c = 0 \<or> c = 1" using assms by (metis One_nat_def le_Suc_eq le_zero_eq unat_1 unat_eq_0 word_unat_eq_iff)
  then have "push_bit 1 x OR c = push_bit 1 x + c"
    by (intro disjunctive_add [symmetric]) (auto simp: bit_simps bit_0)
  then have e: "push_bit 1 x OR c = of_nat (2 * unat x + unat c)"
    using c by (auto simp: push_bit_eq_mult of_nat_unat mult.commute)
  show ?thesis unfolding e unat_of_nat by simp
qed

lemma mod_carry:
  "0 < b \<Longrightarrow> s mod b + b * ((t + s div b) mod c) = (s + b * t) mod (b * c)" for b :: nat
  by (simp add: mod_mult2_eq)

lemma shl1_carry_val:
  "unat c \<le> 1 \<Longrightarrow> limbs_val (shl1_carry w c) = (2 * limbs_val w + unat c) mod 2 ^ (64 * length w)"
proof (induction w arbitrary: c)
  case (Cons x w)
  have d: "unat (drop_bit 63 x) = unat x div 2 ^ 63" by (rule unat_drop_bit)
  have top: "unat x div 2 ^ 63 \<le> 1" using unat_u64_lt [of x] by (simp add: less_mult_imp_div_less less_Suc_eq_le [symmetric])
  let ?s = "2 * unat x + unat c"
  have q: "?s div 2 ^ 64 = unat x div 2 ^ 63" using Cons.prems by simp
  have "limbs_val (shl1_carry (x # w) c) =
      ?s mod 2 ^ 64 + 2 ^ 64 * ((2 * limbs_val w + ?s div 2 ^ 64) mod 2 ^ (64 * length w))"
    unfolding q using Cons.IH [of "drop_bit 63 x"] or_low_bit [OF Cons.prems, of x] top d by simp
  also have "\<dots> = (?s + 2 ^ 64 * (2 * limbs_val w)) mod (2 ^ 64 * 2 ^ (64 * length w))"
    by (rule mod_carry) simp
  finally show ?case by (simp add: power_add algebra_simps)
qed simp

lemma work_shl1_or_val:
  assumes "wf_work w" "2 * limbs_val w + 1 < 2 ^ 512"
  shows "wf_work (work_shl1_or w b) \<and> limbs_val (work_shl1_or w b) = 2 * limbs_val w + of_bool b"
proof -
  have "length (shl1_carry w c) = length w" for c by (induction w arbitrary: c) simp_all
  then show ?thesis
    using assms shl1_carry_val [of "of_bool b" w] by (cases b) (simp_all add: work_shl1_or_def wf_work_def)
qed

lemma work_bit_iff:
  assumes "wf_work w" "i < 512"
  shows "work_bit w i \<longleftrightarrow> bit (limbs_val w) i"
proof -
  have "i div 64 < 8" using assms(2) by (simp add: less_mult_imp_div_less)
  then have "bit (limbs_val w) i \<longleftrightarrow> odd (drop_bit (i mod 64) (w ! (i div 64)))"
    using assms(1) by (simp add: wf_work_def bit_limbs_val flip: bit_iff_odd_drop_bit)
  then show ?thesis unfolding work_bit_def and_one_eq by (simp only: odd_iff_mod_2_eq_one)
qed

lemma work_set_bit_val:
  assumes "wf_work w" "i < 512" "\<not> bit (limbs_val w) i"
  shows "wf_work (work_set_bit w i) \<and> limbs_val (work_set_bit w i) = limbs_val w + 2 ^ i"
proof -
  have "limbs_val (work_set_bit w i) = set_bit i (limbs_val w)"
  proof (rule bit_eqI)
    fix k :: nat
    have eq: "i = k \<longleftrightarrow> k div 64 = i div 64 \<and> k mod 64 = i mod 64" by (metis div_mult_mod_eq)
    have one: "bit (2 ^ (i mod 64) :: u64) (k mod 64) \<longleftrightarrow> k mod 64 = i mod 64"
      by (auto simp: bit_exp_iff)
    have lt: "i div 64 < 8" using assms(2) by (simp add: less_mult_imp_div_less)
    show "bit (limbs_val (work_set_bit w i)) k \<longleftrightarrow> bit (set_bit i (limbs_val w)) k"
      using assms(1) lt
      by (cases "k div 64 = i div 64")
         (auto simp: work_set_bit_def bit_limbs_val bit_set_bit_iff bit_or_iff one eq wf_work_def)
  qed
  also have "\<dots> = limbs_val w + 2 ^ i" using assms(3) by (simp add: set_bit_eq)
  finally show ?thesis using assms(1) by (simp add: work_set_bit_def wf_work_def)
qed

lemma div_mod_decomp: "r < d \<Longrightarrow> (d * k + r) div d = k \<and> (d * k + r) mod d = r" for r d k :: nat
  by simp

lemma div_step_spec:
  assumes "wf_work num" "wf_work den" "0 < limbs_val den" "limbs_val den \<le> 2 ^ 511" "i < 512"
    and "wf_work q" "wf_work r"
    and q: "limbs_val q = limbs_val num div 2 ^ Suc i div limbs_val den * 2 ^ Suc i"
    and r: "limbs_val r = limbs_val num div 2 ^ Suc i mod limbs_val den"
  shows "\<exists>q' r'. div_step num den i (q, r) = Some (q', r') \<and> wf_work q' \<and> wf_work r' \<and>
    limbs_val q' = limbs_val num div 2 ^ i div limbs_val den * 2 ^ i \<and>
    limbs_val r' = limbs_val num div 2 ^ i mod limbs_val den"
proof -
  let ?n = "limbs_val num" and ?d = "limbs_val den"
  define b where "b = work_bit num i"
  have half: "?n div 2 ^ Suc i = ?n div 2 ^ i div 2" by (simp only: power_Suc2 div_mult2_eq)
  have b: "?n div 2 ^ i = 2 * (?n div 2 ^ Suc i) + of_bool b"
    unfolding b_def work_bit_iff [OF assms(1,5)] bit_iff_odd half of_bool_odd_eq_mod_2 by simp
  have rd: "limbs_val r < ?d" using assms(3) by (simp add: r)
  obtain r1 where r1: "work_shl1_or r b = r1" "wf_work r1" "limbs_val r1 = 2 * limbs_val r + of_bool b"
    using work_shl1_or_val [OF assms(7), of b] rd assms(4) by auto
  define Q where "Q = ?n div 2 ^ Suc i div ?d"
  have n: "?n div 2 ^ i = ?d * (2 * Q) + limbs_val r1"
  proof -
    define X where "X = ?n div 2 ^ Suc i"
    have "X = ?d * Q + limbs_val r" unfolding r Q_def X_def by simp
    then show ?thesis unfolding b r1(3) X_def [symmetric] by (simp add: algebra_simps)
  qed
  have r1d: "limbs_val r1 < 2 * ?d" using r1(3) rd by (cases b) simp_all
  show ?thesis
  proof (cases "?d \<le> limbs_val r1")
    case True
    obtain r2 where r2: "work_checked_sub r1 den = Some r2" "wf_work r2" "limbs_val r2 + ?d = limbs_val r1"
      using work_checked_sub_None [OF r1(2) assms(2)] work_checked_sub_Some [OF r1(2) assms(2)] True
      by (cases "work_checked_sub r1 den") auto
    have n': "?n div 2 ^ i = ?d * (2 * Q + 1) + limbs_val r2" using n r2(3) by simp
    have lt: "limbs_val r2 < ?d" using r2(3) r1d by simp
    have D: "?n div 2 ^ i div ?d = 2 * Q + 1" "?n div 2 ^ i mod ?d = limbs_val r2"
      unfolding n' using div_mod_decomp [OF lt] by blast+
    have "\<not> bit (limbs_val q) i" unfolding q Q_def [symmetric] by (simp add: bit_iff_odd)
    then have "wf_work (work_set_bit q i)" "limbs_val (work_set_bit q i) = (2 * Q + 1) * 2 ^ i"
      using work_set_bit_val [OF assms(6,5)] unfolding q Q_def [symmetric] by simp_all
    then show ?thesis
      using True r1 r2 D work_cmp_nat [OF r1(2) assms(2)]
      by (simp add: div_step_def Let_def nat_cmp_def flip: b_def)
  next
    case False
    then have D: "?n div 2 ^ i div ?d = 2 * Q" "?n div 2 ^ i mod ?d = limbs_val r1"
      unfolding n using div_mod_decomp [of "limbs_val r1" ?d "2 * Q"] by simp_all
    moreover have "limbs_val q = 2 * Q * 2 ^ i" unfolding q Q_def by simp
    ultimately show ?thesis
      using False r1 assms(6) work_cmp_nat [OF r1(2) assms(2)]
      by (simp add: div_step_def Let_def nat_cmp_def flip: b_def)
  qed
qed

lemma div_loop_spec:
  assumes "wf_work num" "wf_work den" "0 < limbs_val den" "limbs_val den \<le> 2 ^ 511" "n \<le> 512"
    and "wf_work q" "wf_work r"
    and "limbs_val q = limbs_val num div 2 ^ n div limbs_val den * 2 ^ n"
    and "limbs_val r = limbs_val num div 2 ^ n mod limbs_val den"
  shows "\<exists>q' r'. div_loop num den n (q, r) = Some (q', r') \<and> wf_work q' \<and>
    limbs_val q' = limbs_val num div limbs_val den"
  using assms(5-)
proof (induction n arbitrary: q r)
  case (Suc i)
  then show ?case
    using div_step_spec [OF assms(1-4), of i q r] Suc.IH by (auto split: option.splits)
qed auto

lemma work_div_floor_val:
  assumes "wf_work num" "wf_work den" "0 < limbs_val den" "limbs_val den \<le> 2 ^ 511"
  shows "\<exists>q. work_div_floor num den = Some q \<and> wf_work q \<and> limbs_val q = limbs_val num div limbs_val den"
proof -
  have "limbs_val num div 2 ^ 512 = 0" using work_val_less [OF assms(1)] by simp
  then show ?thesis
    using div_loop_spec [OF assms, of 512 work_ZERO work_ZERO] assms(3) by (auto simp: work_div_floor_def)
qed

section \<open>The work of a target\<close>

definition be_val :: "bytes \<Rightarrow> nat" where
  "be_val bs = le_val (rev bs)"

lemma be_val_Nil [simp]: "be_val [] = 0"
  by (simp add: be_val_def)

lemma be_val_snoc: "be_val (bs @ [b]) = be_val bs * 256 + unat b"
  by (simp add: be_val_def)

lemma be_val_append: "be_val (xs @ ys) = be_val xs * 256 ^ length ys + be_val ys"
proof (induction ys rule: rev_induct)
  case (snoc y ys)
  then show ?case using be_val_snoc [of "xs @ ys" y] by (simp add: be_val_snoc algebra_simps)
qed simp

lemma be_val_less: "be_val bs < 256 ^ length bs"
  using le_val_lt [of "rev bs"] by (simp add: be_val_def)

lemma unat_shift_byte:
  assumes "unat v < 2 ^ 56"
  shows "unat (push_bit 8 v OR ucast (b :: u8) :: u64) = unat v * 256 + unat b"
proof -
  have "(push_bit 8 v OR ucast b :: u64) = push_bit 8 v + ucast b"
    by (intro disjunctive_add [symmetric]) (auto simp: bit_simps dest: bit_imp_le_length)
  moreover have "(push_bit 8 v :: u64) = of_nat (unat v * 256)" "(ucast b :: u64) = of_nat (unat b)"
    by (simp_all add: push_bit_eq_mult of_nat_unat)
  ultimately have e: "(push_bit 8 v OR ucast b :: u64) = of_nat (unat v * 256 + unat b)"
    by (simp only: of_nat_add)
  show ?thesis unfolding e using assms unat_u8_lt [of b] by (intro unat_of_nat_small) simp
qed

lemma unat_be_limb: "length bs \<le> 8 \<Longrightarrow> unat (be_limb bs) = be_val bs"
proof (induction bs rule: rev_induct)
  case (snoc b bs)
  have "be_val bs < 256 ^ length bs" by (rule be_val_less)
  also have "(256 :: nat) ^ length bs \<le> 256 ^ 7" using snoc.prems by (intro power_increasing) auto
  finally have "unat (be_limb bs) < 2 ^ 56" using snoc by simp
  then show ?case using snoc unat_shift_byte [of "be_limb bs" b] by (simp add: be_limb_def be_val_snoc)
qed (simp add: be_limb_def)

lemma work_from_be256_val:
  assumes "length bs = 32"
  shows "wf_work (work_from_be256 bs)" "limbs_val (work_from_be256 bs) = be_val bs"
proof -
  show "wf_work (work_from_be256 bs)" by (simp add: wf_work_def work_from_be256_def)
  let ?s = "\<lambda>a b. be_val (sub_bytes bs a b)"
  have l: "unat (be_limb (sub_bytes bs a (a + 8))) = ?s a (a + 8)" for a
    by (intro unat_be_limb) (simp add: length_sub_bytes)
  have "bs = sub_bytes bs 0 8 @ sub_bytes bs 8 16 @ sub_bytes bs 16 24 @ sub_bytes bs 24 32"
    using assms by (simp add: sub_bytes_join sub_bytes_full)
  then have "be_val bs = ?s 0 8 * 256 ^ 24 + (?s 8 16 * 256 ^ 16 + (?s 16 24 * 256 ^ 8 + ?s 24 32))"
    using assms be_val_append [of "sub_bytes bs 0 8" "sub_bytes bs 8 16 @ sub_bytes bs 16 24 @ sub_bytes bs 24 32"]
      be_val_append [of "sub_bytes bs 8 16" "sub_bytes bs 16 24 @ sub_bytes bs 24 32"]
      be_val_append [of "sub_bytes bs 16 24" "sub_bytes bs 24 32"]
    by (simp add: length_sub_bytes)
  then show "limbs_val (work_from_be256 bs) = be_val bs"
    using l [of 0] l [of 8] l [of 16] l [of 24]
    by (simp add: work_from_be256_def upt_rec limbs_val_append)
qed

lemma work_from_target_val:
  assumes "length t = 32"
  shows "\<exists>w. work_from_target t = Some w \<and> wf_work w \<and> limbs_val w = 2 ^ 256 div (be_val t + 1)"
proof -
  note t = work_from_be256_val [OF assms]
  have b: "be_val t < 2 ^ 256" using be_val_less [of t] assms by simp
  obtain den where d: "work_checked_add (work_from_be256 t) work_ONE = Some den"
    using work_checked_add_None [OF t(1), of work_ONE] t(2) b
    by (cases "work_checked_add (work_from_be256 t) work_ONE") auto
  then have "wf_work den" "limbs_val den = be_val t + 1"
    using work_checked_add_Some [OF t(1), of work_ONE] t(2) by auto
  then show ?thesis
    using work_div_floor_val [of two_pow_256 den] d b by (simp add: work_from_target_def)
qed

text \<open>
  C21.  The work of a target is exact: the bitwise long division over eight limbs returns two to
  the power 256 divided by the target plus one, for every 32-byte target, and neither the
  assertion nor any \<open>expect\<close> on the way can fail.
\<close>
theorem work_from_target_correct:
  assumes "length t = 32"
  shows "\<exists>w. work_from_target t = Some w \<and> wf_work w \<and> limbs_val w = 2 ^ 256 div (be_val t + 1)"
  using work_from_target_val [OF assms] .

theorem work_from_target_correct_witness:
  "\<exists>w. work_from_target (0 # 0 # replicate 30 255) = Some w \<and> wf_work w \<and>
     limbs_val w = 2 ^ 256 div (be_val (0 # 0 # replicate 30 255) + 1)"
  using work_from_target_correct [of "0 # 0 # replicate 30 255"] by simp

text \<open>
  Work values are compared, added and subtracted as the numbers they denote: comparison from
  the top limb down agrees with the order of the values, addition fails exactly when the sum
  leaves 512 bits, subtraction exactly when it would go below zero, and both are exact otherwise.
\<close>
theorem work_arithmetic_correct:
  assumes "wf_work a" "wf_work b"
  shows "work_cmp a b = nat_cmp (limbs_val a) (limbs_val b) \<and>
    (case work_checked_add a b of None \<Rightarrow> 2 ^ 512 \<le> limbs_val a + limbs_val b
     | Some c \<Rightarrow> wf_work c \<and> limbs_val c = limbs_val a + limbs_val b) \<and>
    (case work_checked_sub a b of None \<Rightarrow> limbs_val a < limbs_val b
     | Some c \<Rightarrow> wf_work c \<and> limbs_val c + limbs_val b = limbs_val a)"
  using work_cmp_nat [OF assms] work_checked_add_Some [OF assms] work_checked_add_None [OF assms]
    work_checked_sub_Some [OF assms] work_checked_sub_None [OF assms]
  by (auto split: option.splits)

theorem work_arithmetic_correct_witness:
  "wf_work two_pow_256 \<and> wf_work work_ONE \<and>
   work_cmp two_pow_256 work_ONE = nat_cmp (limbs_val two_pow_256) (limbs_val work_ONE) \<and>
   (case work_checked_add two_pow_256 work_ONE of None \<Rightarrow> 2 ^ 512 \<le> limbs_val two_pow_256 + limbs_val work_ONE
     | Some c \<Rightarrow> wf_work c \<and> limbs_val c = limbs_val two_pow_256 + limbs_val work_ONE) \<and>
   (case work_checked_sub two_pow_256 work_ONE of None \<Rightarrow> limbs_val two_pow_256 < limbs_val work_ONE
     | Some c \<Rightarrow> wf_work c \<and> limbs_val c + limbs_val work_ONE = limbs_val two_pow_256)"
  using work_arithmetic_correct [of two_pow_256 work_ONE] by simp

end
