(* ===== verification/Time_Rules.thy ===== *)
theory Time_Rules
  imports Constants
begin

text \<open>
  Timestamps and maturity, from \<open>lib/consensus/src/rules.rs\<close>: the median of the last eleven
  block times, the window a block time must fall into, and coinbase maturity.  A panic (the
  assertion of \<open>median_time_past\<close>) is \<open>None\<close>.
\<close>

section \<open>Operations\<close>

datatype rule_error =
    EmptyCandidate
  | BadForkPoint
  | NonContiguousCandidate
  | ReorgTooDeep u64 u64
  | CheckpointShorteningAttack u64
  | CheckpointMismatch u64
  | InsufficientWork u64
  | TimestampTooOld u64 u64
  | TimestampTooFarInFuture u64 u64

definition time_window :: "u64 list \<Rightarrow> u64 list" where
  "time_window ts = drop (length ts - MEDIAN_TIME_SPAN) ts"

definition median_time_past :: "u64 list \<Rightarrow> u64 option" where
  "median_time_past ts =
     (if ts = [] then None
      else let srt = sort (time_window ts) in Some (srt ! (length srt div 2)))"

definition check_block_time :: "u64 \<Rightarrow> u64 \<Rightarrow> u64 \<Rightarrow> rule_error + unit" where
  "check_block_time mtp time local_time =
     (if time \<le> mtp then Inl (TimestampTooOld mtp time)
      else
        let limit = saturating_add local_time MAX_FUTURE_DRIFT_SECS in
        if limit < time then Inl (TimestampTooFarInFuture time limit)
        else Inr ())"

definition coinbase_is_mature :: "u64 \<Rightarrow> u64 \<Rightarrow> bool" where
  "coinbase_is_mature coinbase_height spend_height \<longleftrightarrow>
     coinbase_height \<le> spend_height \<and> COINBASE_MATURITY \<le> spend_height - coinbase_height"

definition spendable_balance :: "u128 \<Rightarrow> u128 \<Rightarrow> u128" where
  "spendable_balance balance immature = saturating_sub balance immature"

section \<open>The median\<close>

lemma length_time_window: "length (time_window ts) = min 11 (length ts)"
  by (simp add: time_window_def)

lemma sorted_nth_le_iff:
  fixes xs :: "'a::linorder list"
  assumes "sorted xs" "i < length xs"
  shows "m \<le> xs ! i \<longleftrightarrow> length xs - i \<le> length (filter (\<lambda>x. m \<le> x) xs)"
proof
  assume m: "m \<le> xs ! i"
  have "filter (\<lambda>x. m \<le> x) (drop i xs) = drop i xs"
    using assms by (intro filter_True) (auto simp: in_set_conv_nth intro!: order_trans [OF m sorted_nth_mono])
  then have "length (drop i xs) \<le> length (filter (\<lambda>x. m \<le> x) xs)"
    by (metis append_take_drop_id filter_append le_add2 length_append)
  then show "length xs - i \<le> length (filter (\<lambda>x. m \<le> x) xs)" by simp
next
  assume c: "length xs - i \<le> length (filter (\<lambda>x. m \<le> x) xs)"
  show "m \<le> xs ! i"
  proof (rule ccontr)
    assume "\<not> m \<le> xs ! i"
    then have lt: "xs ! i < m" by simp
    have "xs ! j < m" if "j \<le> i" for j
      using le_less_trans [OF sorted_nth_mono [OF assms(1) that assms(2)] lt] .
    then have "filter (\<lambda>x. m \<le> x) (take (Suc i) xs) = []"
      by (auto simp: filter_empty_conv in_set_conv_nth less_Suc_eq_le not_le)
    then have "length (filter (\<lambda>x. m \<le> x) xs) = length (filter (\<lambda>x. m \<le> x) (drop (Suc i) xs))"
      by (metis append_Nil append_take_drop_id filter_append)
    also have "\<dots> \<le> length xs - Suc i" using length_filter_le [of _ "drop (Suc i) xs"] by simp
    finally show False using c assms(2) by simp
  qed
qed

lemma length_filter_sort: "length (filter P (sort xs)) = length (filter P xs)"
  by (simp add: filter_sort)

lemma median_ge_iff:
  assumes "ts \<noteq> []" "median_time_past ts = Some m"
  shows "x \<le> m \<longleftrightarrow> length (time_window ts) - length (time_window ts) div 2 \<le>
    length (filter (\<lambda>t. x \<le> t) (time_window ts))"
proof -
  let ?w = "time_window ts"
  have "0 < length ?w" using assms(1) by (simp add: length_time_window)
  then have "length ?w div 2 < length (sort ?w)" by simp
  from sorted_nth_le_iff [OF sorted_sort this, of x] assms show ?thesis
    by (simp add: median_time_past_def length_filter_sort)
qed

lemma median_monotone:
  assumes "ts \<noteq> []" "median_time_past ts = Some m" "median_time_past (ts @ [t]) = Some m'" "m \<le> t"
  shows "m \<le> m'"
proof -
  let ?w = "time_window ts" and ?w' = "time_window (ts @ [t])"
  let ?P = "\<lambda>s. m \<le> s"
  have c: "length ?w - length ?w div 2 \<le> length (filter ?P ?w)"
    using median_ge_iff [OF assms(1,2), of m] by simp
  have w': "?w' = (if length ts < 11 then ts else drop 1 ?w) @ [t]"
  proof (cases "length ts < 11")
    case False
    then have "length ts - 10 = Suc (length ts - 11)" by simp
    then show ?thesis using False by (simp add: time_window_def)
  qed (simp add: time_window_def)
  have "length ?w' - length ?w' div 2 \<le> length (filter ?P ?w')"
  proof (cases "length ts < 11")
    case True
    then have "?w = ts" by (simp add: time_window_def)
    then show ?thesis using c True assms(4) by (simp add: w')
  next
    case False
    have l: "length ?w = 11" using False by (simp add: length_time_window)
    then obtain a r where w: "?w = a # r" by (cases ?w) auto
    have "length (filter ?P ?w) \<le> Suc (length (filter ?P r))" by (simp add: w)
    then show ?thesis using c l False assms(4) by (simp add: w' w)
  qed
  then show ?thesis using median_ge_iff [OF _ assms(3), of m] by simp
qed

section \<open>Properties\<close>

text \<open>
  Median time never goes back: if the next block's timestamp is accepted against the median
  of its ancestors, then the median of the extended chain is at least the old one.  So a
  timestamp rejected as too old can never become acceptable later.
\<close>
theorem median_time_monotone:
  assumes "median_time_past ts = Some m" "check_block_time m t local = Inr ()"
  shows "\<exists>m'. median_time_past (ts @ [t]) = Some m' \<and> m \<le> m'"
proof -
  have "ts \<noteq> []" using assms(1) by (auto simp: median_time_past_def)
  moreover have "m \<le> t" using assms(2) by (auto simp: check_block_time_def split: if_splits)
  moreover obtain m' where "median_time_past (ts @ [t]) = Some m'"
    by (simp add: median_time_past_def Let_def)
  ultimately show ?thesis using median_monotone assms(1) by blast
qed

theorem median_time_monotone_witness:
  "median_time_past [10, 30, 20] = Some 20 \<and> check_block_time 20 25 100 = Inr () \<and>
   (\<exists>m'. median_time_past ([10, 30, 20] @ [25]) = Some m' \<and> 20 \<le> m')"
proof -
  have m: "median_time_past [10, 30, 20] = Some 20"
    by (simp add: median_time_past_def time_window_def)
  have t: "check_block_time 20 25 100 = Inr ()"
    by (simp add: check_block_time_def saturating_add_def)
  show ?thesis using median_time_monotone [OF m t] m t by blast
qed

text \<open>
  A reward becomes spendable only when no permitted reorganisation can remove it: from the
  maturity height on, the block that pays it lies deeper than \<open>MAX_REORG_DEPTH\<close> below the
  block that spends it, and maturity is never lost at later heights.
\<close>
theorem mature_rewards_are_buried:
  assumes "coinbase_is_mature h s"
  shows "unat h + unat MAX_REORG_DEPTH < unat s \<and> (\<forall>s' \<ge> s. coinbase_is_mature h s')"
proof -
  from assms have le: "h \<le> s" and d: "60 \<le> unat (s - h)"
    by (auto simp: coinbase_is_mature_def word_le_nat_alt)
  have "unat (s - h) = unat s - unat h" using le by (rule unat_sub_le)
  then have "unat h + 60 \<le> unat s" using d le by (simp add: word_le_nat_alt)
  then show ?thesis
    by (auto simp: coinbase_is_mature_def word_le_nat_alt unat_sub_le)
qed

theorem mature_rewards_are_buried_witness:
  "coinbase_is_mature 5 70 \<and> unat (5 :: u64) + unat MAX_REORG_DEPTH < unat (70 :: u64) \<and>
   coinbase_is_mature 5 100"
proof -
  have m: "coinbase_is_mature 5 70" by (simp add: coinbase_is_mature_def)
  have "(70 :: u64) \<le> 100" by simp
  with mature_rewards_are_buried [OF m] m show ?thesis by blast
qed

end
