(* ===== verification/Signed_Checkpoint.thy ===== *)
theory Signed_Checkpoint
  imports Codec Hex Crypto
begin

text \<open>
  Signed checkpoints: the message, the threshold rule and the admission rule of
  \<open>lib/consensus/src/rules.rs\<close>, and the stored record of
  \<open>lib/consensus/src/checkpoint_record.rs\<close>.
\<close>

section \<open>Operations\<close>

record checkpoint_sig =
  cks_pubkey :: bytes
  cks_sig :: bytes

record signed_checkpoint =
  ckp_height :: u64
  ckp_hash :: hash32
  ckp_sigs :: "checkpoint_sig list"

record anchor =
  anchor_height :: u64
  anchor_hash :: hash32

definition ZERO_HASH :: hash32 where
  "ZERO_HASH = replicate 32 0"

definition anchor_supersedes :: "anchor option \<Rightarrow> anchor \<Rightarrow> bool" where
  "anchor_supersedes current candidate =
     (if anchor_height candidate = 0 \<or> anchor_hash candidate = ZERO_HASH then False
      else case current of
          None \<Rightarrow> True
        | Some cur \<Rightarrow> anchor_height cur < anchor_height candidate)"

text \<open>\<open>u64::to_string\<close>.\<close>

fun dec_string :: "nat \<Rightarrow> bytes" where
  "dec_string n = (if n < 10 then [of_nat (48 + n)] else dec_string (n div 10) @ [of_nat (48 + n mod 10)])"

declare dec_string.simps [simp del]

definition checkpoint_message :: "u64 \<Rightarrow> hash32 \<Rightarrow> bytes" where
  "checkpoint_message height hash =
     CHECKPOINT_MSG_PREFIX @ dec_string (unat height) @ [0x7C] @ hex_encode hash"

definition key_position :: "bytes list \<Rightarrow> bytes \<Rightarrow> nat option" where
  "key_position keys k = find (\<lambda>i. keys ! i = k) [0..<length keys]"

text \<open>The loop over the signatures: \<open>tried\<close> marks the authority keys already seen.\<close>

fun checkpoint_votes ::
  "'vk ed25519 \<Rightarrow> bytes list \<Rightarrow> bytes \<Rightarrow> nat \<Rightarrow> bool list \<Rightarrow> nat \<Rightarrow> checkpoint_sig list \<Rightarrow> bool" where
  "checkpoint_votes ed keys msg threshold tried valid [] = False"
| "checkpoint_votes ed keys msg threshold tried valid (s # sigs) =
     (case key_position keys (cks_pubkey s) of
        None \<Rightarrow> checkpoint_votes ed keys msg threshold tried valid sigs
      | Some key_idx \<Rightarrow>
          if tried ! key_idx then checkpoint_votes ed keys msg threshold tried valid sigs
          else
            let tried = tried[key_idx := True] in
            case ed_from_bytes ed (cks_pubkey s) of
              None \<Rightarrow> checkpoint_votes ed keys msg threshold tried valid sigs
            | Some vk \<Rightarrow>
                if ed_verify_strict ed vk msg (cks_sig s)
                then if threshold \<le> valid + 1 then True
                     else checkpoint_votes ed keys msg threshold tried (valid + 1) sigs
                else checkpoint_votes ed keys msg threshold tried valid sigs)"

definition verify_checkpoint :: "'vk ed25519 \<Rightarrow> signed_checkpoint \<Rightarrow> bytes list \<Rightarrow> nat \<Rightarrow> bool" where
  "verify_checkpoint ed cp authority_keys threshold =
     (if authority_keys = [] \<or> threshold = 0 \<or> length authority_keys < threshold then False
      else if length authority_keys < length (ckp_sigs cp) then False
      else if ckp_hash cp = ZERO_HASH then False
      else if CHECKPOINT_SUNSET_HEIGHT \<le> ckp_height cp then False
      else checkpoint_votes ed authority_keys (checkpoint_message (ckp_height cp) (ckp_hash cp)) threshold
        (replicate (length authority_keys) False) 0 (ckp_sigs cp))"

section \<open>The stored record\<close>

definition RECORD_VERSION :: u8 where [simp]: "RECORD_VERSION = 1"
definition SIGS_MAX :: nat where [simp]: "SIGS_MAX = 15"

datatype record_error =
    RecVersion u8 | RecTruncated nat nat | RecTooManySignatures nat | RecTrailingBytes nat

definition sig_bytes :: "checkpoint_sig \<Rightarrow> bytes" where
  "sig_bytes s = cks_pubkey s @ cks_sig s"

definition record_encode :: "signed_checkpoint \<Rightarrow> bytes" where
  "record_encode cp =
     (let n = min (length (ckp_sigs cp)) SIGS_MAX
      in [RECORD_VERSION] @ to_le 8 (ckp_height cp) @ ckp_hash cp @ [of_nat n] @
         concat (map sig_bytes (take n (ckp_sigs cp))))"

definition record_decode :: "bytes \<Rightarrow> record_error + signed_checkpoint" where
  "record_decode raw =
     (if length raw < 42 then Inl (RecTruncated (length raw) 42)
      else if raw ! 0 \<noteq> RECORD_VERSION then Inl (RecVersion (raw ! 0))
      else
        let height = from_le (sub_bytes raw 1 9);
            hash = sub_bytes raw 9 41;
            n = unat (raw ! 41)
        in
        if SIGS_MAX < n then Inl (RecTooManySignatures n)
        else
          let want = 42 + n * 96 in
          if length raw < want then Inl (RecTruncated (length raw) want)
          else if want < length raw then Inl (RecTrailingBytes (length raw - want))
          else Inr \<lparr> ckp_height = height, ckp_hash = hash,
            ckp_sigs = map (\<lambda>i. let at = 42 + i * 96 in
              \<lparr> cks_pubkey = sub_bytes raw at (at + 32), cks_sig = sub_bytes raw (at + 32) (at + 96) \<rparr>) [0..<n] \<rparr>)"

definition wf_checkpoint :: "signed_checkpoint \<Rightarrow> bool" where
  "wf_checkpoint cp \<longleftrightarrow> length (ckp_hash cp) = 32 \<and> length (ckp_sigs cp) \<le> SIGS_MAX \<and>
     list_all (\<lambda>s. length (cks_pubkey s) = 32 \<and> length (cks_sig s) = 64) (ckp_sigs cp)"

section \<open>The threshold rule\<close>

text \<open>
  The votes of a list of signatures: the authority keys whose first signature in the list is
  valid.  Later signatures of the same key are ignored.
\<close>

definition sig_valid :: "'vk ed25519 \<Rightarrow> bytes \<Rightarrow> checkpoint_sig \<Rightarrow> bool" where
  "sig_valid ed msg s \<longleftrightarrow>
     (case ed_from_bytes ed (cks_pubkey s) of None \<Rightarrow> False | Some vk \<Rightarrow> ed_verify_strict ed vk msg (cks_sig s))"

definition votes :: "'vk ed25519 \<Rightarrow> bytes list \<Rightarrow> bytes \<Rightarrow> checkpoint_sig list \<Rightarrow> bytes set" where
  "votes ed keys msg sigs =
     {k \<in> set keys. case find (\<lambda>s. cks_pubkey s = k) sigs of None \<Rightarrow> False | Some s \<Rightarrow> sig_valid ed msg s}"

lemma finite_votes [simp]: "finite (votes ed keys msg sigs)"
  by (simp add: votes_def)

lemma key_position_Some:
  "key_position keys k = Some i \<Longrightarrow> i < length keys \<and> keys ! i = k"
  by (auto simp: key_position_def find_Some_iff)

lemma key_position_None: "key_position keys k = None \<longleftrightarrow> k \<notin> set keys"
  by (auto simp: key_position_def find_None_iff in_set_conv_nth)

text \<open>\<open>tried\<close> marks exactly the first positions of the keys in \<open>K\<close>.\<close>

definition tried_set :: "bytes list \<Rightarrow> bool list \<Rightarrow> bytes set \<Rightarrow> bool" where
  "tried_set keys tried K \<longleftrightarrow> length tried = length keys \<and>
     (\<forall>k i. key_position keys k = Some i \<longrightarrow> (tried ! i \<longleftrightarrow> k \<in> K))"

lemma tried_set_insert:
  assumes "tried_set keys tried K" "key_position keys k = Some i"
  shows "tried_set keys (tried[i := True]) (insert k K)"
  unfolding tried_set_def
proof (intro conjI allI impI)
  show "length (tried[i := True]) = length keys" using assms by (simp add: tried_set_def)
  fix k' j assume j: "key_position keys k' = Some j"
  show "tried[i := True] ! j \<longleftrightarrow> k' \<in> insert k K"
    using assms j key_position_Some [OF j] key_position_Some [OF assms(2)]
    by (auto simp: tried_set_def nth_list_update)
qed

lemma votes_Cons:
  assumes "cks_pubkey s \<in> set keys"
  shows "votes ed keys msg (s # sigs) - K =
    (if cks_pubkey s \<in> K then votes ed keys msg sigs - K
     else (if sig_valid ed msg s then insert (cks_pubkey s) else id) (votes ed keys msg sigs - insert (cks_pubkey s) K))"
  using assms by (auto simp: votes_def split: if_splits)

lemma votes_Cons_foreign:
  "cks_pubkey s \<notin> set keys \<Longrightarrow> votes ed keys msg (s # sigs) = votes ed keys msg sigs"
  by (auto simp: votes_def)

lemma checkpoint_votes_iff:
  assumes "tried_set keys tried K" "valid < threshold"
  shows "checkpoint_votes ed keys msg threshold tried valid sigs \<longleftrightarrow>
    threshold \<le> valid + card (votes ed keys msg sigs - K)"
  using assms
proof (induction sigs arbitrary: tried valid K)
  case Nil
  then show ?case by (simp add: votes_def)
next
  case (Cons s sigs)
  let ?k = "cks_pubkey s"
  show ?case
  proof (cases "key_position keys ?k")
    case None
    then have "votes ed keys msg (s # sigs) = votes ed keys msg sigs"
      using votes_Cons_foreign key_position_None by blast
    then show ?thesis using None Cons by simp
  next
    case (Some i)
    then have k: "?k \<in> set keys" using key_position_None [of keys ?k] by auto
    have tr: "tried ! i \<longleftrightarrow> ?k \<in> K" using Cons.prems Some by (simp add: tried_set_def)
    show ?thesis
    proof (cases "?k \<in> K")
      case True
      then show ?thesis using Cons Some tr by (simp add: votes_Cons [OF k])
    next
      case False
      note IH = Cons.IH [OF tried_set_insert [OF Cons.prems(1) Some]]
      have card: "card (votes ed keys msg (s # sigs) - K) =
          (if sig_valid ed msg s then 1 else 0) + card (votes ed keys msg sigs - insert ?k K)"
        using False by (simp add: votes_Cons [OF k])
      show ?thesis
        using False Some tr Cons.prems IH [of valid] IH [of "valid + 1"]
        by (auto simp: card sig_valid_def split: option.splits)
    qed
  qed
qed


lemma verify_checkpoint_votes:
  "verify_checkpoint ed cp keys threshold \<longleftrightarrow>
     0 < threshold \<and> length (ckp_sigs cp) \<le> length keys \<and> threshold \<le> length keys \<and>
     ckp_hash cp \<noteq> ZERO_HASH \<and> ckp_height cp < CHECKPOINT_SUNSET_HEIGHT \<and>
     threshold \<le> card (votes ed keys (checkpoint_message (ckp_height cp) (ckp_hash cp)) (ckp_sigs cp))"
proof -
  let ?m = "checkpoint_message (ckp_height cp) (ckp_hash cp)"
  have "tried_set keys (replicate (length keys) False) {}"
    using key_position_Some by (fastforce simp: tried_set_def)
  from checkpoint_votes_iff [OF this, of 0 threshold ed ?m "ckp_sigs cp"]
  show ?thesis
    by (cases "keys = []") (auto simp: verify_checkpoint_def linorder_not_le linorder_not_less)
qed

section \<open>The signed message\<close>

definition dec_value :: "bytes \<Rightarrow> nat" where
  "dec_value bs = foldl (\<lambda>n b. 10 * n + (unat b - 48)) 0 bs"

lemma unat_digit: "d < 10 \<Longrightarrow> unat (of_nat (48 + d) :: u8) = 48 + d"
  by (simp add: unat_of_nat del: of_nat_add)

lemma dec_value_dec_string: "dec_value (dec_string n) = n"
proof (induction n rule: dec_string.induct)
  case (1 n)
  show ?case
  proof (cases "n < 10")
    case True
    then show ?thesis using unat_digit [of n] by (simp add: dec_string.simps [of n] dec_value_def)
  next
    case False
    then have "dec_string n = dec_string (n div 10) @ [of_nat (48 + n mod 10)]"
      by (simp add: dec_string.simps [of n])
    moreover have "foldl (\<lambda>n b. 10 * n + (unat b - 48)) 0 (dec_string (n div 10)) = n div 10"
      using 1 False by (simp add: dec_value_def)
    moreover have "unat (of_nat (48 + n mod 10) :: u8) - 48 = n mod 10"
      using unat_digit [of "n mod 10"] by simp
    ultimately show ?thesis by (simp add: dec_value_def del: of_nat_add)
  qed
qed

lemma dec_string_digits: "\<forall>b \<in> set (dec_string n). unat b < 58"
proof (induction n rule: dec_string.induct)
  case (1 n)
  have d: "d < 10 \<Longrightarrow> unat (of_nat (48 + d) :: u8) < 58" for d using unat_digit [of d] by simp
  show ?case
  proof (cases "n < 10")
    case True
    then show ?thesis using d [of n] by (simp add: dec_string.simps [of n])
  next
    case False
    then show ?thesis using d [of "n mod 10"] 1 by (simp add: dec_string.simps [of n])
  qed
qed

lemma split_at_separator:
  assumes "x \<notin> set as" "x \<notin> set bs" "as @ x # ps = bs @ x # qs"
  shows "as = bs \<and> ps = qs"
proof -
  have "takeWhile (\<lambda>c. c \<noteq> x) (as @ x # ps) = as" using assms(1) by (induction as) auto
  moreover have "takeWhile (\<lambda>c. c \<noteq> x) (bs @ x # qs) = bs" using assms(2) by (induction bs) auto
  ultimately show ?thesis using assms(3) by auto
qed

lemma hex_encode_inj: "hex_encode a = hex_encode b \<Longrightarrow> a = b"
  by (metis hex_decode_from_encode append_Nil sum.inject(2))

lemma separator_free: "0x7C \<notin> set (dec_string n)"
proof
  assume "0x7C \<in> set (dec_string n)"
  then have "unat (0x7C :: u8) < 58" using dec_string_digits by blast
  then show False by simp
qed

section \<open>The record codec\<close>

lemma record_sigs_concat:
  "42 + n * 96 \<le> length raw \<Longrightarrow>
   concat (map (\<lambda>i. sub_bytes raw (42 + i * 96) (42 + i * 96 + 32) @
       sub_bytes raw (42 + i * 96 + 32) (42 + i * 96 + 96)) [0..<n]) = sub_bytes raw 42 (42 + n * 96)"
proof (induction n)
  case 0
  then show ?case by (simp add: sub_bytes_def)
next
  case (Suc n)
  have "sub_bytes raw 42 (42 + n * 96) @ sub_bytes raw (42 + n * 96) (42 + n * 96 + 32) @
      sub_bytes raw (42 + n * 96 + 32) (42 + n * 96 + 96) = sub_bytes raw 42 (42 + Suc n * 96)"
    using Suc.prems by (simp add: sub_bytes_join)
  then show ?case using Suc by simp
qed


lemma sub_bytes_sig:
  assumes "list_all (\<lambda>s. length (cks_pubkey s) = 32 \<and> length (cks_sig s) = 64) sigs" "i < length sigs"
  shows "sub_bytes (concat (map sig_bytes sigs)) (i * 96) (i * 96 + 32) = cks_pubkey (sigs ! i) \<and>
    sub_bytes (concat (map sig_bytes sigs)) (i * 96 + 32) (i * 96 + 96) = cks_sig (sigs ! i)"
  using assms
proof (induction sigs arbitrary: i)
  case (Cons s sigs)
  then have l: "length (sig_bytes s) = 96" by (simp add: sig_bytes_def)
  show ?case
  proof (cases i)
    case 0
    then show ?thesis using Cons.prems by (simp add: sub_bytes_def sig_bytes_def)
  next
    case (Suc j)
    then show ?thesis using Cons.IH [of j] Cons.prems l by (simp add: sub_bytes_skip add.commute)
  qed
qed simp

lemma length_sigs_concat:
  "list_all (\<lambda>s. length (cks_pubkey s) = 32 \<and> length (cks_sig s) = 64) sigs \<Longrightarrow>
   length (concat (map sig_bytes sigs)) = length sigs * 96"
  by (induction sigs) (simp_all add: sig_bytes_def)

lemma record_decode_encode:
  assumes "wf_checkpoint cp"
  shows "record_decode (record_encode cp) = Inr cp"
proof -
  let ?n = "length (ckp_sigs cp)" and ?S = "concat (map sig_bytes (ckp_sigs cp))"
  let ?H = "[1] @ to_le 8 (ckp_height cp) @ ckp_hash cp @ [of_nat ?n]"
  have n: "?n \<le> 15" and h: "length (ckp_hash cp) = 32"
    and sl: "list_all (\<lambda>s. length (cks_pubkey s) = 32 \<and> length (cks_sig s) = 64) (ckp_sigs cp)"
    using assms by (simp_all add: wf_checkpoint_def)
  have lH: "length ?H = 42" using h by simp
  have raw: "record_encode cp = ?H @ ?S"
    using n by (simp add: record_encode_def Let_def)
  have lr: "length (record_encode cp) = 42 + ?n * 96"
    using raw lH length_sigs_concat [OF sl] by simp
  have c: "record_encode cp ! 41 = of_nat ?n" "unat (of_nat ?n :: u8) = ?n"
    using raw h n by (simp_all add: nth_append unat_of_nat)
  have f: "sub_bytes (record_encode cp) 1 9 = to_le 8 (ckp_height cp)"
      "sub_bytes (record_encode cp) 9 41 = ckp_hash cp"
    using raw h by (simp_all add: sub_bytes_def)
  have s: "sub_bytes (record_encode cp) (42 + a) (42 + b) = sub_bytes ?S a b" for a b
    unfolding raw using sub_bytes_skip [of ?H "42 + a" ?S "42 + b"] lH by (simp only: diff_add_inverse le_add1)
  have sig: "\<lparr> cks_pubkey = sub_bytes (record_encode cp) (42 + i * 96) (42 + i * 96 + 32),
       cks_sig = sub_bytes (record_encode cp) (42 + i * 96 + 32) (42 + i * 96 + 96) \<rparr> = ckp_sigs cp ! i"
    if "i < ?n" for i
    using sub_bytes_sig [OF sl that] s [of "i * 96" "i * 96 + 32"] s [of "i * 96 + 32" "i * 96 + 96"]
    by (simp add: add.assoc)
  have sigs: "map (\<lambda>i. \<lparr> cks_pubkey = sub_bytes (record_encode cp) (42 + i * 96) (42 + i * 96 + 32),
       cks_sig = sub_bytes (record_encode cp) (42 + i * 96 + 32) (42 + i * 96 + 96) \<rparr>) [0..<?n] = ckp_sigs cp"
    using map_cong [OF refl sig, of "[0..<?n]"] map_nth [of "ckp_sigs cp"] by (simp only: set_upt atLeastLessThan_iff)
  have "record_encode cp ! 0 = 1" using raw by simp
  then show ?thesis
    unfolding record_decode_def Let_def c f lr sigs using n
    by (simp add: from_le_to_le)
qed

lemma record_encode_decode:
  assumes "record_decode raw = Inr cp"
  shows "wf_checkpoint cp \<and> record_encode cp = raw"
proof -
  let ?n = "unat (raw ! 41)"
  have len: "length raw = 42 + ?n * 96" and v: "raw ! 0 = 1" and n: "?n \<le> 15"
    and cp: "cp = \<lparr> ckp_height = from_le (sub_bytes raw 1 9), ckp_hash = sub_bytes raw 9 41,
      ckp_sigs = map (\<lambda>i. \<lparr> cks_pubkey = sub_bytes raw (42 + i * 96) (42 + i * 96 + 32),
        cks_sig = sub_bytes raw (42 + i * 96 + 32) (42 + i * 96 + 96) \<rparr>) [0..<?n] \<rparr>"
    using assms by (auto simp: record_decode_def Let_def split: if_splits)
  have wf: "wf_checkpoint cp"
    using n len by (auto simp: cp wf_checkpoint_def list_all_iff length_sub_bytes)
  have sg: "concat (map sig_bytes (ckp_sigs cp)) = sub_bytes raw 42 (42 + ?n * 96)"
    using record_sigs_concat [of ?n raw] len by (simp add: cp comp_def sig_bytes_def)
  have "record_encode cp = sub_bytes raw 0 1 @ sub_bytes raw 1 9 @ sub_bytes raw 9 41 @ sub_bytes raw 41 42 @
      sub_bytes raw 42 (42 + ?n * 96)"
    using n len v single_sub_bytes [of 0 raw] single_sub_bytes [of 41 raw] sg
    by (simp add: record_encode_def Let_def cp to_le_from_le length_sub_bytes)
  also have "\<dots> = raw" using len by (simp add: sub_bytes_join sub_bytes_full)
  finally show ?thesis using wf by simp
qed

interpretation record_codec: byte_codec wf_checkpoint "\<lambda>cp. (Inr (record_encode cp) :: unit + bytes)" record_decode
  using record_decode_encode record_encode_decode by unfold_locales auto

section \<open>Properties\<close>

text \<open>
  C28.  A checkpoint is accepted exactly when the signature count and the threshold fit the
  authority list, the hash is not all zero, the height is below the sunset height, and at least
  \<open>threshold\<close> different authority keys have, as their first signature in the list, one
  that verifies over the message of this height and hash.  Repeating a signature never adds a
  vote.
\<close>
theorem verify_checkpoint_iff:
  "verify_checkpoint ed cp keys threshold \<longleftrightarrow>
     0 < threshold \<and> length (ckp_sigs cp) \<le> length keys \<and> threshold \<le> length keys \<and>
     ckp_hash cp \<noteq> ZERO_HASH \<and> ckp_height cp < CHECKPOINT_SUNSET_HEIGHT \<and>
     threshold \<le> card {k \<in> set keys.
       case find (\<lambda>s. cks_pubkey s = k) (ckp_sigs cp) of
         None \<Rightarrow> False
       | Some s \<Rightarrow> sig_valid ed (checkpoint_message (ckp_height cp) (ckp_hash cp)) s}"
  using verify_checkpoint_votes [of ed cp keys threshold] by (simp add: votes_def)

text \<open>
  The signed message determines the height and the hash: no signature over one checkpoint
  counts for another, although the height is printed with a variable number of digits.
\<close>
theorem checkpoint_message_binding:
  "checkpoint_message h a = checkpoint_message k b \<longleftrightarrow> h = k \<and> a = b"
proof
  assume "checkpoint_message h a = checkpoint_message k b"
  then have "dec_string (unat h) @ 0x7C # hex_encode a = dec_string (unat k) @ 0x7C # hex_encode b"
    by (simp add: checkpoint_message_def)
  from split_at_separator [OF separator_free separator_free this]
  have "dec_string (unat h) = dec_string (unat k)" "a = b" using hex_encode_inj by auto
  then have "unat h = unat k" by (metis dec_value_dec_string)
  then show "h = k \<and> a = b" using \<open>a = b\<close> by (simp add: word_unat_eq_iff)
qed simp

text \<open>
  C29.  The stored anchor record is a faithful codec: decoding returns a checkpoint exactly on the
  encoding of that checkpoint, so a stored record is never read back as anything else and has one
  byte form only.
\<close>
theorem record_decode_iff_encode:
  "record_decode raw = Inr cp \<longleftrightarrow> wf_checkpoint cp \<and> record_encode cp = raw"
  using record_codec.dec_iff [of raw cp] by simp

end
