(* ===== verification/Reorg_Rules.thy ===== *)
theory Reorg_Rules
  imports Work Time_Rules Signed_Checkpoint "HOL-Library.List_Lexorder" "HOL-Library.Monad_Syntax"
begin

text \<open>
  The reorganisation rule of \<open>lib/consensus/src/rules.rs\<close>: whether a candidate branch that
  forks off at \<open>start_height\<close> replaces the chain above that height.  The trait
  \<open>ChainView\<close> is a record of its four operations; \<open>view_ok\<close> states what its
  \<open>expect\<close> messages call the contract.  A panic is \<open>None\<close>.
\<close>

section \<open>Operations\<close>

record header_info =
  hi_height :: u64
  hi_hash :: hash32
  hi_time :: u64
  hi_target :: hash32

record chain_view =
  cv_len :: u64
  cv_header_at :: "u64 \<Rightarrow> header_info option"
  cv_header_by_hash :: "hash32 \<Rightarrow> header_info option"
  cv_cumulative_work :: work

definition view_tip :: "chain_view \<Rightarrow> header_info option" where
  "view_tip view = (if cv_len view = 0 then None else cv_header_at view (cv_len view - 1))"

datatype reorg_verdict = StrictlyMoreWork | TieBreak

record reorg_params =
  rp_anchor :: "anchor option"
  rp_checkpoints :: "(u64 \<times> hash32) list"
  rp_local_time :: u64

definition candidate_meets_anchor :: "anchor \<Rightarrow> u64 \<Rightarrow> header_info list \<Rightarrow> bool" where
  "candidate_meets_anchor anchor start_height candidate =
     (if anchor_height anchor = 0 \<or> anchor_hash anchor = ZERO_HASH then False
      else if anchor_height anchor < start_height then False
      else
        let idx = anchor_height anchor - start_height in
        if length candidate \<le> unat idx then False
        else hi_hash (candidate ! unat idx) = anchor_hash anchor)"

fun check_block_checkpoint :: "(u64 \<times> hash32) list \<Rightarrow> u64 \<Rightarrow> hash32 \<Rightarrow> rule_error + unit" where
  "check_block_checkpoint [] height hash = Inr ()"
| "check_block_checkpoint ((h, cp_hash) # cps) height hash =
     (if h = height \<and> cp_hash \<noteq> hash then Inl (CheckpointMismatch height)
      else check_block_checkpoint cps height hash)"

datatype checkpoint_admission = Admit | GenesisImmutable | NotHeldYet | HashConflict

definition checkpoint_admission_for :: "chain_view \<Rightarrow> u64 \<Rightarrow> hash32 \<Rightarrow> checkpoint_admission option" where
  "checkpoint_admission_for view height hash =
     (if height = 0 then Some GenesisImmutable
      else if cv_len view \<le> height then Some NotHeldYet
      else case cv_header_at view height of
          None \<Rightarrow> None
        | Some held \<Rightarrow> Some (if hi_hash held = hash then Admit else HashConflict))"

definition tie_break_prefers_candidate ::
  "u64 \<Rightarrow> work \<Rightarrow> work \<Rightarrow> header_info \<Rightarrow> header_info \<Rightarrow> bool" where
  "tie_break_prefers_candidate depth cand_work our_work cand_tip our_tip \<longleftrightarrow>
     depth = 1 \<and> cand_work = our_work \<and> hi_height cand_tip = hi_height our_tip \<and>
     hi_hash cand_tip < hi_hash our_tip"

text \<open>The contiguity loop; \<open>start_height + i\<close> is a checked addition.\<close>

fun contiguous_from :: "u64 \<Rightarrow> nat \<Rightarrow> header_info list \<Rightarrow> bool option" where
  "contiguous_from start_height i [] = Some True"
| "contiguous_from start_height i (h # hs) =
     (case checked_add start_height (of_nat i) of
        None \<Rightarrow> None
      | Some e \<Rightarrow> if hi_height h \<noteq> e then Some False else contiguous_from start_height (i + 1) hs)"

text \<open>The two summation loops; a missing header is the panic of \<open>header_at(..).expect\<close>.\<close>

fun sum_work :: "work \<Rightarrow> header_info option list \<Rightarrow> work option" where
  "sum_work acc [] = Some acc"
| "sum_work acc (None # hs) = None"
| "sum_work acc (Some h # hs) =
     (case work_from_target (hi_target h) of
        None \<Rightarrow> None
      | Some w \<Rightarrow> (case work_checked_add acc w of None \<Rightarrow> None | Some acc \<Rightarrow> sum_work acc hs))"

definition held_headers :: "chain_view \<Rightarrow> nat \<Rightarrow> nat \<Rightarrow> header_info option list" where
  "held_headers view a b = map (\<lambda>h. cv_header_at view (of_nat h)) [a..<b]"

definition candidate_work ::
  "chain_view \<Rightarrow> u64 \<Rightarrow> header_info list \<Rightarrow> work option" where
  "candidate_work view start_height candidate =
     do { discarded \<leftarrow> sum_work work_ZERO (held_headers view (unat start_height) (unat (cv_len view)));
          added \<leftarrow> sum_work work_ZERO (map Some candidate);
          rest \<leftarrow> work_checked_sub (cv_cumulative_work view) discarded;
          work_checked_add rest added }"

definition evaluate_reorg_with_cap ::
  "chain_view \<Rightarrow> u64 \<Rightarrow> header_info list \<Rightarrow> reorg_params \<Rightarrow> u64 \<Rightarrow> (rule_error + reorg_verdict) option" where
  "evaluate_reorg_with_cap view start_height candidate params cap =
     (if candidate = [] then Some (Inl EmptyCandidate)
      else
        let chain_len = cv_len view in
        if start_height = 0 \<or> chain_len < start_height then Some (Inl BadForkPoint)
        else case contiguous_from start_height 0 candidate of
          None \<Rightarrow> None
        | Some False \<Rightarrow> Some (Inl NonContiguousCandidate)
        | Some True \<Rightarrow>
        let depth = chain_len - start_height in
        do { our_tip \<leftarrow> view_tip view;
        if 0 < cap \<and> cap < depth \<and>
           \<not> (case rp_anchor params of None \<Rightarrow> False
              | Some a \<Rightarrow> candidate_meets_anchor a start_height candidate)
        then Some (Inl (ReorgTooDeep depth cap))
        else
        let our_tip_h = chain_len - 1 in
        do { end_h \<leftarrow> checked_add start_height (of_nat (length candidate));
        let new_tip_h = end_h - 1 in
        case find (\<lambda>(h, _). start_height \<le> h \<and> h \<le> our_tip_h \<and> new_tip_h < h) (rp_checkpoints params) of
          Some (h, _) \<Rightarrow> Some (Inl (CheckpointShorteningAttack h))
        | None \<Rightarrow>
        (case find (\<lambda>(h, cp_hash). start_height \<le> h \<and> h \<le> new_tip_h \<and>
               hi_hash (candidate ! unat (h - start_height)) \<noteq> cp_hash) (rp_checkpoints params) of
          Some (h, _) \<Rightarrow> Some (Inl (CheckpointMismatch h))
        | None \<Rightarrow>
        do { cand_work \<leftarrow> candidate_work view start_height candidate;
        if work_cmp cand_work (cv_cumulative_work view) = Greater then Some (Inr StrictlyMoreWork)
        else if tie_break_prefers_candidate depth cand_work (cv_cumulative_work view) (last candidate) our_tip
        then Some (Inr TieBreak)
        else Some (Inl (InsufficientWork depth)) }) } })"

definition evaluate_reorg ::
  "chain_view \<Rightarrow> u64 \<Rightarrow> header_info list \<Rightarrow> reorg_params \<Rightarrow> (rule_error + reorg_verdict) option" where
  "evaluate_reorg view start_height candidate params =
     evaluate_reorg_with_cap view start_height candidate params MAX_REORG_DEPTH"

section \<open>The contract of a chain view\<close>

definition header_work :: "header_info \<Rightarrow> nat" where
  "header_work h = 2 ^ 256 div (be_val (hi_target h) + 1)"

definition view_headers :: "chain_view \<Rightarrow> nat \<Rightarrow> nat \<Rightarrow> header_info list" where
  "view_headers view a b = map (\<lambda>h. the (cv_header_at view (of_nat h))) [a..<b]"

definition wf_header_info :: "header_info \<Rightarrow> bool" where
  "wf_header_info h \<longleftrightarrow> length (hi_target h) = 32"

definition view_ok :: "chain_view \<Rightarrow> bool" where
  "view_ok view \<longleftrightarrow> 0 < cv_len view \<and>
     (\<forall>n < unat (cv_len view). \<exists>h. cv_header_at view (of_nat n) = Some h \<and>
        hi_height h = of_nat n \<and> wf_header_info h) \<and>
     wf_work (cv_cumulative_work view) \<and>
     limbs_val (cv_cumulative_work view) = sum_list (map header_work (view_headers view 0 (unat (cv_len view))))"

lemma header_work_bounds: "header_work h \<le> 2 ^ 256"
  by (simp add: header_work_def)

lemma sum_header_work_bound: "sum_list (map header_work hds) \<le> length hds * 2 ^ 256"
  using header_work_bounds by (induction hds) (auto simp: add_mono)

lemma sum_work_val:
  assumes "wf_work acc" "\<forall>h \<in> set hds. wf_header_info h"
    "limbs_val acc + sum_list (map header_work hds) < 2 ^ 512"
  shows "\<exists>w. sum_work acc (map Some hds) = Some w \<and> wf_work w \<and>
    limbs_val w = limbs_val acc + sum_list (map header_work hds)"
  using assms
proof (induction hds arbitrary: acc)
  case (Cons h hds)
  obtain w where w: "work_from_target (hi_target h) = Some w" "wf_work w" "limbs_val w = header_work h"
    using work_from_target_val [of "hi_target h"] Cons.prems by (auto simp: wf_header_info_def header_work_def)
  have "work_checked_add acc w \<noteq> None"
    using work_checked_add_None [of acc w] Cons.prems w by simp
  then obtain c where c: "work_checked_add acc w = Some c" by blast
  then have "wf_work c" "limbs_val c = limbs_val acc + header_work h"
    using work_checked_add_Some [of acc w c] Cons.prems w by simp_all
  then show ?case using Cons.IH [of c] Cons.prems w(1) c by (simp add: add.assoc)
qed simp

lemma view_header:
  assumes "view_ok view" "n < unat (cv_len view)"
  obtains h where "cv_header_at view (of_nat n) = Some h" "hi_height h = of_nat n" "wf_header_info h"
  using assms by (auto simp: view_ok_def)

lemma held_headers_view:
  assumes "view_ok view" "b \<le> unat (cv_len view)"
  shows "held_headers view a b = map Some (view_headers view a b)"
  unfolding held_headers_def view_headers_def map_map
proof (rule map_cong [OF refl])
  fix n assume "n \<in> set [a..<b]"
  then have "n < unat (cv_len view)" using assms(2) by simp
  then show "cv_header_at view (of_nat n) = (Some \<circ> (\<lambda>n. the (cv_header_at view (of_nat n)))) n"
    using view_header [OF assms(1)] by (metis comp_apply option.sel)
qed

lemma view_headers_wf:
  assumes "view_ok view" "b \<le> unat (cv_len view)"
  shows "\<forall>h \<in> set (view_headers view a b). wf_header_info h"
proof
  fix h assume "h \<in> set (view_headers view a b)"
  then obtain n where "n < b" "h = the (cv_header_at view (of_nat n))"
    by (auto simp: view_headers_def)
  moreover from this have "n < unat (cv_len view)" using assms(2) by simp
  ultimately show "wf_header_info h" using view_header [OF assms(1)] by (metis option.sel)
qed

lemma view_headers_split:
  "a \<le> b \<Longrightarrow> view_headers view 0 b = view_headers view 0 a @ view_headers view a b"
  using upt_add_eq_append [of 0 a "b - a"] by (simp add: view_headers_def flip: map_append)


lemma candidate_work_val:
  assumes ok: "view_ok view" and le: "start \<le> cv_len view" and wf: "\<forall>h \<in> set cand. wf_header_info h"
    and len: "length cand < 2 ^ 64"
  shows "\<exists>w. candidate_work view start cand = Some w \<and> wf_work w \<and>
    limbs_val w + sum_list (map header_work (view_headers view (unat start) (unat (cv_len view)))) =
      limbs_val (cv_cumulative_work view) + sum_list (map header_work cand)"
proof -
  let ?n = "unat (cv_len view)" and ?s = "unat start"
  let ?W = "limbs_val (cv_cumulative_work view)" and ?D = "sum_list (map header_work (view_headers view ?s ?n))"
  let ?A = "sum_list (map header_work cand)"
  have W: "?W = sum_list (map header_work (view_headers view 0 ?s)) + ?D"
    using ok le view_headers_split [of ?s ?n view] by (simp add: view_ok_def word_le_nat_alt)
  have "?W \<le> ?n * 2 ^ 256"
    using ok sum_header_work_bound [of "view_headers view 0 ?n"] by (simp add: view_ok_def view_headers_def)
  moreover have "?n * 2 ^ 256 \<le> 2 ^ 64 * (2 ^ 256 :: nat)"
    using unat_u64_lt [of "cv_len view"] by (intro mult_right_mono) simp_all
  ultimately have bW: "?W \<le> 2 ^ 320" by simp
  have "?A \<le> length cand * 2 ^ 256" by (rule sum_header_work_bound)
  moreover have "length cand * 2 ^ 256 \<le> 2 ^ 64 * (2 ^ 256 :: nat)"
    using len by (intro mult_right_mono) simp_all
  ultimately have bA: "?A \<le> 2 ^ 320" by simp
  obtain d where d: "sum_work work_ZERO (held_headers view ?s ?n) = Some d" "wf_work d" "limbs_val d = ?D"
    using sum_work_val [of work_ZERO "view_headers view ?s ?n"] view_headers_wf [OF ok, of ?n ?s]
      held_headers_view [OF ok, of ?n ?s] bW W by (auto intro: order.strict_trans1)
  obtain a where a: "sum_work work_ZERO (map Some cand) = Some a" "wf_work a" "limbs_val a = ?A"
    using sum_work_val [of work_ZERO cand] wf bA by auto
  have wfW: "wf_work (cv_cumulative_work view)" using ok by (simp add: view_ok_def)
  obtain r where r: "work_checked_sub (cv_cumulative_work view) d = Some r"
    using work_checked_sub_None [OF wfW d(2)] d(3) W by fastforce
  then have r': "wf_work r" "limbs_val r + ?D = ?W" using work_checked_sub_Some [OF wfW d(2)] d(3) by simp_all
  have "work_checked_add r a \<noteq> None"
    using work_checked_add_None [OF r'(1) a(2)] r'(2) a(3) bW bA by simp
  then obtain w where w: "work_checked_add r a = Some w" by blast
  then have "wf_work w" "limbs_val w = limbs_val r + ?A" using work_checked_add_Some [OF r'(1) a(2)] a(3) by simp_all
  then show ?thesis using d(1) a(1) r w r'(2) by (auto simp: candidate_work_def)
qed


section \<open>What is permitted\<close>

lemma contiguous_from_iff:
  "unat start + i + length hs \<le> 2 ^ 64 \<Longrightarrow>
   contiguous_from start i hs = Some (\<forall>j < length hs. hi_height (hs ! j) = start + of_nat (i + j))"
proof (induction hs arbitrary: i)
  case (Cons h hs)
  have "unat (of_nat i :: u64) = i" by (rule unat_of_nat_small) (use Cons.prems in simp)
  then have c: "checked_add start (of_nat i) = Some (start + of_nat i)"
    using Cons.prems by (simp add: checked_add_Some)
  have "(\<forall>j < length (h # hs). hi_height ((h # hs) ! j) = start + of_nat (i + j)) \<longleftrightarrow>
      hi_height h = start + of_nat i \<and> (\<forall>j < length hs. hi_height (hs ! j) = start + of_nat (i + 1 + j))"
    by (simp add: All_less_Suc2 add.left_commute)
  moreover have "contiguous_from start (i + 1) hs =
      Some (\<forall>j < length hs. hi_height (hs ! j) = start + of_nat (i + 1 + j))"
    using Cons.IH [of "i + 1"] Cons.prems by simp
  ultimately show ?case using c by (simp del: of_nat_add of_nat_Suc)
qed simp

definition reorg_permitted :: "chain_view \<Rightarrow> u64 \<Rightarrow> header_info list \<Rightarrow> reorg_params \<Rightarrow> u64 \<Rightarrow> bool" where
  "reorg_permitted view start cand params cap \<longleftrightarrow>
     cand \<noteq> [] \<and> start \<noteq> 0 \<and> start \<le> cv_len view \<and>
     (\<forall>j < length cand. hi_height (cand ! j) = start + of_nat j) \<and>
     (cap = 0 \<or> cv_len view - start \<le> cap \<or>
       (\<exists>a. rp_anchor params = Some a \<and> candidate_meets_anchor a start cand)) \<and>
     (\<forall>(h, c) \<in> set (rp_checkpoints params). start \<le> h \<longrightarrow>
        (if unat h < unat start + length cand then hi_hash (cand ! unat (h - start)) = c
         else cv_len view \<le> h))"

definition view_work_above :: "chain_view \<Rightarrow> u64 \<Rightarrow> nat" where
  "view_work_above view start = sum_list (map header_work (view_headers view (unat start) (unat (cv_len view))))"

definition branch_work :: "header_info list \<Rightarrow> nat" where
  "branch_work cand = sum_list (map header_work cand)"

lemma checkpoint_search_None:
  assumes "unat start + length cand < 2 ^ 64" "cand \<noteq> []" "0 < len"
  defines "new_tip \<equiv> start + of_nat (length cand) - 1"
  shows "find (\<lambda>(h, _). start \<le> h \<and> h \<le> len - 1 \<and> new_tip < h) cps = None \<and>
     find (\<lambda>(h, c). start \<le> h \<and> h \<le> new_tip \<and> hi_hash (cand ! unat (h - start)) \<noteq> c) cps = None \<longleftrightarrow>
     (\<forall>(h, c) \<in> set cps. start \<le> h \<longrightarrow>
        (if unat h < unat start + length cand then hi_hash (cand ! unat (h - start)) = c
         else (len :: u64) \<le> h))"
proof -
  have "unat (of_nat (length cand) :: u64) = length cand"
    by (rule unat_of_nat_small) (use assms in simp)
  then have e: "unat (start + of_nat (length cand)) = unat start + length cand"
    using assms(1) by (simp add: unat_add_no_overflow)
  have "1 \<le> start + of_nat (length cand)"
    using e assms(2) by (simp add: word_le_nat_alt Suc_le_eq)
  then have "unat new_tip = unat start + length cand - 1"
    unfolding new_tip_def using e by (simp add: unat_sub_le)
  then have n: "h \<le> new_tip \<longleftrightarrow> unat h < unat start + length cand" for h
    using assms(2) by (cases cand) (auto simp: word_le_nat_alt)
  have "unat (len - 1) = unat len - 1" using assms(3) by (simp add: unat_sub_le word_le_nat_alt word_less_nat_alt)
  then have l: "h \<le> len - 1 \<longleftrightarrow> h < len" for h
    using assms(3) by (auto simp: word_le_nat_alt word_less_nat_alt)
  show ?thesis
    by (auto simp: find_None_iff n l linorder_not_le linorder_not_less simp flip: n split: if_splits)
      (meson leD)+
qed


lemma view_tip_Some:
  assumes "view_ok view"
  obtains t where "view_tip view = Some t" "hi_height t = cv_len view - 1"
proof -
  have p: "0 < unat (cv_len view)" using assms by (simp add: view_ok_def word_less_nat_alt)
  then have e: "of_nat (unat (cv_len view) - 1) = cv_len view - 1" by (simp add: of_nat_diff Suc_le_eq)
  have "unat (cv_len view) - 1 < unat (cv_len view)" using p by simp
  then obtain h where "cv_header_at view (cv_len view - 1) = Some h" "hi_height h = cv_len view - 1"
    using view_header [OF assms] e by metis
  moreover have "cv_len view \<noteq> 0" using p by auto
  ultimately show thesis using that by (simp add: view_tip_def)
qed

lemma tie_break_height:
  assumes "cand \<noteq> []" "\<forall>j < length cand. hi_height (cand ! j) = start + of_nat j"
    "unat (start :: u64) + length cand < 2 ^ 64" "hi_height t = len - 1"
  shows "len - start = 1 \<Longrightarrow> hi_height (last cand) = hi_height t \<longleftrightarrow> length cand = 1"
proof -
  assume d: "len - start = 1"
  have "hi_height (last cand) = start + of_nat (length cand - 1)"
    using assms(1, 2) by (simp add: last_conv_nth)
  moreover have "len - 1 = start" using d by (simp add: algebra_simps)
  moreover have "(of_nat (length cand - 1) :: u64) = 0 \<longleftrightarrow> length cand - 1 = 0"
    using unat_of_nat_small [of "length cand - 1", where 'a = 64] assms(3) by (auto simp: unat_eq_0)
  ultimately show ?thesis using assms(1, 4) by (cases cand) auto
qed

lemma evaluate_reorg_cases:
  assumes ok: "view_ok view" and wf: "\<forall>h \<in> set cand. wf_header_info h"
    and len: "unat start + length cand < 2 ^ 64"
  shows "\<exists>r. evaluate_reorg_with_cap view start cand params cap = Some r \<and>
    (reorg_permitted view start cand params cap \<longrightarrow>
       r = (if view_work_above view start < branch_work cand then Inr StrictlyMoreWork
            else if cv_len view - start = 1 \<and> branch_work cand = view_work_above view start \<and>
                 length cand = 1 \<and> hi_hash (last cand) < hi_hash (the (view_tip view))
            then Inr TieBreak else Inl (InsufficientWork (cv_len view - start)))) \<and>
    (\<not> reorg_permitted view start cand params cap \<longrightarrow> isl r)"
proof (cases "cand \<noteq> [] \<and> start \<noteq> 0 \<and> start \<le> cv_len view")
  case False
  then show ?thesis by (auto simp: evaluate_reorg_with_cap_def Let_def reorg_permitted_def)
next
  case shape: True
  obtain t where t: "view_tip view = Some t" "hi_height t = cv_len view - 1" using view_tip_Some [OF ok] .
  have ne: "cand \<noteq> []" and ns: "\<not> (start = 0 \<or> cv_len view < start)" using shape by auto
  define C where "C \<longleftrightarrow> (\<forall>j < length cand. hi_height (cand ! j) = start + of_nat j)"
  have cont: "contiguous_from start 0 cand = Some C"
    using contiguous_from_iff [of start 0 cand] len by (simp add: C_def)
  have "unat (of_nat (length cand) :: u64) = length cand"
    by (rule unat_of_nat_small) (use len in simp)
  then have e: "checked_add start (of_nat (length cand)) = Some (start + of_nat (length cand))"
    using len by (simp add: checked_add_Some)
  have p: "0 < cv_len view" using ok by (simp add: view_ok_def)
  note cps = checkpoint_search_None [OF len _ p, of "rp_checkpoints params"]
  obtain w where w: "candidate_work view start cand = Some w" "wf_work w"
      "limbs_val w + view_work_above view start = limbs_val (cv_cumulative_work view) + branch_work cand"
    using candidate_work_val [OF ok _ wf, of start] shape len by (auto simp: view_work_above_def branch_work_def)
  have wfc: "wf_work (cv_cumulative_work view)" using ok by (simp add: view_ok_def)
  have gt: "work_cmp w (cv_cumulative_work view) = Greater \<longleftrightarrow> view_work_above view start < branch_work cand"
    using w by (auto simp: work_cmp_nat [OF w(2) wfc] nat_cmp_def)
  have eq: "w = cv_cumulative_work view \<longleftrightarrow> branch_work cand = view_work_above view start"
    using w work_val_inj [OF w(2) wfc] by auto
  define D where "D \<longleftrightarrow> 0 < cap \<and> cap < cv_len view - start \<and>
    \<not> (case rp_anchor params of None \<Rightarrow> False | Some a \<Rightarrow> candidate_meets_anchor a start cand)"
  let ?last = "start + of_nat (length cand) - 1 :: u64"
  define F where "F = find (\<lambda>(h, _). start \<le> h \<and> h \<le> cv_len view - 1 \<and> ?last < h) (rp_checkpoints params)"
  define G where "G = find (\<lambda>(h, c). start \<le> h \<and> h \<le> ?last \<and> hi_hash (cand ! unat (h - start)) \<noteq> c) (rp_checkpoints params)"
  let ?tie = "tie_break_prefers_candidate (cv_len view - start) w (cv_cumulative_work view) (last cand) t"
  have ev: "evaluate_reorg_with_cap view start cand params cap =
    (if \<not> C then Some (Inl NonContiguousCandidate)
     else if D then Some (Inl (ReorgTooDeep (cv_len view - start) cap))
     else case F of Some (h, _) \<Rightarrow> Some (Inl (CheckpointShorteningAttack h)) | None \<Rightarrow>
       (case G of Some (h, _) \<Rightarrow> Some (Inl (CheckpointMismatch h)) | None \<Rightarrow>
         Some (if view_work_above view start < branch_work cand then Inr StrictlyMoreWork
               else if ?tie then Inr TieBreak else Inl (InsufficientWork (cv_len view - start)))))"
    unfolding evaluate_reorg_with_cap_def Let_def cont e t w(1) gt bind.bind_lunit if_not_P [OF ns] if_not_P [OF ne]
      D_def F_def G_def
    by (cases C) simp_all
  have perm: "reorg_permitted view start cand params cap \<longleftrightarrow> C \<and> \<not> D \<and> F = None \<and> G = None"
    using shape cps unfolding F_def G_def
    by (auto simp: reorg_permitted_def C_def D_def linorder_not_less split: option.splits)
  have tie: "?tie \<longleftrightarrow> cv_len view - start = 1 \<and> branch_work cand = view_work_above view start \<and>
      length cand = 1 \<and> hi_hash (last cand) < hi_hash t" if C
    using tie_break_height [OF _ that [unfolded C_def] len t(2)] shape eq by (auto simp: tie_break_prefers_candidate_def)
  show ?thesis
  proof (cases "reorg_permitted view start cand params cap")
    case True
    then show ?thesis using perm tie t(1) by (simp add: ev)
  next
    case False
    then show ?thesis using perm by (cases C; cases D; cases F; cases G) (auto simp: ev)
  qed
qed


section \<open>Adopting a branch\<close>

text \<open>\<open>v'\<close> is the chain after the headers of \<open>v\<close> from \<open>start\<close> on were replaced by
  \<open>cand\<close>.\<close>

definition reorged :: "chain_view \<Rightarrow> u64 \<Rightarrow> header_info list \<Rightarrow> chain_view \<Rightarrow> bool" where
  "reorged v start cand v' \<longleftrightarrow>
     unat (cv_len v') = unat start + length cand \<and>
     view_headers v' 0 (unat start) = view_headers v 0 (unat start) \<and>
     view_headers v' (unat start) (unat (cv_len v')) = cand"

definition tip_hash :: "chain_view \<Rightarrow> hash32" where
  "tip_hash v = hi_hash (the (view_tip v))"

definition chain_better :: "chain_view \<Rightarrow> chain_view \<Rightarrow> bool" where
  "chain_better v' v \<longleftrightarrow>
     limbs_val (cv_cumulative_work v) < limbs_val (cv_cumulative_work v') \<or>
     limbs_val (cv_cumulative_work v) = limbs_val (cv_cumulative_work v') \<and> tip_hash v' < tip_hash v"

lemma chain_better_asym: "chain_better v' v \<Longrightarrow> \<not> chain_better v v'"
  by (auto simp: chain_better_def)

lemma cumulative_split:
  assumes "view_ok v" "unat start \<le> unat (cv_len v)"
  shows "limbs_val (cv_cumulative_work v) = branch_work (view_headers v 0 (unat start)) + view_work_above v start"
  using assms view_headers_split [of "unat start" "unat (cv_len v)" v]
  by (simp add: view_ok_def branch_work_def view_work_above_def)

lemma last_view_headers:
  assumes "view_ok v" "a < unat (cv_len v)"
  shows "last (view_headers v a (unat (cv_len v))) = the (view_tip v)"
proof -
  have ne: "cv_len v \<noteq> 0" using assms(2) by auto
  have "of_nat (unat (cv_len v) - 1) = cv_len v - 1" using assms(2) by (simp add: of_nat_diff Suc_le_eq)
  moreover have "last [a..<unat (cv_len v)] = unat (cv_len v) - 1" using assms(2) by (simp add: last_upt)
  ultimately show ?thesis using assms(2) ne by (simp add: view_headers_def last_map view_tip_def)
qed

lemma accepted_reorg_better:
  assumes ok: "view_ok v" "view_ok v'" and r: "reorged v start cand v'"
    and ev: "evaluate_reorg_with_cap v start cand params cap = Some (Inr verdict)"
  shows "chain_better v' v"
proof -
  let ?n = "unat (cv_len v')"
  have n: "?n = unat start + length cand" and low: "view_headers v' 0 (unat start) = view_headers v 0 (unat start)"
    and cand: "view_headers v' (unat start) ?n = cand" using r unfolding reorged_def by blast+
  have wf: "\<forall>h \<in> set cand. wf_header_info h" using view_headers_wf [OF ok(2), of ?n "unat start"] cand by simp
  have len: "unat start + length cand < 2 ^ 64" using n unat_u64_lt [of "cv_len v'"] by simp
  from evaluate_reorg_cases [OF ok(1) wf len, of params cap] ev
  have perm: "reorg_permitted v start cand params cap"
    and dec: "view_work_above v start < branch_work cand \<or>
      branch_work cand = view_work_above v start \<and> hi_hash (last cand) < tip_hash v"
    by (auto simp: tip_hash_def split: if_splits)
  have le: "unat start \<le> unat (cv_len v)" and ne: "cand \<noteq> []"
    using perm by (simp_all add: reorg_permitted_def word_le_nat_alt)
  have "last cand = the (view_tip v')"
    using last_view_headers [OF ok(2), of "unat start"] n ne cand by simp
  then show ?thesis
    using dec cumulative_split [OF ok(1) le] cumulative_split [OF ok(2), of start] n low cand
    by (auto simp: chain_better_def tip_hash_def branch_work_def view_work_above_def)
qed

section \<open>A concrete chain\<close>

definition list_view :: "header_info list \<Rightarrow> work \<Rightarrow> chain_view" where
  "list_view hs w =
     \<lparr> cv_len = of_nat (length hs),
       cv_header_at = (\<lambda>h. if unat h < length hs then Some (hs ! unat h) else None),
       cv_header_by_hash = (\<lambda>x. find (\<lambda>h. hi_hash h = x) hs),
       cv_cumulative_work = w \<rparr>"

definition sample_header :: "u64 \<Rightarrow> u8 \<Rightarrow> header_info" where
  "sample_header h b = \<lparr> hi_height = h, hi_hash = replicate 32 b, hi_time = 0, hi_target = replicate 32 255 \<rparr>"

definition sample_view :: "u8 \<Rightarrow> chain_view" where
  "sample_view b = list_view [sample_header 0 9, sample_header 1 b] [2, 0, 0, 0, 0, 0, 0, 0]"

definition sample_params :: reorg_params where
  "sample_params = \<lparr> rp_anchor = None, rp_checkpoints = [], rp_local_time = 0 \<rparr>"

lemma be_val_replicate_ff: "be_val (replicate n 255) + 1 = 256 ^ n"
proof (induction n)
  case (Suc n)
  have "be_val (replicate (Suc n) 255) = be_val (replicate n 255) * 256 + 255"
    using be_val_snoc [of "replicate n 255" 255] by (simp add: replicate_append_same)
  then show ?case using Suc by (simp add: algebra_simps)
qed simp

lemma sample_header_work: "header_work (sample_header h b) = 1"
  using be_val_replicate_ff [of 32] by (simp add: header_work_def sample_header_def)

lemma sample_headers:
  "view_headers (sample_view b) 0 2 = [sample_header 0 9, sample_header 1 b]"
  "view_headers (sample_view b) 0 (Suc 0) = [sample_header 0 9]"
  "view_headers (sample_view b) (Suc 0) 2 = [sample_header 1 b]"
  "cv_len (sample_view b) = 2" "wf_work (cv_cumulative_work (sample_view b))"
  "limbs_val (cv_cumulative_work (sample_view b)) = 2" "tip_hash (sample_view b) = replicate 32 b"
  by (simp_all add: view_headers_def sample_view_def list_view_def upt_rec tip_hash_def view_tip_def sample_header_def
      wf_work_def)

lemma sample_view_ok: "view_ok (sample_view b)"
  unfolding view_ok_def
proof (intro conjI allI impI)
  fix n assume "n < unat (cv_len (sample_view b))"
  then have "n = 0 \<or> n = 1" by (auto simp: sample_headers)
  then show "\<exists>h. cv_header_at (sample_view b) (of_nat n) = Some h \<and> hi_height h = of_nat n \<and> wf_header_info h"
    by (auto simp: sample_view_def list_view_def sample_header_def wf_header_info_def)
qed (simp_all add: sample_headers sample_header_work)
lemma replicate_less: "(a :: u8) < b \<Longrightarrow> replicate (Suc n) a < replicate (Suc n) b"
  by simp

lemma sample_reorged: "reorged (sample_view 7) 1 [sample_header 1 3] (sample_view 3)"
  by (simp add: reorged_def sample_headers)

lemma sample_accepted:
  "evaluate_reorg_with_cap (sample_view 7) 1 [sample_header 1 3] sample_params 30 = Some (Inr TieBreak)"
proof -
  have perm: "reorg_permitted (sample_view 7) 1 [sample_header 1 3] sample_params 30"
    by (simp add: reorg_permitted_def sample_headers sample_params_def) (simp add: sample_header_def)
  have "hi_hash (sample_header 1 3) < tip_hash (sample_view 7)"
    using replicate_less [of 3 7 31] by (simp add: sample_headers) (simp add: sample_header_def)
  with perm evaluate_reorg_cases [OF sample_view_ok, of "[sample_header 1 3]" 1 7 sample_params 30]
  show ?thesis
    by (auto simp: wf_header_info_def view_work_above_def branch_work_def sample_headers sample_header_work
        tip_hash_def [symmetric]) (simp_all add: sample_header_def)
qed

section \<open>Properties\<close>



text \<open>
  C27.  Adopting branches makes progress and cannot oscillate: the adopted chain has more work, or
  the same work and a lower tip hash, and no node that runs the rule on the adopted chain, with
  whatever anchor, checkpoints and cap, goes back to the headers that were replaced.
\<close>
theorem reorg_no_oscillation:
  assumes "view_ok v" "view_ok v'" "reorged v start cand v'"
    and "evaluate_reorg_with_cap v start cand params cap = Some (Inr verdict)"
  shows "chain_better v' v \<and>
    evaluate_reorg_with_cap v' start (view_headers v (unat start) (unat (cv_len v))) params' cap' \<noteq>
      Some (Inr verdict')"
proof -
  have b: "chain_better v' v" using accepted_reorg_better [OF assms] .
  moreover have "evaluate_reorg_with_cap v' start (view_headers v (unat start) (unat (cv_len v))) params' cap' \<noteq>
      Some (Inr verdict')" (is "?E \<noteq> _")
  proof
    assume E: "?E = Some (Inr verdict')"
    then have "view_headers v (unat start) (unat (cv_len v)) \<noteq> []"
      by (auto simp: evaluate_reorg_with_cap_def)
    then have "unat start < unat (cv_len v)" by (simp add: view_headers_def)
    then have "reorged v' start (view_headers v (unat start) (unat (cv_len v))) v"
      using assms(3) by (simp add: reorged_def view_headers_def)
    from accepted_reorg_better [OF assms(2, 1) this E] show False using chain_better_asym b by blast
  qed
  ultimately show ?thesis ..
qed

theorem reorg_no_oscillation_witness:
  "chain_better (sample_view 3) (sample_view 7) \<and>
    evaluate_reorg_with_cap (sample_view 3) 1 [sample_header 1 7] sample_params 30 \<noteq> Some (Inr TieBreak)"
  using reorg_no_oscillation [OF sample_view_ok sample_view_ok sample_reorged sample_accepted]
  by (simp add: sample_headers)

end
