(* ===== verification/Tx_Rules.thy ===== *)
theory Tx_Rules
  imports Crypto Emission Block_Body
begin

text \<open>
  The transaction rules of \<open>lib/consensus/src/tx.rs\<close>: announcements, the fee total of a
  block, the place of the coinbase and the exact amount it pays.
\<close>

section \<open>Operations\<close>

record account_state =
  as_balance :: u128
  as_nonce :: u64

datatype tx_error =
    NotAuthorKey
  | BadSignature
  | TxAnnouncementLength nat
  | TxFeeBelowFloor u128
  | TxBadNonce u64 u64
  | TxInsufficientBalance u128 u128
  | AmountOverflow
  | FeeSumOverflow
  | RecordDoesNotDecode nat codec_error
  | MissingCoinbase
  | MisplacedCoinbase nat
  | CoinbaseHeightMismatch u64 u64
  | CoinbaseRewardMismatch u128 u128
  | CoinbaseFeesMismatch u128 u128
  | AuthorNoteLenMismatch u32 nat
  | TxAuthorNoteTooLong nat

definition check_announcement_stateless ::
  "'vk ed25519 \<Rightarrow> network \<Rightarrow> announcement_tx \<Rightarrow> bytes \<Rightarrow> tx_error + unit" where
  "check_announcement_stateless ed network tx author_pubkey =
     (if an_from_pub tx \<noteq> author_pubkey then Inl NotAuthorKey
      else bindE (mapE (\<lambda>_. TxAnnouncementLength (length (an_payload tx))) (check_payload_len tx)) (\<lambda>_.
        mapE (\<lambda>_. BadSignature) (verify_announcement_signature ed network tx)))"

definition check_announcement_stateful ::
  "announcement_tx \<Rightarrow> account_state \<Rightarrow> u128 \<Rightarrow> tx_error + unit" where
  "check_announcement_stateful tx acct spendable =
     (if an_fee tx < FEE_FLOOR_MILE then Inl (TxFeeBelowFloor (an_fee tx))
      else if an_nonce tx \<noteq> as_nonce acct then Inl (TxBadNonce (as_nonce acct) (an_nonce tx))
      else if spendable < an_fee tx then Inl (TxInsufficientBalance (an_fee tx) spendable)
      else Inr ())"

definition apply_announcement :: "account_state \<Rightarrow> announcement_tx \<Rightarrow> tx_error + account_state" where
  "apply_announcement acct tx =
     bindE (ok_or (checked_sub (as_balance acct) (an_fee tx))
       (TxInsufficientBalance (an_fee tx) (as_balance acct))) (\<lambda>balance.
     bindE (ok_or (checked_add (as_nonce acct) 1) AmountOverflow) (\<lambda>nonce.
     Inr \<lparr> as_balance = balance, as_nonce = nonce \<rparr>))"

fun fee_total_from :: "u128 \<Rightarrow> tx list \<Rightarrow> tx_error + u128" where
  "fee_total_from acc [] = Inr acc"
| "fee_total_from acc (tx # txs) =
     bindE (ok_or (checked_add acc (tx_fee tx)) FeeSumOverflow) (\<lambda>acc. fee_total_from acc txs)"

definition block_fee_total :: "tx list \<Rightarrow> tx_error + u128" where
  "block_fee_total txs = fee_total_from 0 txs"

fun no_coinbase_from :: "nat \<Rightarrow> tx list \<Rightarrow> tx_error + unit" where
  "no_coinbase_from i [] = Inr ()"
| "no_coinbase_from i (tx # txs) =
     (if type_byte tx = TX_TYPE_COINBASE then Inl (MisplacedCoinbase i) else no_coinbase_from (i + 1) txs)"

definition check_body_structure :: "tx list \<Rightarrow> tx_error + coinbase_tx" where
  "check_body_structure txs =
     (case txs of
        Coinbase cb # rest \<Rightarrow> bindE (no_coinbase_from 1 rest) (\<lambda>_. Inr cb)
      | _ \<Rightarrow> Inl MissingCoinbase)"

definition decode_body :: "block_body \<Rightarrow> tx_error + tx list" where
  "decode_body body =
     mapM_E (\<lambda>i. mapE (RecordDoesNotDecode i) (decode_tx (the (tx_bytes body i)))) [0..<body_len body]"

definition check_coinbase :: "coinbase_tx \<Rightarrow> u64 \<Rightarrow> u32 \<Rightarrow> u128 \<Rightarrow> tx_error + unit" where
  "check_coinbase cb header_height header_author_note_len fee_total =
     (if cb_height cb \<noteq> header_height then Inl (CoinbaseHeightMismatch header_height (cb_height cb))
      else
        let expected = block_reward header_height in
        if cb_reward cb \<noteq> expected then Inl (CoinbaseRewardMismatch expected (cb_reward cb))
        else if cb_fees cb \<noteq> fee_total then Inl (CoinbaseFeesMismatch fee_total (cb_fees cb))
        else
          let note_len = length (note_payload (cb_note cb)) in
          if AUTHOR_NOTE_MAX_BYTES < note_len then Inl (TxAuthorNoteTooLong note_len)
          else if unat header_author_note_len \<noteq> note_len
          then Inl (AuthorNoteLenMismatch header_author_note_len note_len)
          else Inr ())"

definition coinbase_credit :: "coinbase_tx \<Rightarrow> tx_error + u128" where
  "coinbase_credit cb = ok_or (checked_add (cb_reward cb) (cb_fees cb)) AmountOverflow"

section \<open>What the rules establish\<close>

fun is_coinbase :: "tx \<Rightarrow> bool" where
  "is_coinbase (Coinbase _) = True"
| "is_coinbase _ = False"

lemma type_byte_coinbase [simp]: "type_byte tx = 0 \<longleftrightarrow> is_coinbase tx"
  by (cases tx) simp_all

lemma no_coinbase_from_Inr: "no_coinbase_from i txs = Inr u \<longleftrightarrow> \<not> list_ex is_coinbase txs"
  by (induction txs arbitrary: i) simp_all

lemma check_body_structure_Inr:
  "check_body_structure txs = Inr cb \<longleftrightarrow>
     (\<exists>rest. txs = Coinbase cb # rest \<and> \<not> list_ex is_coinbase rest)"
  by (auto simp: check_body_structure_def result_simps no_coinbase_from_Inr split: list.splits tx.splits)

definition fees_of :: "tx list \<Rightarrow> nat" where
  "fees_of txs = sum_list (map (unat \<circ> tx_fee) txs)"

lemma fees_of_simps [simp]: "fees_of [] = 0" "fees_of (tx # txs) = unat (tx_fee tx) + fees_of txs"
  by (simp_all add: fees_of_def)

lemma fee_total_from_Inr:
  "fee_total_from acc txs = Inr r \<longleftrightarrow> unat r = unat acc + fees_of txs"
proof (induction txs arbitrary: acc)
  case Nil
  then show ?case by (auto simp: word_unat_eq_iff)
next
  case (Cons tx txs)
  show ?case
  proof (cases "checked_add acc (tx_fee tx)")
    case None
    then have "2 ^ 128 \<le> unat acc + unat (tx_fee tx)" by (simp add: checked_add_None)
    then show ?thesis using None unat_u128_lt [of r] by simp
  next
    case (Some t)
    then show ?thesis using Cons [of t] unat_checked_add [OF Some] by (simp add: add.assoc)
  qed
qed

lemma block_fee_total_Inr: "block_fee_total txs = Inr r \<longleftrightarrow> unat r = fees_of txs"
  by (simp add: block_fee_total_def fee_total_from_Inr)

lemma decode_body_Inr:
  "decode_body body = Inr txs \<longleftrightarrow> list_all2 (\<lambda>raw tx. decode_tx raw = Inr tx) (body_txs body) txs"
proof -
  have "decode_body body = Inr txs \<longleftrightarrow>
      list_all2 (\<lambda>i tx. decode_tx (the (tx_bytes body i)) = Inr tx) [0..<body_len body] txs"
    by (simp add: decode_body_def mapM_E_eq_Inr result_simps)
  also have "\<dots> \<longleftrightarrow> list_all2 (\<lambda>raw tx. decode_tx raw = Inr tx) (body_txs body) txs"
    by (simp add: list_all2_conv_all_nth tx_bytes_body_txs cong: conj_cong)
  finally show ?thesis .
qed

lemma coinbase_credit_Inr: "coinbase_credit cb = Inr c \<longleftrightarrow> unat c = unat (cb_reward cb) + unat (cb_fees cb)"
  by (simp add: coinbase_credit_def result_simps checked_add_unat)

lemma check_coinbase_Inr:
  "check_coinbase cb h nl fees = Inr u \<longleftrightarrow>
     cb_height cb = h \<and> cb_reward cb = block_reward h \<and> cb_fees cb = fees \<and>
     length (note_payload (cb_note cb)) \<le> AUTHOR_NOTE_MAX_BYTES \<and>
     unat nl = length (note_payload (cb_note cb))"
  by (auto simp: check_coinbase_def Let_def simp del: AUTHOR_NOTE_MAX_BYTES_def)

lemma apply_announcement_Inr:
  "apply_announcement acct tx = Inr acct' \<longleftrightarrow>
     unat (as_balance acct') + unat (an_fee tx) = unat (as_balance acct) \<and>
     unat (as_nonce acct') = unat (as_nonce acct) + 1"
  by (cases acct') (auto simp: apply_announcement_def result_simps checked_add_unat checked_sub_unat)

end
