(* ===== verification/Chain_Types.thy ===== *)
theory Chain_Types
  imports Tx_Rules Signed_Checkpoint Work Time_Rules Asert
begin

text \<open>
  The data of the chain crate: \<open>lib/chain/src/types.rs\<close> and \<open>lib/chain/src/error.rs\<close>,
  with the rates derived from the parameters and the classification of rejections.
\<close>

section \<open>Accounts, headers and commits\<close>

type_synonym address = bytes
type_synonym source_id = u32

record account =
  ac_balance :: u128
  ac_nonce :: u64

definition account_default :: account where
  "account_default = \<lparr> ac_balance = 0, ac_nonce = 0 \<rparr>"

definition is_absent :: "account \<Rightarrow> bool" where
  "is_absent a \<longleftrightarrow> ac_balance a = 0 \<and> ac_nonce a = 0"

record tip_ref =
  tip_height :: u64
  tip_hash_of :: hash32
  tip_time :: u64
  tip_chainwork :: work

record header_rec =
  hr_height :: u64
  hr_hash :: hash32
  hr_prev_hash :: hash32
  hr_time :: u64
  hr_bits :: u32
  hr_raw :: bytes

definition header_rec_from_raw :: "bytes \<Rightarrow> header_rec option" where
  "header_rec_from_raw raw =
     (case header_decode raw of
        Inl _ \<Rightarrow> None
      | Inr h \<Rightarrow> Some
          \<lparr> hr_height = hdr_height h, hr_hash = header_hash raw, hr_prev_hash = hdr_prev_hash h,
            hr_time = hdr_time h, hr_bits = hdr_bits h, hr_raw = raw \<rparr>)"

definition header_rec_header :: "header_rec \<Rightarrow> header option" where
  "header_rec_header r = (case header_decode (hr_raw r) of Inl _ \<Rightarrow> None | Inr h \<Rightarrow> Some h)"

record side_header_rec =
  shr_rec :: header_rec
  shr_chainwork :: work

record undo_rec =
  un_addr :: address
  un_prev_balance :: u128
  un_prev_nonce :: u64
  un_existed :: bool

record state_delta =
  sd_addr :: address
  sd_balance :: u128
  sd_nonce :: u64

record commit_block =
  ck_header_raw :: bytes
  ck_hash :: hash32
  ck_height :: u64
  ck_body :: bytes
  ck_deltas :: "state_delta list"
  ck_undo :: "undo_rec list"
  ck_issued_delta :: u128
  ck_chainwork :: work
  ck_txids :: "hash32 list"

record reorg_commit =
  rc_rollback :: "u64 list"
  rc_apply :: "commit_block list"

record deep_reorg_commit =
  dr_rewind_to :: u64
  dr_apply :: "commit_block list"

datatype trust = OurStore | Untrusted

section \<open>Parameters\<close>

record mempool_params =
  mp_max_txs :: nat
  mp_max_bytes :: nat
  mp_max_nonce_gap :: u64
  mp_max_txs_per_sender :: nat
  mp_ttl_secs :: u64
  mp_relay_fee_floor :: u128
  mp_ingress_per_source :: u32
  mp_ingress_global :: u32
  mp_reorg_reinject_cap :: nat

definition TX_COST_MILLI :: u64 where [simp]: "TX_COST_MILLI = 1000"

definition effective_per_sender :: "mempool_params \<Rightarrow> nat" where
  "effective_per_sender mp = min (unat (mp_max_nonce_gap mp) + 1) (mp_max_txs_per_sender mp)"

definition ingress_source_rate_milli :: "mempool_params \<Rightarrow> u64" where
  "ingress_source_rate_milli mp = saturating_mul (ucast (mp_ingress_per_source mp)) TX_COST_MILLI"

definition ingress_source_burst_milli :: "mempool_params \<Rightarrow> u64" where
  "ingress_source_burst_milli mp = ingress_source_rate_milli mp"

definition ingress_shared_rate_milli :: "mempool_params \<Rightarrow> u64" where
  "ingress_shared_rate_milli mp = saturating_mul (ucast (mp_ingress_global mp)) TX_COST_MILLI div 2"

definition ingress_shared_burst_milli :: "mempool_params \<Rightarrow> u64" where
  "ingress_shared_burst_milli mp = ingress_shared_rate_milli mp"

definition ingress_reserve_rate_milli :: "mempool_params \<Rightarrow> nat \<Rightarrow> u64" where
  "ingress_reserve_rate_milli mp max_peers = ingress_shared_rate_milli mp div of_nat (max max_peers 1)"

definition ingress_reserve_burst_milli :: "mempool_params \<Rightarrow> u64" where
  "ingress_reserve_burst_milli mp = 2 * TX_COST_MILLI"

definition mempool_params_default :: mempool_params where
  "mempool_params_default =
     \<lparr> mp_max_txs = MAX_MEMPOOL_TXS, mp_max_bytes = 12 * 1024 * 1024,
       mp_max_nonce_gap = MAX_MEMPOOL_NONCE_GAP, mp_max_txs_per_sender = MAX_MEMPOOL_TXS_PER_SENDER,
       mp_ttl_secs = 24 * 3600, mp_relay_fee_floor = 1, mp_ingress_per_source = 100,
       mp_ingress_global = 2000, mp_reorg_reinject_cap = 4096 \<rparr>"

datatype tx_origin = OriginLocal | OriginPeer source_id

datatype solicitation = Unsolicited | SolicitedIbd | SolicitedSteady

definition charges_budget :: "solicitation \<Rightarrow> bool" where
  "charges_budget s \<longleftrightarrow> s \<noteq> SolicitedIbd"

definition charges_child_quota :: "solicitation \<Rightarrow> bool" where
  "charges_child_quota s \<longleftrightarrow> s = Unsolicited"

datatype profile = Real | Regtest

record chain_params =
  cp_profile :: profile
  cp_network :: network
  cp_pow_limit :: target
  cp_genesis_bits :: u32
  cp_asert_anchor_interval :: u64
  cp_author_pubkey :: bytes
  cp_authority_keys :: "bytes list"
  cp_checkpoint_threshold :: nat
  cp_max_reorg_depth :: u64
  cp_sync_window_secs :: u64
  cp_pow_budget_micros :: u64
  cp_pow_budget_window_ms :: u64
  cp_pow_budget_burst_micros :: u64
  cp_max_duplicates_per_batch :: u32
  cp_max_duplicates_per_window :: u32
  cp_duplicate_window_secs :: u64
  cp_max_peers :: nat
  cp_cpu_pool_threads :: nat
  cp_child_pow_failures_per_source :: u32
  cp_child_quota_window_secs :: u64
  cp_max_sources :: nat
  cp_max_side_headers :: nat
  cp_max_staged_headers :: nat
  cp_negative_cache_entries :: nat
  cp_reorg_overlay_max_accounts :: nat
  cp_mempool :: mempool_params

definition default_pow_limit :: target where
  "default_pow_limit = [- 1, - 1, - 1, 0x0000FFFFFFFFFFFF]"

definition REGTEST_BITS :: u32 where [simp]: "REGTEST_BITS = 0x207FFFFF"

definition regtest_pow_limit :: "target option" where
  "regtest_pow_limit = (case target_from_compact REGTEST_BITS of Inl _ \<Rightarrow> None | Inr t \<Rightarrow> Some t)"

definition chain_params_default :: chain_params where
  "chain_params_default =
     \<lparr> cp_profile = Real, cp_network = Main, cp_pow_limit = default_pow_limit,
       cp_genesis_bits = target_to_compact default_pow_limit,
       cp_asert_anchor_interval = ASERT_ANCHOR_INTERVAL, cp_author_pubkey = replicate 32 0,
       cp_authority_keys = [], cp_checkpoint_threshold = 1, cp_max_reorg_depth = MAX_REORG_DEPTH,
       cp_sync_window_secs = SYNC_WINDOW_SECS, cp_pow_budget_micros = 100000,
       cp_pow_budget_window_ms = 10000, cp_pow_budget_burst_micros = 300000,
       cp_max_duplicates_per_batch = 256, cp_max_duplicates_per_window = 1024,
       cp_duplicate_window_secs = 60, cp_max_peers = 128, cp_cpu_pool_threads = 2,
       cp_child_pow_failures_per_source = 1, cp_child_quota_window_secs = 2 * BLOCK_TIME_SECS,
       cp_max_sources = 128, cp_max_side_headers = 16384, cp_max_staged_headers = 256,
       cp_negative_cache_entries = 65536, cp_reorg_overlay_max_accounts = 714000,
       cp_mempool = mempool_params_default \<rparr>"

definition chain_params_regtest :: "bytes \<Rightarrow> chain_params option" where
  "chain_params_regtest author_pubkey =
     map_option (\<lambda>pow_limit. chain_params_default
       \<lparr> cp_profile := Regtest, cp_genesis_bits := REGTEST_BITS, cp_pow_limit := pow_limit,
         cp_author_pubkey := author_pubkey \<rparr>) regtest_pow_limit"

definition profile_is_consistent :: "chain_params \<Rightarrow> bool" where
  "profile_is_consistent p =
     (case cp_profile p of
        Real \<Rightarrow> cp_pow_limit p = default_pow_limit
      | Regtest \<Rightarrow> Some (cp_pow_limit p) = regtest_pow_limit)"

definition class_rate_micros_per_sec :: "chain_params \<Rightarrow> u64" where
  "class_rate_micros_per_sec p = saturating_mul 250000 (of_nat (cp_cpu_pool_threads p))"

definition class_shared_rate_micros_per_sec :: "chain_params \<Rightarrow> u64" where
  "class_shared_rate_micros_per_sec p = class_rate_micros_per_sec p div 2"

definition class_shared_burst_micros :: "chain_params \<Rightarrow> u64" where
  "class_shared_burst_micros p = class_shared_rate_micros_per_sec p"

definition class_reserve_rate_micros_per_sec :: "chain_params \<Rightarrow> u64" where
  "class_reserve_rate_micros_per_sec p = class_shared_rate_micros_per_sec p div of_nat (max (cp_max_peers p) 1)"

definition class_reserve_burst_micros :: "u64 \<Rightarrow> u64" where
  "class_reserve_burst_micros cost_micros = saturating_mul cost_micros 2"

definition class_reserve_is_survivable :: "chain_params \<Rightarrow> u64 \<Rightarrow> bool" where
  "class_reserve_is_survivable p cost_micros \<longleftrightarrow>
     cost_micros \<le> saturating_mul (class_reserve_rate_micros_per_sec p) 30"

definition class_aggregate_rate_micros_per_sec :: "chain_params \<Rightarrow> u64" where
  "class_aggregate_rate_micros_per_sec p =
     saturating_add (class_shared_rate_micros_per_sec p)
       (saturating_mul (class_reserve_rate_micros_per_sec p) (of_nat (cp_max_sources p)))"

section \<open>Reports\<close>

record rejection =
  rj_hash :: hash32
  rj_height :: u64
  rj_repair_from :: u64
  rj_why :: string

record held =
  hd_hash :: hash32
  hd_height :: u64

record accepted =
  acc_connected :: u64
  acc_duplicates :: u32
  acc_rejected :: u32
  acc_staged :: u32
  acc_verified_height :: u64
  acc_first_rejection :: "rejection option"
  acc_first_held :: "held option"

datatype progress =
    NoChange
  | NeedBodies "hash32 list"
  | Advanced tip_ref u64 u64

record chain_stats =
  cst_headers_connected :: u64
  cst_bodies_validated :: u64
  cst_reorgs :: u64
  cst_invalidated :: u64
  cst_poisoned :: u64
  cst_deep_reorgs :: u64
  cst_side_headers_restored :: u64
  cst_headers_readmitted :: u64

section \<open>Rejections and conditions\<close>

datatype permanence = Permanent | Transient

datatype (plugins only: code) reject =
    BadHeaderLength nat
  | ExtRootNotZero
  | AuthorNoteLen u32
  | BadVersion u32
  | BadBits u32
  | RejCheckpointMismatch u64
  | UnknownParent hash32
  | HeightNotParentPlusOne u64 u64
  | BitsNotAsert u32 u32
  | AsertAnchorUnavailable u64
  | RejTimestampTooOld u64 u64
  | RejTimestampTooFarInFuture u64 u64
  | ForkTooDeep u64 u64
  | InsufficientClaimedWork
  | PowInvalid hash32
  | RejBudgetExhausted source_id
  | RejDuplicateFlood source_id u32
  | StagingFull source_id
  | BatchTooLong nat nat
  | TooManySources source_id nat
  | BodyNotAdmissible hash32
  | BodyAlreadyHeld hash32
  | BodyStructure string
  | TxRootMismatch
  | RejTx nat tx_error
  | BadTransferSignature nat
  | RejFeeBelowFloor nat
  | RejBadNonce nat u64 u64
  | RejInsufficientBalance nat u128 u128
  | ArithmeticOverflow
  | Rule rule_error
  | BranchInvalid u64 hash32 reject
  | RejResyncRequired u64 u64
  | Busy
  | SinkRefused string
  | Halted string
  | BootInvariant string
  | TxKnown
  | TxStale u64 u64
  | NonceGapTooLarge u64 u64
  | TxTypeNotRelayable u8
  | BelowRelayFloor u128 u128
  | ReplacementUnderpriced u128 u128
  | PoolFull
  | SenderCap nat
  | TxDecode
  | TxTooLarge nat

datatype submit_tag =
    TagMalformed | TagTooLarge | TagFeeBelowFloor | TagBadSignature | TagNotAuthorKey
  | TagNonceOutOfRange | TagInsufficientFunds | TagDuplicate | TagReplacementUnderpriced
  | TagPoolFull | TagNotReady

definition tx_error_tag :: "tx_error \<Rightarrow> submit_tag" where
  "tx_error_tag err =
     (case err of
        NotAuthorKey \<Rightarrow> TagNotAuthorKey
      | BadSignature \<Rightarrow> TagBadSignature
      | TxFeeBelowFloor _ \<Rightarrow> TagFeeBelowFloor
      | TxBadNonce _ _ \<Rightarrow> TagNonceOutOfRange
      | TxInsufficientBalance _ _ \<Rightarrow> TagInsufficientFunds
      | _ \<Rightarrow> TagMalformed)"

definition submit_tag_of :: "reject \<Rightarrow> submit_tag" where
  "submit_tag_of r =
     (case r of
        TxDecode \<Rightarrow> TagMalformed
      | TxTypeNotRelayable _ \<Rightarrow> TagMalformed
      | BadHeaderLength _ \<Rightarrow> TagMalformed
      | ExtRootNotZero \<Rightarrow> TagMalformed
      | AuthorNoteLen _ \<Rightarrow> TagMalformed
      | BadVersion _ \<Rightarrow> TagMalformed
      | BadBits _ \<Rightarrow> TagMalformed
      | BodyStructure _ \<Rightarrow> TagMalformed
      | TxRootMismatch \<Rightarrow> TagMalformed
      | BodyNotAdmissible _ \<Rightarrow> TagMalformed
      | BodyAlreadyHeld _ \<Rightarrow> TagMalformed
      | ArithmeticOverflow \<Rightarrow> TagMalformed
      | TxTooLarge _ \<Rightarrow> TagTooLarge
      | BelowRelayFloor _ _ \<Rightarrow> TagFeeBelowFloor
      | RejFeeBelowFloor _ \<Rightarrow> TagFeeBelowFloor
      | BadTransferSignature _ \<Rightarrow> TagBadSignature
      | TxStale _ _ \<Rightarrow> TagNonceOutOfRange
      | NonceGapTooLarge _ _ \<Rightarrow> TagNonceOutOfRange
      | RejBadNonce _ _ _ \<Rightarrow> TagNonceOutOfRange
      | RejInsufficientBalance _ _ _ \<Rightarrow> TagInsufficientFunds
      | TxKnown \<Rightarrow> TagDuplicate
      | ReplacementUnderpriced _ _ \<Rightarrow> TagReplacementUnderpriced
      | PoolFull \<Rightarrow> TagPoolFull
      | SenderCap _ \<Rightarrow> TagPoolFull
      | StagingFull _ \<Rightarrow> TagPoolFull
      | RejTx _ err \<Rightarrow> tx_error_tag err
      | _ \<Rightarrow> TagNotReady)"

definition reject_why :: "reject \<Rightarrow> string" where
  "reject_why r =
     (case r of
        BadHeaderLength _ \<Rightarrow> ''header is not 132 bytes''
      | ExtRootNotZero \<Rightarrow> ''ext_root is not zero''
      | AuthorNoteLen _ \<Rightarrow> ''author_note_len out of range''
      | BadVersion _ \<Rightarrow> ''version bits are not 001''
      | BadBits _ \<Rightarrow> ''bits do not expand to a legal target''
      | RejCheckpointMismatch _ \<Rightarrow> ''checkpoint mismatch at this height''
      | UnknownParent _ \<Rightarrow> ''the chain does not hold the parent''
      | HeightNotParentPlusOne _ _ \<Rightarrow> ''height is not parent + 1''
      | BitsNotAsert _ _ \<Rightarrow> ''bits are not ASERT(parent)''
      | AsertAnchorUnavailable _ \<Rightarrow> ''the ASERT anchor is unreachable''
      | RejTimestampTooOld _ _ \<Rightarrow> ''timestamp at or below the median time past''
      | RejTimestampTooFarInFuture _ _ \<Rightarrow> ''timestamp too far in the future''
      | ForkTooDeep _ _ \<Rightarrow> ''the branch forks deeper than the reorg cap''
      | InsufficientClaimedWork \<Rightarrow> ''the branch claims no more work than our tip''
      | PowInvalid _ \<Rightarrow> ''proof of work is invalid''
      | RejBudgetExhausted _ \<Rightarrow> ''this source has spent its ingest budget''
      | RejDuplicateFlood _ _ \<Rightarrow> ''this source is replaying known headers''
      | StagingFull _ \<Rightarrow> ''this source's staging buffer is full''
      | BatchTooLong _ _ \<Rightarrow> ''the batch is longer than MAX_HEADERS_PER_MSG''
      | TooManySources _ _ \<Rightarrow> ''the per-source table is full''
      | BodyNotAdmissible _ \<Rightarrow> ''no PoW-verified header for this body''
      | BodyAlreadyHeld _ \<Rightarrow> ''this body is already held''
      | BodyStructure _ \<Rightarrow> ''the body does not parse''
      | TxRootMismatch \<Rightarrow> ''the body's merkle root is not the header's tx_root''
      | RejTx _ _ \<Rightarrow> ''a transaction rule failed''
      | BadTransferSignature _ \<Rightarrow> ''a transfer signature failed''
      | RejFeeBelowFloor _ \<Rightarrow> ''a fee is below the consensus floor''
      | RejBadNonce _ _ _ \<Rightarrow> ''a transaction nonce is wrong''
      | RejInsufficientBalance _ _ _ \<Rightarrow> ''a sender cannot cover the outlay''
      | ArithmeticOverflow \<Rightarrow> ''arithmetic overflow''
      | Rule _ \<Rightarrow> ''the authoritative predicate refused the branch''
      | BranchInvalid _ _ _ \<Rightarrow> ''a candidate block failed body validation''
      | RejResyncRequired _ _ \<Rightarrow> ''the fork point is below the replay floor''
      | Busy \<Rightarrow> ''storage is busy''
      | SinkRefused _ \<Rightarrow> ''storage refused the write''
      | Halted _ \<Rightarrow> ''the manager is halted''
      | BootInvariant _ \<Rightarrow> ''a boot invariant failed''
      | TxKnown \<Rightarrow> ''already in the pool''
      | TxStale _ _ \<Rightarrow> ''nonce below the sender's next''
      | NonceGapTooLarge _ _ \<Rightarrow> ''nonce gap too large''
      | TxTypeNotRelayable _ \<Rightarrow> ''this transaction type is never relayed''
      | BelowRelayFloor _ _ \<Rightarrow> ''below the operator relay floor''
      | ReplacementUnderpriced _ _ \<Rightarrow> ''replacement underpriced''
      | PoolFull \<Rightarrow> ''the mempool is full''
      | SenderCap _ \<Rightarrow> ''this sender holds the per-sender cap''
      | TxDecode \<Rightarrow> ''the transaction does not decode''
      | TxTooLarge _ \<Rightarrow> ''the transaction is too large'')"

definition reject_permanence :: "reject \<Rightarrow> permanence" where
  "reject_permanence r =
     (case r of
        BadHeaderLength _ \<Rightarrow> Permanent
      | ExtRootNotZero \<Rightarrow> Permanent
      | AuthorNoteLen _ \<Rightarrow> Permanent
      | BadVersion _ \<Rightarrow> Permanent
      | BadBits _ \<Rightarrow> Permanent
      | RejCheckpointMismatch _ \<Rightarrow> Permanent
      | HeightNotParentPlusOne _ _ \<Rightarrow> Permanent
      | BitsNotAsert _ _ \<Rightarrow> Permanent
      | RejTimestampTooOld _ _ \<Rightarrow> Permanent
      | PowInvalid _ \<Rightarrow> Permanent
      | _ \<Rightarrow> Transient)"

datatype evict_reason = Expired | QueuedLowFee | ExecutableTail | Confirmed | ReorgInvalid | ReorgOverflow

datatype budget_class = Interpreter | Duplicates | Staging | TxIngress | ChildQuota | HeaderClass

datatype sink_error = SinkFull | SinkInvalid string | SinkFatal string

datatype condition =
    ReorgTooDeepRefused u64 u64 u64 u64
  | ReorgOverlayExhausted nat
  | CondResyncRequired u64 u64
  | AnchorContradiction u64 hash32
  | AnchorNotPersisted u64 sink_error
  | BranchInvalidAt u64 hash32
  | CondDeepReplay u64 u64 u64
  | MempoolEvicted nat evict_reason
  | CondBudgetExhausted source_id budget_class
  | CondDuplicateFlood source_id u32
  | StorageFatal string
  | ImmatureSpendDropped address

end
