(* ===== verification/Chain_State.thy ===== *)
theory Chain_State
  imports Chain_Types "HOL-Library.Finite_Map"
begin

text \<open>
  Account state while a branch is validated: \<open>lib/chain/src/state.rs\<close>.  The overlay caches the
  accounts it reads from the store (the argument \<open>store\<close>, \<open>Store::account\<close>), records the
  value each account had when a block first touched it, and yields the rows to write and the rows
  that undo the block.  The coinbase ledger keeps the rewards that may still be immature.
  A hash map is a finite map.
\<close>

section \<open>The overlay\<close>

record overlay =
  ov_accounts :: "(address, account) fmap"
  ov_undo :: "(address, undo_rec) fmap"
  ov_order :: "address list"
  ov_max_accounts :: nat

definition ov_new :: "nat \<Rightarrow> overlay" where
  "ov_new max_accounts =
     \<lparr> ov_accounts = fmempty, ov_undo = fmempty, ov_order = [], ov_max_accounts = max_accounts \<rparr>"

definition ov_seed :: "overlay \<Rightarrow> (address \<times> account) list \<Rightarrow> overlay" where
  "ov_seed ov rows = ov \<lparr> ov_accounts := fold (\<lambda>(a, x) m. fmupd a x m) rows fmempty \<rparr>"

definition ov_len :: "overlay \<Rightarrow> nat" where
  "ov_len ov = fcard (fmdom (ov_accounts ov))"

definition ov_exhausted :: "overlay \<Rightarrow> bool" where
  "ov_exhausted ov \<longleftrightarrow> ov_max_accounts ov < ov_len ov"

definition ov_get :: "(address \<Rightarrow> account) \<Rightarrow> overlay \<Rightarrow> address \<Rightarrow> account \<times> overlay" where
  "ov_get store ov addr =
     (case fmlookup (ov_accounts ov) addr of
        Some a \<Rightarrow> (a, ov)
      | None \<Rightarrow>
          let a = store addr
          in (a, ov \<lparr> ov_accounts := fmupd addr a (ov_accounts ov) \<rparr>))"

definition ov_begin_block :: "overlay \<Rightarrow> overlay" where
  "ov_begin_block ov = ov \<lparr> ov_undo := fmempty, ov_order := [] \<rparr>"

definition ov_capture :: "(address \<Rightarrow> account) \<Rightarrow> overlay \<Rightarrow> address \<Rightarrow> overlay" where
  "ov_capture store ov addr =
     (if fmlookup (ov_undo ov) addr \<noteq> None then ov
      else
        let (prev, ov) = ov_get store ov addr in
        ov \<lparr> ov_undo := fmupd addr
               \<lparr> un_addr = addr, un_prev_balance = ac_balance prev, un_prev_nonce = ac_nonce prev,
                 un_existed = (\<not> is_absent prev) \<rparr> (ov_undo ov),
             ov_order := ov_order ov @ [addr] \<rparr>)"

definition ov_set :: "(address \<Rightarrow> account) \<Rightarrow> overlay \<Rightarrow> address \<Rightarrow> account \<Rightarrow> overlay" where
  "ov_set store ov addr acct =
     (let ov = ov_capture store ov addr
      in ov \<lparr> ov_accounts := fmupd addr acct (ov_accounts ov) \<rparr>)"

definition ov_credit :: "(address \<Rightarrow> account) \<Rightarrow> overlay \<Rightarrow> address \<Rightarrow> u128 \<Rightarrow> reject + overlay" where
  "ov_credit store ov addr amount =
     (let (a, ov) = ov_get store ov addr in
      bindE (ok_or (checked_add (ac_balance a) amount) ArithmeticOverflow) (\<lambda>b.
        Inr (ov_set store ov addr (a \<lparr> ac_balance := b \<rparr>))))"

definition ov_undo_records :: "overlay \<Rightarrow> undo_rec list" where
  "ov_undo_records ov = map (\<lambda>a. the (fmlookup (ov_undo ov) a)) (ov_order ov)"

fun ov_deltas_of :: "(address \<Rightarrow> account) \<Rightarrow> overlay \<Rightarrow> address list \<Rightarrow> state_delta list \<times> overlay" where
  "ov_deltas_of store ov [] = ([], ov)"
| "ov_deltas_of store ov (a # as) =
     (let (acct, ov) = ov_get store ov a;
          (ds, ov) = ov_deltas_of store ov as
      in (\<lparr> sd_addr = a, sd_balance = ac_balance acct, sd_nonce = ac_nonce acct \<rparr> # ds, ov))"

definition ov_deltas :: "(address \<Rightarrow> account) \<Rightarrow> overlay \<Rightarrow> state_delta list \<times> overlay" where
  "ov_deltas store ov = ov_deltas_of store ov (ov_order ov)"

definition ov_apply_undo :: "overlay \<Rightarrow> undo_rec list \<Rightarrow> overlay" where
  "ov_apply_undo ov recs =
     fold (\<lambda>r ov. ov \<lparr> ov_accounts := fmupd (un_addr r)
       \<lparr> ac_balance = un_prev_balance r, ac_nonce = un_prev_nonce r \<rparr> (ov_accounts ov) \<rparr>) recs ov"

section \<open>The coinbase ledger\<close>

type_synonym coinbase_ledger = "(u64 \<times> address \<times> u128) list"

definition ledger_new :: coinbase_ledger where
  "ledger_new = []"

definition ledger_push :: "coinbase_ledger \<Rightarrow> u64 \<Rightarrow> address \<Rightarrow> u128 \<Rightarrow> coinbase_ledger" where
  "ledger_push l height addr credit = l @ [(height, addr, credit)]"

definition ledger_truncate_from :: "coinbase_ledger \<Rightarrow> u64 \<Rightarrow> coinbase_ledger" where
  "ledger_truncate_from l height = filter (\<lambda>(h, _, _). h < height) l"

definition mature :: "u64 \<Rightarrow> u64 \<Rightarrow> bool" where
  "mature coinbase_height spend_height = coinbase_is_mature coinbase_height spend_height"

definition immature_at :: "coinbase_ledger \<Rightarrow> address \<Rightarrow> u64 \<Rightarrow> u128" where
  "immature_at l addr spend_height =
     foldl saturating_add 0
       (map (\<lambda>(_, _, c). c) (filter (\<lambda>(h, a, _). a = addr \<and> \<not> mature h spend_height) l))"

definition ledger_spendable :: "coinbase_ledger \<Rightarrow> address \<Rightarrow> u128 \<Rightarrow> u64 \<Rightarrow> u128" where
  "ledger_spendable l addr balance spend_height = spendable_balance balance (immature_at l addr spend_height)"

definition immature_window_start :: "u64 \<Rightarrow> u64" where
  "immature_window_start spend_height = saturating_sub spend_height (COINBASE_MATURITY - 1)"

section \<open>The overlay as a state\<close>

text \<open>What the overlay denotes: the account of every address.\<close>

definition ov_view :: "(address \<Rightarrow> account) \<Rightarrow> overlay \<Rightarrow> address \<Rightarrow> account" where
  "ov_view store ov a = (case fmlookup (ov_accounts ov) a of Some x \<Rightarrow> x | None \<Rightarrow> store a)"

named_theorems overlay_simps

lemma ov_get_result [overlay_simps]: "fst (ov_get store ov a) = ov_view store ov a"
  by (simp add: ov_get_def ov_view_def Let_def split: option.split)

lemma ov_get_view [overlay_simps]: "ov_view store (snd (ov_get store ov a)) = ov_view store ov"
  by (auto simp: ov_get_def ov_view_def Let_def fun_eq_iff split: option.split)

lemma ov_get_undo [overlay_simps]:
  "ov_undo (snd (ov_get store ov a)) = ov_undo ov" "ov_order (snd (ov_get store ov a)) = ov_order ov"
  by (simp_all add: ov_get_def Let_def split: option.split)

lemma ov_capture_view [overlay_simps]: "ov_view store (ov_capture store ov a) = ov_view store ov"
proof -
  have "ov_view store (ov' \<lparr> ov_undo := u, ov_order := o' \<rparr>) = ov_view store ov'" for ov' u o'
    by (simp add: ov_view_def fun_eq_iff)
  then show ?thesis by (simp add: ov_capture_def split_beta Let_def ov_get_view)
qed

lemma ov_set_view [overlay_simps]: "ov_view store (ov_set store ov a x) = (ov_view store ov)(a := x)"
proof -
  have "ov_view store (ov' \<lparr> ov_accounts := fmupd a x (ov_accounts ov') \<rparr>) = (ov_view store ov')(a := x)" for ov'
    by (simp add: ov_view_def fun_eq_iff)
  then show ?thesis by (simp add: ov_set_def Let_def ov_capture_view)
qed

lemma ov_begin_view [overlay_simps]: "ov_view store (ov_begin_block ov) = ov_view store ov"
  by (simp add: ov_begin_block_def ov_view_def fun_eq_iff)

text \<open>
  The undo rows are right: an address with a row had the recorded value when the block began, an
  address without one still has it.
\<close>

definition undo_inv :: "(address \<Rightarrow> account) \<Rightarrow> (address \<Rightarrow> account) \<Rightarrow> overlay \<Rightarrow> bool" where
  "undo_inv store base ov \<longleftrightarrow>
     distinct (ov_order ov) \<and> set (ov_order ov) = fset (fmdom (ov_undo ov)) \<and>
     (\<forall>a. fmlookup (ov_undo ov) a = None \<longrightarrow> ov_view store ov a = base a) \<and>
     (\<forall>a u. fmlookup (ov_undo ov) a = Some u \<longrightarrow>
        un_addr u = a \<and> un_prev_balance u = ac_balance (base a) \<and>
        un_prev_nonce u = ac_nonce (base a) \<and> un_existed u = (\<not> is_absent (base a)))"

lemma undo_inv_begin: "undo_inv store (ov_view store ov) (ov_begin_block ov)"
  unfolding undo_inv_def ov_begin_view by (simp add: ov_begin_block_def)

lemma undo_inv_get: "undo_inv store base ov \<Longrightarrow> undo_inv store base (snd (ov_get store ov a))"
  unfolding undo_inv_def ov_get_view ov_get_undo .

lemma undo_inv_set:
  assumes "undo_inv store base ov"
  shows "undo_inv store base (ov_set store ov a x)"
proof (cases "fmlookup (ov_undo ov) a")
  case (Some u)
  have "ov_undo (ov_set store ov a x) = ov_undo ov" "ov_order (ov_set store ov a x) = ov_order ov"
    using Some by (simp_all add: ov_set_def ov_capture_def Let_def)
  then show ?thesis using assms Some by (auto simp: undo_inv_def overlay_simps)
next
  case None
  let ?u = "\<lparr> un_addr = a, un_prev_balance = ac_balance (ov_view store ov a),
    un_prev_nonce = ac_nonce (ov_view store ov a), un_existed = (\<not> is_absent (ov_view store ov a)) \<rparr>"
  have u: "ov_undo (ov_set store ov a x) = fmupd a ?u (ov_undo ov)"
    and o: "ov_order (ov_set store ov a x) = ov_order ov @ [a]"
    using None by (simp_all add: ov_set_def ov_capture_def Let_def split_beta overlay_simps)
  have "a \<notin> set (ov_order ov)" using assms None by (simp add: undo_inv_def fmdom_notI)
  moreover have "ov_view store ov a = base a" using assms None by (simp add: undo_inv_def)
  ultimately show ?thesis
    using assms unfolding undo_inv_def u o by (auto simp: overlay_simps)
qed

lemma undo_inv_credit:
  "undo_inv store base ov \<Longrightarrow> ov_credit store ov a n = Inr ov' \<Longrightarrow> undo_inv store base ov'"
  by (auto simp: ov_credit_def split_beta Let_def result_simps intro!: undo_inv_set undo_inv_get)

lemma ov_credit_Inr:
  assumes "ov_credit store ov a n = Inr ov'"
  shows "\<exists>b. unat b = unat (ac_balance (ov_view store ov a)) + unat n \<and>
    ov_view store ov' = (ov_view store ov)(a := (ov_view store ov a) \<lparr> ac_balance := b \<rparr>)"
  using assms by (auto simp: ov_credit_def split_beta Let_def result_simps overlay_simps checked_add_unat)


lemma ov_deltas_of_view:
  "fst (ov_deltas_of store ov as) =
     map (\<lambda>a. \<lparr> sd_addr = a, sd_balance = ac_balance (ov_view store ov a), sd_nonce = ac_nonce (ov_view store ov a) \<rparr>) as \<and>
   ov_view store (snd (ov_deltas_of store ov as)) = ov_view store ov \<and>
   ov_undo (snd (ov_deltas_of store ov as)) = ov_undo ov \<and> ov_order (snd (ov_deltas_of store ov as)) = ov_order ov"
  by (induction "as" arbitrary: ov) (simp_all add: split_beta Let_def overlay_simps)

text \<open>Writing rows over a state.\<close>

definition write_deltas :: "state_delta list \<Rightarrow> (address \<Rightarrow> account) \<Rightarrow> address \<Rightarrow> account" where
  "write_deltas ds st = fold (\<lambda>d st. st(sd_addr d := \<lparr> ac_balance = sd_balance d, ac_nonce = sd_nonce d \<rparr>)) ds st"

definition write_undo :: "undo_rec list \<Rightarrow> (address \<Rightarrow> account) \<Rightarrow> address \<Rightarrow> account" where
  "write_undo us st = fold (\<lambda>u st. st(un_addr u := \<lparr> ac_balance = un_prev_balance u, ac_nonce = un_prev_nonce u \<rparr>)) us st"

lemma account_eta: "\<lparr> ac_balance = ac_balance x, ac_nonce = ac_nonce x \<rparr> = (x :: account)"
  by simp

lemma fold_overwrite:
  assumes "\<forall>r \<in> set rs. v r = target (k r)"
  shows "fold (\<lambda>r st. st(k r := v r)) rs st = (\<lambda>a. if a \<in> k ` set rs then target a else st a)"
  using assms
proof (induction rs arbitrary: st)
  case (Cons r rs)
  then show ?case by (auto simp: fun_eq_iff)
qed simp

lemma undo_rows:
  assumes "undo_inv store base ov" "u \<in> set (ov_undo_records ov)"
  shows "un_prev_balance u = ac_balance (base (un_addr u)) \<and> un_prev_nonce u = ac_nonce (base (un_addr u)) \<and>
    un_existed u = (\<not> is_absent (base (un_addr u)))"
proof -
  obtain a where a: "a \<in> set (ov_order ov)" "u = the (fmlookup (ov_undo ov) a)"
    using assms(2) by (auto simp: ov_undo_records_def)
  then have "fmlookup (ov_undo ov) a = Some u" using assms(1) by (auto simp: undo_inv_def fmlookup_dom_iff)
  then show ?thesis using assms(1) by (auto simp: undo_inv_def)
qed

lemma undo_addrs:
  assumes "undo_inv store base ov"
  shows "map un_addr (ov_undo_records ov) = ov_order ov"
proof -
  have "un_addr (the (fmlookup (ov_undo ov) a)) = a" if "a \<in> set (ov_order ov)" for a
  proof -
    have "a |\<in>| fmdom (ov_undo ov)" using assms that by (simp add: undo_inv_def)
    then obtain u where "fmlookup (ov_undo ov) a = Some u" by (auto elim: fmdomE)
    then show ?thesis using assms by (auto simp: undo_inv_def)
  qed
  then show ?thesis by (simp add: ov_undo_records_def map_idI)
qed

lemma ov_apply_undo_view: "ov_view store (ov_apply_undo ov us) = write_undo us (ov_view store ov)"
  unfolding ov_apply_undo_def write_undo_def
proof (induction us arbitrary: ov)
  case (Cons u us)
  have "ov_view store (ov \<lparr> ov_accounts := fmupd b x (ov_accounts ov) \<rparr>) = (ov_view store ov)(b := x)" for b x
    by (simp add: ov_view_def fun_eq_iff)
  then show ?case using Cons by simp
qed simp

lemma undo_restores:
  assumes "undo_inv store base ov"
  shows "write_undo (ov_undo_records ov) (ov_view store ov) = base"
proof -
  have "write_undo (ov_undo_records ov) (ov_view store ov) =
      (\<lambda>a. if a \<in> un_addr ` set (ov_undo_records ov) then base a else ov_view store ov a)"
    unfolding write_undo_def by (rule fold_overwrite) (simp add: undo_rows [OF assms])
  moreover have "un_addr ` set (ov_undo_records ov) = fset (fmdom (ov_undo ov))"
    using undo_addrs [OF assms] assms by (metis set_map undo_inv_def)
  ultimately show ?thesis using assms by (auto simp: undo_inv_def fun_eq_iff fmdom_notD)
qed

lemma deltas_produce:
  assumes "undo_inv store base ov"
  shows "write_deltas (fst (ov_deltas store ov)) base = ov_view store ov"
proof -
  have "write_deltas (fst (ov_deltas store ov)) base =
      (\<lambda>a. if a \<in> sd_addr ` set (fst (ov_deltas store ov)) then ov_view store ov a else base a)"
    unfolding write_deltas_def by (rule fold_overwrite) (auto simp: ov_deltas_def ov_deltas_of_view)
  moreover have "sd_addr ` set (fst (ov_deltas store ov)) = fset (fmdom (ov_undo ov))"
    using assms by (simp add: ov_deltas_def ov_deltas_of_view undo_inv_def image_image)
  ultimately show ?thesis using assms by (auto simp: undo_inv_def fun_eq_iff fmdom_notD)
qed


section \<open>Sums of balances\<close>

definition total_balance :: "address set \<Rightarrow> (address \<Rightarrow> account) \<Rightarrow> nat" where
  "total_balance S st = (\<Sum>a\<in>S. unat (ac_balance (st a)))"

lemma total_balance_upd:
  assumes "finite S" "a \<in> S"
  shows "total_balance S (st(a := x)) + unat (ac_balance (st a)) = total_balance S st + unat (ac_balance x)"
proof -
  have "(\<Sum>b\<in>S - {a}. unat (ac_balance ((st(a := x)) b))) = (\<Sum>b\<in>S - {a}. unat (ac_balance (st b)))"
    by (rule sum.cong) auto
  then show ?thesis
    using assms by (simp add: total_balance_def sum.remove [of S a])
qed

lemma total_balance_deltas:
  assumes "undo_inv store base ov"
  shows "sum_list (map (unat \<circ> sd_balance) (fst (ov_deltas store ov))) = total_balance (set (ov_order ov)) (ov_view store ov)"
    and "sum_list (map (unat \<circ> un_prev_balance) (ov_undo_records ov)) = total_balance (set (ov_order ov)) base"
proof -
  have d: "distinct (ov_order ov)" using assms by (simp add: undo_inv_def)
  show "sum_list (map (unat \<circ> sd_balance) (fst (ov_deltas store ov))) = total_balance (set (ov_order ov)) (ov_view store ov)"
    using d by (simp add: ov_deltas_def ov_deltas_of_view comp_def total_balance_def sum_list_distinct_conv_sum_set)
  have "map (unat \<circ> un_prev_balance) (ov_undo_records ov) =
      map (\<lambda>a. unat (ac_balance (base a))) (map un_addr (ov_undo_records ov))"
    using undo_rows [OF assms] by simp
  then show "sum_list (map (unat \<circ> un_prev_balance) (ov_undo_records ov)) = total_balance (set (ov_order ov)) base"
    unfolding undo_addrs [OF assms] using d by (simp add: total_balance_def sum_list_distinct_conv_sum_set)
qed

section \<open>Immature rewards\<close>

definition immature_sum :: "coinbase_ledger \<Rightarrow> address \<Rightarrow> u64 \<Rightarrow> nat" where
  "immature_sum l addr h = sum_list (map (\<lambda>(_, _, c). unat c) (filter (\<lambda>(k, a, _). a = addr \<and> \<not> mature k h) l))"

lemma foldl_saturating_add:
  "unat (foldl saturating_add (x :: u128) cs) = min (2 ^ 128 - 1) (unat x + sum_list (map unat cs))"
proof (induction cs arbitrary: x)
  case Nil
  then show ?case using unat_u128_lt [of x] by simp
next
  case (Cons c cs)
  have "unat (saturating_add x c) = min (2 ^ 128 - 1) (unat x + unat c)"
    by (simp add: unat_saturating_add)
  then show ?case using Cons [of "saturating_add x c"] by simp
qed

lemma unat_immature_at: "unat (immature_at l a h) = min (2 ^ 128 - 1) (immature_sum l a h)"
  unfolding immature_at_def immature_sum_def foldl_saturating_add
  by (simp add: comp_def case_prod_unfold)

lemma immature_sum_push:
  "immature_sum (ledger_push l k b c) a h = immature_sum l a h + (if b = a \<and> \<not> mature k h then unat c else 0)"
  by (simp add: immature_sum_def ledger_push_def)

lemma mature_iff: "mature k h \<longleftrightarrow> unat k + 60 \<le> unat h"
proof (cases "k \<le> h")
  case True
  then show ?thesis by (auto simp: mature_def coinbase_is_mature_def word_le_nat_alt unat_sub_le)
next
  case False
  then show ?thesis by (simp add: mature_def coinbase_is_mature_def word_le_nat_alt)
qed

lemma immature_sum_later: "h \<le> h' \<Longrightarrow> immature_sum l a h' \<le> immature_sum l a h"
  unfolding immature_sum_def
proof (induction l)
  case (Cons e l)
  obtain k b c where e: "e = (k, b, c)" by (cases e)
  have "mature k h \<Longrightarrow> mature k h'" using Cons.prems by (simp add: mature_iff word_le_nat_alt)
  then show ?case using Cons by (auto simp: e)
qed simp

end
