(* ===== verification/Body_Validation.thy ===== *)
theory Body_Validation
  imports Chain_State Merkle
begin

text \<open>
  Validation of one block body against the overlay: \<open>lib/chain/src/body.rs\<close>.  The
  outer option is a panic (\<open>expect\<close>, \<open>unreachable!\<close>); the lemmas show that there is none.
  On an error the overlay and the ledger are abandoned by every caller, so the model does not
  return them.
\<close>

section \<open>Results that may panic\<close>

definition bindP :: "('e + 'a) option \<Rightarrow> ('a \<Rightarrow> ('e + 'b) option) \<Rightarrow> ('e + 'b) option" where
  "bindP m f = (case m of None \<Rightarrow> None | Some (Inl e) \<Rightarrow> Some (Inl e) | Some (Inr x) \<Rightarrow> f x)"

lemma bindP_simps [simp]:
  "bindP None f = None" "bindP (Some (Inl e)) f = Some (Inl e)" "bindP (Some (Inr x)) f = f x"
  by (simp_all add: bindP_def)

lemma bindP_eq_Inr [result_simps]: "bindP m f = Some (Inr y) \<longleftrightarrow> (\<exists>x. m = Some (Inr x) \<and> f x = Some (Inr y))"
  by (auto simp: bindP_def split: option.splits sum.splits)

lemma bindP_total: "m \<noteq> None \<Longrightarrow> (\<And>x. m = Some (Inr x) \<Longrightarrow> f x \<noteq> None) \<Longrightarrow> bindP m f \<noteq> None"
  by (auto simp: bindP_def split: option.splits sum.splits)

section \<open>Operations\<close>

record validated_block =
  vb_deltas :: "state_delta list"
  vb_undo :: "undo_rec list"
  vb_issued_delta :: u128
  vb_coinbase_to :: address
  vb_coinbase_credit :: u128
  vb_txids :: "hash32 list"
  vb_spent_nonces :: "(address \<times> u64) list"
  vb_non_coinbase_bytes :: "bytes list"

text \<open>The two signature loops.\<close>

fun check_signatures_from :: "'vk ed25519 \<Rightarrow> chain_params \<Rightarrow> nat \<Rightarrow> tx list \<Rightarrow> reject + unit" where
  "check_signatures_from ed params i [] = Inr ()"
| "check_signatures_from ed params i (tx # txs) =
     bindE (case tx of
         Coinbase _ \<Rightarrow> Inr ()
       | Transfer t \<Rightarrow> mapE (\<lambda>_. BadTransferSignature i) (verify_transfer_signature ed (cp_network params) t)
       | Announcement a \<Rightarrow>
           mapE (RejTx i) (check_announcement_stateless ed (cp_network params) a (cp_author_pubkey params)))
     (\<lambda>_. check_signatures_from ed params (i + 1) txs)"

fun check_author_keys_from :: "chain_params \<Rightarrow> nat \<Rightarrow> tx list \<Rightarrow> reject + unit" where
  "check_author_keys_from params i [] = Inr ()"
| "check_author_keys_from params i (tx # txs) =
     (case tx of
        Announcement a \<Rightarrow>
          if an_from_pub a \<noteq> cp_author_pubkey params then Inl (RejTx i NotAuthorKey)
          else check_author_keys_from params (i + 1) txs
      | _ \<Rightarrow> check_author_keys_from params (i + 1) txs)"

text \<open>The state the transaction loop threads.\<close>

record block_acc =
  ba_overlay :: overlay
  ba_txids :: "hash32 list"
  ba_spent :: "(address \<times> u64) list"
  ba_raws :: "bytes list"

definition apply_transfer ::
  "(address \<Rightarrow> account) \<Rightarrow> coinbase_ledger \<Rightarrow> u64 \<Rightarrow> nat \<Rightarrow> bytes \<Rightarrow> transfer_tx \<Rightarrow> block_acc \<Rightarrow> reject + block_acc" where
  "apply_transfer store ledger height i raw t acc =
     (if tr_fee t < FEE_FLOOR_MILE then Inl (RejFeeBelowFloor i)
      else
        let src = address_payload (tr_from_pub t);
            (acct, ov) = ov_get store (ba_overlay acc) src
        in
        if ac_nonce acct \<noteq> tr_nonce t then Inl (RejBadNonce i (ac_nonce acct) (tr_nonce t))
        else bindE (ok_or (checked_add (tr_amount t) (tr_fee t)) ArithmeticOverflow) (\<lambda>outlay.
          let spendable = ledger_spendable ledger src (ac_balance acct) height in
          if spendable < outlay then Inl (RejInsufficientBalance i outlay spendable)
          else bindE (ok_or (checked_sub (ac_balance acct) outlay) ArithmeticOverflow) (\<lambda>balance.
            bindE (ok_or (checked_add (ac_nonce acct) 1) ArithmeticOverflow) (\<lambda>nonce.
              bindE (ov_credit store (ov_set store ov src \<lparr> ac_balance = balance, ac_nonce = nonce \<rparr>)
                (tr_to t) (tr_amount t)) (\<lambda>ov.
              Inr \<lparr> ba_overlay = ov, ba_txids = ba_txids acc @ [transfer_txid t],
                ba_spent = ba_spent acc @ [(src, tr_nonce t)], ba_raws = ba_raws acc @ [raw] \<rparr>)))))"

definition apply_announcement_tx ::
  "(address \<Rightarrow> account) \<Rightarrow> coinbase_ledger \<Rightarrow> u64 \<Rightarrow> nat \<Rightarrow> bytes \<Rightarrow> announcement_tx \<Rightarrow> block_acc \<Rightarrow> reject + block_acc" where
  "apply_announcement_tx store ledger height i raw a acc =
     (let src = address_payload (an_from_pub a);
          (acct, ov) = ov_get store (ba_overlay acc) src;
          spendable = ledger_spendable ledger src (ac_balance acct) height;
          cs = \<lparr> as_balance = ac_balance acct, as_nonce = ac_nonce acct \<rparr>
      in
      bindE (mapE (RejTx i) (check_announcement_stateful a cs spendable)) (\<lambda>_.
      bindE (mapE (RejTx i) (apply_announcement cs a)) (\<lambda>nxt.
        let ov = ov_set store ov src \<lparr> ac_balance = as_balance nxt, ac_nonce = as_nonce nxt \<rparr> in
        bindE (mapE (\<lambda>_. BodyStructure ''ann txid'') (announcement_txid a)) (\<lambda>id.
        Inr \<lparr> ba_overlay = ov, ba_txids = ba_txids acc @ [id],
          ba_spent = ba_spent acc @ [(src, an_nonce a)], ba_raws = ba_raws acc @ [raw] \<rparr>))))"

definition apply_tx ::
  "(address \<Rightarrow> account) \<Rightarrow> coinbase_ledger \<Rightarrow> u64 \<Rightarrow> block_body \<Rightarrow> nat \<Rightarrow> tx \<Rightarrow> block_acc \<Rightarrow> (reject + block_acc) option" where
  "apply_tx store ledger height body i tx acc =
     (case tx_bytes body i of
        None \<Rightarrow> None
      | Some raw \<Rightarrow>
          (case tx of
             Coinbase _ \<Rightarrow> None
           | Transfer t \<Rightarrow> Some (apply_transfer store ledger height i raw t acc)
           | Announcement a \<Rightarrow> Some (apply_announcement_tx store ledger height i raw a acc)))"

fun apply_txs ::
  "(address \<Rightarrow> account) \<Rightarrow> coinbase_ledger \<Rightarrow> u64 \<Rightarrow> block_body \<Rightarrow> nat \<Rightarrow> tx list \<Rightarrow> block_acc \<Rightarrow> (reject + block_acc) option" where
  "apply_txs store ledger height body i [] acc = Some (Inr acc)"
| "apply_txs store ledger height body i (tx # txs) acc =
     bindP (apply_tx store ledger height body i tx acc) (apply_txs store ledger height body (i + 1) txs)"

definition decode_error_index :: "tx_error \<Rightarrow> nat" where
  "decode_error_index e = (case e of RecordDoesNotDecode i _ \<Rightarrow> i | _ \<Rightarrow> 0)"

text \<open>The checks that do not touch the state, up to the coinbase credit.\<close>

definition check_body ::
  "'vk ed25519 \<Rightarrow> header \<Rightarrow> bytes \<Rightarrow> chain_params \<Rightarrow> trust \<Rightarrow>
   reject + block_body \<times> tx list \<times> coinbase_tx \<times> u128" where
  "check_body ed header raw_body params trust =
     bindE (mapE (\<lambda>_. BodyStructure ''body envelope'') (body_parse raw_body)) (\<lambda>body.
     bindE (mapE (\<lambda>e. RejTx (decode_error_index e) e) (decode_body body)) (\<lambda>txs.
     bindE (mapE (RejTx 0) (check_body_structure txs)) (\<lambda>cb.
     if body_tx_root body \<noteq> hdr_tx_root header then Inl TxRootMismatch
     else
     bindE (if trust = Untrusted then check_signatures_from ed params 0 txs
            else check_author_keys_from params 0 txs) (\<lambda>_.
     bindE (mapE (RejTx 0) (block_fee_total txs)) (\<lambda>fee_total.
     bindE (mapE (RejTx 0) (check_coinbase cb (hdr_height header) (hdr_author_note_len header) fee_total)) (\<lambda>_.
     bindE (mapE (RejTx 0) (coinbase_credit cb)) (\<lambda>credit.
     Inr (body, txs, cb, credit))))))))"

definition validate_block_body ::
  "'vk ed25519 \<Rightarrow> (address \<Rightarrow> account) \<Rightarrow> overlay \<Rightarrow> coinbase_ledger \<Rightarrow> header \<Rightarrow> bytes \<Rightarrow> chain_params \<Rightarrow>
   trust \<Rightarrow> (reject + validated_block \<times> overlay \<times> coinbase_ledger) option" where
  "validate_block_body ed store ov ledger header raw_body params trust =
     bindP (Some (check_body ed header raw_body params trust)) (\<lambda>(body, txs, cb, credit).
     bindP (Some (ov_credit store (ov_begin_block ov) (cb_to cb) credit)) (\<lambda>ov.
     let ledger = ledger_push ledger (hdr_height header) (cb_to cb) credit in
     bindP (Some (mapE (\<lambda>_. BodyStructure ''coinbase txid'') (coinbase_txid cb))) (\<lambda>id.
     bindP (apply_txs store ledger (hdr_height header) body 1 (drop 1 txs)
       \<lparr> ba_overlay = ov, ba_txids = [id], ba_spent = [], ba_raws = [] \<rparr>) (\<lambda>acc.
     let undo = ov_undo_records (ba_overlay acc);
         (deltas, ov) = ov_deltas store (ba_overlay acc)
     in Some (Inr
       (\<lparr> vb_deltas = deltas, vb_undo = undo, vb_issued_delta = cb_reward cb, vb_coinbase_to = cb_to cb,
          vb_coinbase_credit = credit, vb_txids = ba_txids acc, vb_spent_nonces = ba_spent acc,
          vb_non_coinbase_bytes = ba_raws acc \<rparr>, ov, ledger))))))"


section \<open>Conservation\<close>

text \<open>
  Over every finite set of addresses that contains the touched ones, the balances and the amount
  \<open>paid\<close> out add up to the balances at the start of the block and the amount \<open>minted\<close>.
\<close>

definition conserved :: "(address \<Rightarrow> account) \<Rightarrow> (address \<Rightarrow> account) \<Rightarrow> nat \<Rightarrow> nat \<Rightarrow> overlay \<Rightarrow> bool" where
  "conserved store base minted paid ov \<longleftrightarrow>
     undo_inv store base ov \<and>
     (\<forall>S. finite S \<longrightarrow> set (ov_order ov) \<subseteq> S \<longrightarrow>
        total_balance S (ov_view store ov) + paid = total_balance S base + minted)"

lemma conserved_begin: "conserved store (ov_view store ov) 0 0 (ov_begin_block ov)"
  by (simp add: conserved_def undo_inv_begin overlay_simps)

lemma conserved_get: "conserved store base m p ov \<Longrightarrow> conserved store base m p (snd (ov_get store ov a))"
  by (simp add: conserved_def undo_inv_get overlay_simps)

lemma ov_set_order:
  assumes "undo_inv store base ov"
  shows "set (ov_order (ov_set store ov a x)) = insert a (set (ov_order ov))"
proof (cases "fmlookup (ov_undo ov) a")
  case None
  then show ?thesis by (simp add: ov_set_def ov_capture_def Let_def split_beta overlay_simps)
next
  case (Some u)
  then have "a \<in> set (ov_order ov)" using assms by (simp add: undo_inv_def fmdomI)
  then show ?thesis using Some by (auto simp: ov_set_def ov_capture_def Let_def)
qed

lemma conserved_set:
  assumes "conserved store base m p ov"
    and "unat (ac_balance x) + dp = unat (ac_balance (ov_view store ov a)) + dm"
  shows "conserved store base (m + dm) (p + dp) (ov_set store ov a x)"
  unfolding conserved_def
proof (intro conjI allI impI)
  have u: "undo_inv store base ov" using assms(1) by (simp add: conserved_def)
  show "undo_inv store base (ov_set store ov a x)" by (rule undo_inv_set [OF u])
  fix S assume S: "finite S" "set (ov_order (ov_set store ov a x)) \<subseteq> S"
  then have "a \<in> S" "set (ov_order ov) \<subseteq> S" using ov_set_order [OF u] by auto
  moreover from this S have "total_balance S (ov_view store ov) + p = total_balance S base + m"
    using assms(1) by (simp add: conserved_def)
  ultimately show "total_balance S (ov_view store (ov_set store ov a x)) + (p + dp) = total_balance S base + (m + dm)"
    using total_balance_upd [OF S(1), of a "ov_view store ov" x] assms(2) by (simp add: overlay_simps)
qed

lemma conserved_credit:
  assumes "conserved store base m p ov" "ov_credit store ov a n = Inr ov'"
  shows "conserved store base (m + unat n) p ov'"
proof -
  obtain b where b: "checked_add (ac_balance (ov_view store ov a)) n = Some b"
    and ov': "ov' = ov_set store (snd (ov_get store ov a)) a ((ov_view store ov a) \<lparr> ac_balance := b \<rparr>)"
    using assms(2) by (auto simp: ov_credit_def split_beta Let_def result_simps overlay_simps)
  have "unat b = unat (ac_balance (ov_view store ov a)) + unat n" using b by (simp add: checked_add_unat)
  then show ?thesis
    using conserved_set [OF conserved_get [OF assms(1), of a], of _ 0 a "unat n"]
    by (simp add: ov' overlay_simps)
qed

section \<open>Single transactions\<close>

definition nonces_spent :: "address \<Rightarrow> (address \<times> u64) list \<Rightarrow> u64 list" where
  "nonces_spent a spent = map snd (filter (\<lambda>s. fst s = a) spent)"

definition nonces_ok :: "(address \<Rightarrow> account) \<Rightarrow> (address \<Rightarrow> account) \<Rightarrow> (address \<times> u64) list \<Rightarrow> bool" where
  "nonces_ok base st spent \<longleftrightarrow>
     (\<forall>a. unat (ac_nonce (st a)) = unat (ac_nonce (base a)) + length (nonces_spent a spent) \<and>
          map unat (nonces_spent a spent) = [unat (ac_nonce (base a))..<unat (ac_nonce (st a))])"

definition covered :: "coinbase_ledger \<Rightarrow> u64 \<Rightarrow> (address \<Rightarrow> account) \<Rightarrow> bool" where
  "covered l h st \<longleftrightarrow> (\<forall>a. unat (immature_at l a h) \<le> unat (ac_balance (st a)))"

lemma covered_credit:
  "covered l h st \<Longrightarrow> unat b = unat (ac_balance (st a)) + n \<Longrightarrow> covered l h (st(a := (st a) \<lparr> ac_balance := b \<rparr>))"
  by (auto simp: covered_def intro: trans_le_add1)

lemma covered_push:
  assumes "covered l h st" "unat b = unat (ac_balance (st a)) + unat c"
  shows "covered (ledger_push l k a c) h (st(a := (st a) \<lparr> ac_balance := b \<rparr>))"
  unfolding covered_def
proof
  fix x
  have "unat (immature_at l x h) \<le> unat (ac_balance (st x))" using assms(1) by (simp add: covered_def)
  then show "unat (immature_at (ledger_push l k a c) x h) \<le> unat (ac_balance ((st(a := (st a) \<lparr> ac_balance := b \<rparr>)) x))"
    using assms(2) by (auto simp: unat_immature_at immature_sum_push)
qed

lemma covered_debit:
  "covered l h st \<Longrightarrow> unat (immature_at l a h) \<le> unat (ac_balance x) \<Longrightarrow> covered l h (st(a := x))"
  by (simp add: covered_def)

lemma spendable_le:
  assumes "n \<le> ledger_spendable l a b h" "0 < n"
  shows "unat n + unat (immature_at l a h) \<le> unat b"
  using assms by (auto simp: ledger_spendable_def spendable_balance_def word_le_nat_alt word_less_nat_alt unat_saturating_sub)

lemma nonces_ok_step:
  assumes "nonces_ok base st spent" "ac_nonce (st a) = n" "unat (ac_nonce x) = unat n + 1"
  shows "nonces_ok base (st(a := x)) (spent @ [(a, n)])"
  unfolding nonces_ok_def
proof
  fix b
  show "unat (ac_nonce ((st(a := x)) b)) = unat (ac_nonce (base b)) + length (nonces_spent b (spent @ [(a, n)])) \<and>
      map unat (nonces_spent b (spent @ [(a, n)])) = [unat (ac_nonce (base b))..<unat (ac_nonce ((st(a := x)) b))]"
    using assms by (cases "b = a") (auto simp: nonces_ok_def nonces_spent_def)
qed

lemma nonces_ok_balance:
  "nonces_ok base st spent \<Longrightarrow> nonces_ok base (st(a := (st a) \<lparr> ac_balance := b \<rparr>)) spent"
  by (auto simp: nonces_ok_def)


lemma conserved_cancel: "conserved store base (m + k) (p + k) ov \<Longrightarrow> conserved store base m p ov"
  by (simp add: conserved_def)


text \<open>One transaction moves \<open>amount\<close> from \<open>src\<close> to \<open>dst\<close>, takes \<open>fee\<close> and uses one nonce.\<close>

definition tx_moves ::
  "coinbase_ledger \<Rightarrow> u64 \<Rightarrow> address \<Rightarrow> nat \<Rightarrow> nat \<Rightarrow> account \<Rightarrow> (address \<Rightarrow> account) \<Rightarrow> bool" where
  "tx_moves l h src amount fee x st \<longleftrightarrow>
     unat (ac_balance x) + (amount + fee) = unat (ac_balance (st src)) \<and>
     unat (immature_at l src h) \<le> unat (ac_balance x) \<and>
     unat (ac_nonce x) = unat (ac_nonce (st src)) + 1 \<and> 0 < fee"

lemma apply_transfer_effect:
  assumes "apply_transfer store l h i raw t acc = Inr acc'"
  defines "src \<equiv> address_payload (tr_from_pub t)" and "st \<equiv> ov_view store (ba_overlay acc)"
  obtains x where "tx_moves l h src (unat (tr_amount t)) (unat (tr_fee t)) x st"
    "ac_nonce (st src) = tr_nonce t"
    "ov_credit store (ov_set store (snd (ov_get store (ba_overlay acc) src)) src x) (tr_to t) (tr_amount t) =
      Inr (ba_overlay acc')"
    "ba_spent acc' = ba_spent acc @ [(src, tr_nonce t)]"
    "ba_txids acc' = ba_txids acc @ [transfer_txid t]" "ba_raws acc' = ba_raws acc @ [raw]"
proof -
  obtain outlay balance nonce where
    n: "ac_nonce (st src) = tr_nonce t" and fee: "\<not> tr_fee t < 1"
    and o: "checked_add (tr_amount t) (tr_fee t) = Some outlay"
    and sp: "\<not> ledger_spendable l src (ac_balance (st src)) h < outlay"
    and b: "checked_sub (ac_balance (st src)) outlay = Some balance"
    and nn: "checked_add (ac_nonce (st src)) 1 = Some nonce"
    and ov: "ov_credit store (ov_set store (snd (ov_get store (ba_overlay acc) src)) src
        \<lparr> ac_balance = balance, ac_nonce = nonce \<rparr>) (tr_to t) (tr_amount t) = Inr (ba_overlay acc')"
    and rest: "ba_spent acc' = ba_spent acc @ [(src, tr_nonce t)]"
      "ba_txids acc' = ba_txids acc @ [transfer_txid t]" "ba_raws acc' = ba_raws acc @ [raw]"
    using assms(1) unfolding apply_transfer_def Let_def split_beta ov_get_result src_def [symmetric] st_def [symmetric]
    by (auto simp: result_simps split: if_splits)
  have f: "0 < unat (tr_fee t)" using fee by (simp add: word_less_nat_alt linorder_not_less)
  have oo: "unat outlay = unat (tr_amount t) + unat (tr_fee t)" using o by (simp add: checked_add_unat)
  then have "0 < outlay" using f by (simp add: word_less_nat_alt)
  then have "unat outlay + unat (immature_at l src h) \<le> unat (ac_balance (st src))"
    using spendable_le sp linorder_not_less by blast
  then have "tx_moves l h src (unat (tr_amount t)) (unat (tr_fee t)) \<lparr> ac_balance = balance, ac_nonce = nonce \<rparr> st"
    using b nn f oo by (auto simp: tx_moves_def checked_sub_unat checked_add_unat)
  then show thesis using that n ov rest by blast
qed

lemma apply_announcement_effect:
  assumes "apply_announcement_tx store l h i raw a acc = Inr acc'"
  defines "src \<equiv> address_payload (an_from_pub a)" and "st \<equiv> ov_view store (ba_overlay acc)"
  obtains x where "tx_moves l h src 0 (unat (an_fee a)) x st" "ac_nonce (st src) = an_nonce a"
    "ba_overlay acc' = ov_set store (snd (ov_get store (ba_overlay acc) src)) src x"
    "ba_spent acc' = ba_spent acc @ [(src, an_nonce a)]" "ba_raws acc' = ba_raws acc @ [raw]"
proof -
  let ?cs = "\<lparr> as_balance = ac_balance (st src), as_nonce = ac_nonce (st src) \<rparr>"
  obtain nxt where
    ok: "check_announcement_stateful a ?cs (ledger_spendable l src (ac_balance (st src)) h) = Inr ()"
    and nx: "apply_announcement ?cs a = Inr nxt"
    and ov: "ba_overlay acc' = ov_set store (snd (ov_get store (ba_overlay acc) src)) src
        \<lparr> ac_balance = as_balance nxt, ac_nonce = as_nonce nxt \<rparr>"
      "ba_spent acc' = ba_spent acc @ [(src, an_nonce a)]" "ba_raws acc' = ba_raws acc @ [raw]"
    using assms(1) unfolding apply_announcement_tx_def Let_def split_beta ov_get_result src_def [symmetric] st_def [symmetric]
    by (auto simp: result_simps split: if_splits)
  have g: "\<not> an_fee a < 1" "an_nonce a = ac_nonce (st src)"
      "an_fee a \<le> ledger_spendable l src (ac_balance (st src)) h"
    using ok by (auto simp: check_announcement_stateful_def split: if_splits)
  then have f: "0 < an_fee a" "0 < unat (an_fee a)" by (simp_all add: word_less_nat_alt linorder_not_less)
  have "tx_moves l h src 0 (unat (an_fee a)) \<lparr> ac_balance = as_balance nxt, ac_nonce = as_nonce nxt \<rparr> st"
    using nx spendable_le [OF g(3) f(1)] f(2) by (auto simp: tx_moves_def apply_announcement_Inr)
  then show thesis using that g(2) ov by simp
qed


text \<open>
  The invariant of the transaction loop.  \<open>C\<close> says whether the locked rewards were covered
  when the loop began.
\<close>

definition block_ok ::
  "(address \<Rightarrow> account) \<Rightarrow> (address \<Rightarrow> account) \<Rightarrow> coinbase_ledger \<Rightarrow> u64 \<Rightarrow> bool \<Rightarrow> nat \<Rightarrow> nat \<Rightarrow>
   overlay \<Rightarrow> (address \<times> u64) list \<Rightarrow> bool" where
  "block_ok store base l h C minted paid ov spent \<longleftrightarrow>
     conserved store base minted paid ov \<and> nonces_ok base (ov_view store ov) spent \<and>
     (C \<longrightarrow> covered l h (ov_view store ov))"

lemma block_ok_moves:
  assumes "block_ok store base l h C m p ov spent" "tx_moves l h src amount fee x (ov_view store ov)"
  shows "block_ok store base l h C m (p + (amount + fee))
    (ov_set store (snd (ov_get store ov src)) src x) (spent @ [(src, ac_nonce (ov_view store ov src))])"
  using assms conserved_set [OF conserved_get, of store base m p ov x "amount + fee" src src 0]
    nonces_ok_step [of base "ov_view store ov" spent src] covered_debit [of l h "ov_view store ov" src x]
  by (simp add: block_ok_def overlay_simps tx_moves_def)

lemma block_ok_credit:
  assumes "block_ok store base l h C m p ov spent" "ov_credit store ov a n = Inr ov'"
  shows "block_ok store base l h C (m + unat n) p ov' spent"
proof -
  obtain b where "unat b = unat (ac_balance (ov_view store ov a)) + unat n"
      "ov_view store ov' = (ov_view store ov)(a := (ov_view store ov a) \<lparr> ac_balance := b \<rparr>)"
    using ov_credit_Inr [OF assms(2)] by blast
  then show ?thesis
    using assms(1) conserved_credit [OF _ assms(2)] nonces_ok_balance [of base "ov_view store ov" spent]
      covered_credit [of l h "ov_view store ov"]
    by (simp add: block_ok_def)
qed

lemma block_ok_cancel: "block_ok store base l h C (m + k) (p + (k + f)) ov s \<Longrightarrow> block_ok store base l h C m (p + f) ov s"
  using conserved_cancel [of store base m k "p + f" ov] by (simp add: block_ok_def ac_simps)

lemma apply_tx_ok:
  assumes "block_ok store base l h C m p (ba_overlay acc) (ba_spent acc)"
    and "apply_tx store l h body i tx acc = Some (Inr acc')"
  shows "block_ok store base l h C m (p + unat (tx_fee tx)) (ba_overlay acc') (ba_spent acc')"
proof (cases tx)
  case (Coinbase cb)
  then show ?thesis using assms(2) by (simp add: apply_tx_def split: option.splits)
next
  case (Transfer t)
  then obtain raw where "apply_transfer store l h i raw t acc = Inr acc'"
    using assms(2) by (auto simp: apply_tx_def split: option.splits)
  from apply_transfer_effect [OF this]
  obtain x where x: "tx_moves l h (address_payload (tr_from_pub t)) (unat (tr_amount t)) (unat (tr_fee t)) x
      (ov_view store (ba_overlay acc))" and n: "ac_nonce (ov_view store (ba_overlay acc) (address_payload (tr_from_pub t))) = tr_nonce t"
    and c: "ov_credit store (ov_set store (snd (ov_get store (ba_overlay acc) (address_payload (tr_from_pub t))))
        (address_payload (tr_from_pub t)) x) (tr_to t) (tr_amount t) = Inr (ba_overlay acc')"
    and s: "ba_spent acc' = ba_spent acc @ [(address_payload (tr_from_pub t), tr_nonce t)]" by blast
  from block_ok_credit [OF block_ok_moves [OF assms(1) x] c]
  show ?thesis using Transfer n s by (simp add: block_ok_cancel)
next
  case (Announcement a)
  then obtain raw where "apply_announcement_tx store l h i raw a acc = Inr acc'"
    using assms(2) by (auto simp: apply_tx_def split: option.splits)
  from apply_announcement_effect [OF this]
  obtain x where x: "tx_moves l h (address_payload (an_from_pub a)) 0 (unat (an_fee a)) x
      (ov_view store (ba_overlay acc))" and n: "ac_nonce (ov_view store (ba_overlay acc) (address_payload (an_from_pub a))) = an_nonce a"
    and "ba_overlay acc' = ov_set store (snd (ov_get store (ba_overlay acc) (address_payload (an_from_pub a))))
        (address_payload (an_from_pub a)) x" "ba_spent acc' = ba_spent acc @ [(address_payload (an_from_pub a), an_nonce a)]"
    by blast
  with block_ok_moves [OF assms(1) x] show ?thesis using Announcement by simp
qed

lemma apply_txs_ok:
  assumes "block_ok store base l h C m p (ba_overlay acc) (ba_spent acc)"
    and "apply_txs store l h body i txs acc = Some (Inr acc')"
  shows "block_ok store base l h C m (p + fees_of txs) (ba_overlay acc') (ba_spent acc')"
  using assms
proof (induction txs arbitrary: i acc p)
  case (Cons tx txs)
  then obtain acc1 where "apply_tx store l h body i tx acc = Some (Inr acc1)"
      "apply_txs store l h body (i + 1) txs acc1 = Some (Inr acc')"
    by (auto simp: result_simps)
  with Cons.IH [OF apply_tx_ok [OF Cons.prems(1)]] show ?case by (simp add: add.assoc)
qed simp

lemma apply_txs_total:
  "\<not> list_ex is_coinbase txs \<Longrightarrow> i + length txs \<le> body_len body \<Longrightarrow> apply_txs store l h body i txs acc \<noteq> None"
proof (induction txs arbitrary: i acc)
  case (Cons tx txs)
  then obtain raw where "tx_bytes body i = Some raw" by (simp add: tx_bytes_def body_len_def)
  then have "apply_tx store l h body i tx acc \<noteq> None" using Cons.prems(1) by (cases tx) (simp_all add: apply_tx_def)
  then show ?case using Cons by (simp add: bindP_total)
qed simp

lemma check_body_Inr:
  assumes "check_body ed header raw params trust = Inr (body, txs, cb, credit)"
  shows "body_parse raw = Inr body \<and> length txs = body_len body \<and>
    (\<exists>rest. txs = Coinbase cb # rest \<and> \<not> list_ex is_coinbase rest) \<and>
    cb_height cb = hdr_height header \<and> cb_reward cb = block_reward (hdr_height header) \<and>
    unat credit = unat (cb_reward cb) + fees_of txs \<and> body_tx_root body = hdr_tx_root header"
proof -
  from assms have "decode_body body = Inr txs"
    by (auto simp: check_body_def result_simps split: if_splits)
  then have "length txs = body_len body" by (metis decode_body_Inr length_body_txs list_all2_lengthD)
  with assms show ?thesis
    by (auto simp: check_body_def result_simps check_body_structure_Inr block_fee_total_Inr check_coinbase_Inr
        coinbase_credit_Inr split: if_splits)
qed


section \<open>The whole block\<close>

lemma validate_block_body_ok:
  assumes "validate_block_body ed store ov l header raw params trust = Some (Inr (vb, ov', l'))"
  obtains acc :: block_acc and c credit where
    "block_ok store (ov_view store ov) l' (hdr_height header) (covered l (hdr_height header) (ov_view store ov))
       (unat (block_reward (hdr_height header))) 0 (ba_overlay acc) (ba_spent acc)"
    "vb_undo vb = ov_undo_records (ba_overlay acc)" "vb_deltas vb = fst (ov_deltas store (ba_overlay acc))"
    "ov_view store ov' = ov_view store (ba_overlay acc)" "vb_spent_nonces vb = ba_spent acc"
    "vb_issued_delta vb = block_reward (hdr_height header)" "l' = ledger_push l (hdr_height header) c credit"
proof -
  let ?h = "hdr_height header" and ?base = "ov_view store ov"
  from assms obtain body txs cb credit ov1 id acc where
    chk: "check_body ed header raw params trust = Inr (body, txs, cb, credit)"
    and cr: "ov_credit store (ov_begin_block ov) (cb_to cb) credit = Inr ov1"
    and l': "l' = ledger_push l ?h (cb_to cb) credit"
    and app: "apply_txs store l' ?h body 1 (drop 1 txs)
        \<lparr> ba_overlay = ov1, ba_txids = [id], ba_spent = [], ba_raws = [] \<rparr> = Some (Inr acc)"
    and vb: "vb_undo vb = ov_undo_records (ba_overlay acc)" "vb_deltas vb = fst (ov_deltas store (ba_overlay acc))"
      "ov' = snd (ov_deltas store (ba_overlay acc))" "vb_spent_nonces vb = ba_spent acc" "vb_issued_delta vb = cb_reward cb"
    by (auto simp: validate_block_body_def result_simps Let_def split_beta)
  from check_body_Inr [OF chk] obtain rest where txs: "txs = Coinbase cb # rest"
    and rw: "cb_reward cb = block_reward ?h" and credit: "unat credit = unat (cb_reward cb) + fees_of rest" by auto
  obtain b where b: "unat b = unat (ac_balance (?base (cb_to cb))) + unat credit"
      "ov_view store ov1 = ?base(cb_to cb := (?base (cb_to cb)) \<lparr> ac_balance := b \<rparr>)"
    using ov_credit_Inr [OF cr] by (auto simp: ov_begin_view)
  have "nonces_ok ?base ?base []" by (simp add: nonces_ok_def nonces_spent_def)
  then have "block_ok store ?base l' ?h (covered l ?h ?base) (unat credit) 0 ov1 []"
    using conserved_credit [OF conserved_begin cr] nonces_ok_balance [of ?base ?base "[]" "cb_to cb" b]
      covered_push [of l ?h ?base b "cb_to cb" credit ?h] b
    by (simp add: block_ok_def l')
  from apply_txs_ok [OF _ app, of ?base "covered l ?h ?base" "unat credit" 0] this
  have "block_ok store ?base l' ?h (covered l ?h ?base) (unat credit) (fees_of rest) (ba_overlay acc) (ba_spent acc)"
    by (simp add: txs)
  then have "block_ok store ?base l' ?h (covered l ?h ?base) (unat (block_reward ?h)) 0 (ba_overlay acc) (ba_spent acc)"
    using block_ok_cancel [of store ?base l' ?h _ "unat (block_reward ?h)" "fees_of rest" 0 0] credit rw by simp
  moreover have "ov_view store ov' = ov_view store (ba_overlay acc)"
    by (simp add: vb(3) ov_deltas_def ov_deltas_of_view)
  moreover have "vb_issued_delta vb = block_reward ?h" using vb(5) rw by simp
  ultimately show thesis by (rule that [OF _ vb(1, 2) _ vb(4) _ l'])
qed

lemma validate_block_body_not_None: "validate_block_body ed store ov l header raw params trust \<noteq> None"
proof (cases "check_body ed header raw params trust")
  case (Inl e)
  then show ?thesis by (simp add: validate_block_body_def)
next
  case (Inr r)
  obtain body txs cb credit where r: "r = (body, txs, cb, credit)" by (cases r)
  have "apply_txs store l' h body 1 (drop 1 txs) acc \<noteq> None" for l' h acc
  proof (rule apply_txs_total)
    from check_body_Inr [OF Inr [unfolded r]]
    show "\<not> list_ex is_coinbase (drop 1 txs)" "1 + length (drop 1 txs) \<le> body_len body" by auto
  qed
  then show ?thesis
    unfolding validate_block_body_def Inr r bindP_simps prod.case Let_def split_beta
    by (intro bindP_total) simp_all
qed

section \<open>A concrete block\<close>

definition sample_ed :: "unit ed25519" where
  "sample_ed = \<lparr> ed_from_bytes = (\<lambda>_. Some ()), ed_verify_strict = (\<lambda>_ _ _. True) \<rparr>"

definition sample_src :: address where
  "sample_src = address_payload (replicate 32 1)"

definition sample_coinbase :: coinbase_tx where
  "sample_coinbase = \<lparr> cb_height = 1, cb_to = sample_src, cb_reward = BLOCK_SUBSIDY, cb_fees = 1,
     cb_note = \<lparr> note_encoding = 0, note_payload = [] \<rparr> \<rparr>"

definition sample_transfer :: transfer_tx where
  "sample_transfer = \<lparr> tr_from_pub = replicate 32 1, tr_to = sample_src, tr_amount = 10, tr_fee = 1,
     tr_nonce = 0, tr_sig = replicate 64 0 \<rparr>"

definition sample_store :: "address \<Rightarrow> account" where
  "sample_store a = \<lparr> ac_balance = 1000, ac_nonce = 0 \<rparr>"

definition sample_body :: block_body where
  "sample_body = (case coinbase_encode sample_coinbase of
      Inl _ \<Rightarrow> \<lparr> body_raw = [], body_spans = [] \<rparr>
    | Inr c \<Rightarrow> (case body_encode [c, transfer_encode sample_transfer] of
        Inl _ \<Rightarrow> \<lparr> body_raw = [], body_spans = [] \<rparr>
      | Inr raw \<Rightarrow> \<lparr> body_raw = raw, body_spans = spans_at 4 [c, transfer_encode sample_transfer] \<rparr>))"

definition sample_block_header :: header where
  "sample_block_header = \<lparr> hdr_version = VERSION_BASE, hdr_height = 1, hdr_prev_hash = replicate 32 0,
     hdr_tx_root = body_tx_root sample_body, hdr_ext_root = replicate 32 0, hdr_time = 0, hdr_bits = 0,
     hdr_author_note_len = 0, hdr_nonce = 0 \<rparr>"

lemma length_sample_src [simp]: "length sample_src = 20"
  by (simp add: sample_src_def address_payload_def)

lemma sample_encodings:
  obtains c raw where "coinbase_encode sample_coinbase = Inr c" "body_encode [c, transfer_encode sample_transfer] = Inr raw"
proof -
  let ?c = "[0] @ to_le 8 (1 :: u64) @ sample_src @ to_le 16 (200000 :: u128) @ to_le 16 (1 :: u128) @
    ([1] @ [0] @ to_le 2 (0 :: u16) @ [])"
  have c: "coinbase_encode sample_coinbase = Inr ?c"
    by (simp add: coinbase_encode_def sample_coinbase_def note_encode_def)
  have l: "length (transfer_encode sample_transfer) = 157"
    by (simp add: transfer_encode_concat transfer_encode_unsigned_concat wf_transfer_def sample_transfer_def)
  then have "record_ok (transfer_encode sample_transfer)" by (auto simp: record_ok_def)
  moreover have "record_ok ?c" by (simp add: record_ok_def)
  moreover have "length (to_le 4 (of_nat 2 :: u32) @ concat (map record_bytes [?c, transfer_encode sample_transfer])) + 132 \<le> 1048576"
    using l by simp
  ultimately have "\<exists>raw. body_encode [?c, transfer_encode sample_transfer] = Inr raw"
    by (simp add: body_encode_Inr)
  then show thesis using that c by blast
qed

lemma sample_check:
  obtains raw where "check_body sample_ed sample_block_header raw chain_params_default Untrusted =
    Inr (sample_body, [Coinbase sample_coinbase, Transfer sample_transfer], sample_coinbase, 200001)"
proof -
  obtain c raw where c: "coinbase_encode sample_coinbase = Inr c"
    and raw: "body_encode [c, transfer_encode sample_transfer] = Inr raw" using sample_encodings .
  have b: "sample_body = \<lparr> body_raw = raw, body_spans = spans_at 4 [c, transfer_encode sample_transfer] \<rparr>"
    by (simp add: sample_body_def c raw)
  then have "body_parse raw = Inr sample_body" using body_parse_encode [OF raw] by simp
  moreover have "decode_body sample_body = Inr [Coinbase sample_coinbase, Transfer sample_transfer]"
  proof -
    have "body_txs sample_body = [c, transfer_encode sample_transfer]"
      using body_parse_encode(2) [OF raw] by (simp add: b body_txs_def)
    moreover have "decode_tx c = Inr (Coinbase sample_coinbase)"
      by (rule tx_codec.dec_enc) (simp_all add: c wf_coinbase_def, simp add: sample_coinbase_def)
    moreover have "decode_tx (transfer_encode sample_transfer) = Inr (Transfer sample_transfer)"
      by (rule tx_codec.dec_enc) (simp_all add: wf_transfer_def sample_transfer_def)
    ultimately show ?thesis by (simp add: decode_body_Inr)
  qed
  moreover have "block_fee_total [Coinbase sample_coinbase, Transfer sample_transfer] = Inr 1"
    by (simp add: block_fee_total_Inr sample_transfer_def)
  ultimately have "check_body sample_ed sample_block_header raw chain_params_default Untrusted =
      Inr (sample_body, [Coinbase sample_coinbase, Transfer sample_transfer], sample_coinbase, 200001)"
    by (simp add: check_body_def check_body_structure_def verify_transfer_signature_def verify_signature_def
        sample_ed_def check_coinbase_def coinbase_credit_def checked_add_def sample_block_header_def sample_coinbase_def
        block_reward_def subsidy_def)
  then show thesis using that by blast
qed


lemma sample_transfer_fields:
  "address_payload (tr_from_pub sample_transfer) = sample_src" "tr_to sample_transfer = sample_src"
  "tr_amount sample_transfer = 10" "tr_fee sample_transfer = 1" "tr_nonce sample_transfer = 0"
  by (simp_all add: sample_transfer_def sample_src_def)

lemma sample_tx_bytes: obtains raw where "tx_bytes sample_body (Suc 0) = Some raw"
proof -
  obtain c raw where "coinbase_encode sample_coinbase = Inr c"
    "body_encode [c, transfer_encode sample_transfer] = Inr raw" using sample_encodings .
  then show thesis using that by (simp add: sample_body_def tx_bytes_def)
qed

lemma sample_valid:
  obtains raw r where "validate_block_body sample_ed sample_store (ov_new 10) [] sample_block_header raw chain_params_default Untrusted =
    Some (Inr r)"
proof -
  obtain raw where chk: "check_body sample_ed sample_block_header raw chain_params_default Untrusted =
    Inr (sample_body, [Coinbase sample_coinbase, Transfer sample_transfer], sample_coinbase, 200001)"
    using sample_check .
  obtain tb where tb: "tx_bytes sample_body (Suc 0) = Some tb" using sample_tx_bytes .
  obtain c where c: "coinbase_encode sample_coinbase = Inr c" using sample_encodings by blast
  have hh: "hdr_height sample_block_header = 1" "cb_to sample_coinbase = sample_src"
    by (simp_all add: sample_block_header_def sample_coinbase_def)
  let ?l = "ledger_push [] 1 sample_src 200001"
  have v: "ov_view sample_store (ov_begin_block (ov_new 10)) a = \<lparr> ac_balance = 1000, ac_nonce = 0 \<rparr>" for a
    by (simp add: overlay_simps) (simp add: ov_view_def ov_new_def sample_store_def)
  define ov where "ov = ov_set sample_store (snd (ov_get sample_store (ov_begin_block (ov_new 10)) sample_src)) sample_src
    \<lparr> ac_balance = 201001, ac_nonce = 0 \<rparr>"
  have ov: "ov_credit sample_store (ov_begin_block (ov_new 10)) sample_src 200001 = Inr ov"
      "ov_view sample_store ov sample_src = \<lparr> ac_balance = 201001, ac_nonce = 0 \<rparr>"
    by (simp_all add: ov_credit_def split_beta Let_def ov_get_result v checked_add_def ov_def ov_set_view)
  have sp: "ledger_spendable ?l sample_src 201001 1 = 1000"
    by (simp add: ledger_spendable_def spendable_balance_def immature_at_def ledger_push_def mature_def
        coinbase_is_mature_def saturating_sub_def saturating_add_def)
  have "\<exists>acc'. apply_transfer sample_store ?l 1 (Suc 0) tb sample_transfer acc = Inr acc'" if "ba_overlay acc = ov" for acc
    unfolding apply_transfer_def Let_def split_beta ov_get_result that sample_transfer_fields ov(2)
    by (simp add: sp checked_add_def checked_sub_def ov_credit_def split_beta Let_def overlay_simps)
  from this [of "\<lparr> ba_overlay = ov, ba_txids = [txid c], ba_spent = [], ba_raws = [] \<rparr>"]
  obtain acc' where "apply_transfer sample_store ?l 1 (Suc 0) tb sample_transfer
      \<lparr> ba_overlay = ov, ba_txids = [txid c], ba_spent = [], ba_raws = [] \<rparr> = Inr acc'" by auto
  then have "apply_txs sample_store ?l 1 sample_body 1 [Transfer sample_transfer]
      \<lparr> ba_overlay = ov, ba_txids = [txid c], ba_spent = [], ba_raws = [] \<rparr> = Some (Inr acc')"
    by (simp add: apply_tx_def tb)
  then have "\<exists>r. validate_block_body sample_ed sample_store (ov_new 10) [] sample_block_header raw chain_params_default Untrusted =
      Some (Inr r)"
    by (simp add: validate_block_body_def chk ov(1) hh coinbase_txid_def c split_beta Let_def)
  then show thesis using that by blast
qed


section \<open>Properties\<close>

text \<open>
  C22.  A valid block creates exactly the block reward: the balances it writes and the balances
  its undo rows record name the same, pairwise different addresses, and their sums differ by the
  reward of the height.  Fees move from the senders to the coinbase, transfers between accounts.
\<close>
theorem block_conserves_money:
  assumes "validate_block_body ed store ov l header raw params trust = Some (Inr (vb, ov', l'))"
  shows "sum_list (map (unat \<circ> sd_balance) (vb_deltas vb)) =
      sum_list (map (unat \<circ> un_prev_balance) (vb_undo vb)) + unat (block_reward (hdr_height header)) \<and>
    vb_issued_delta vb = block_reward (hdr_height header) \<and>
    map sd_addr (vb_deltas vb) = map un_addr (vb_undo vb) \<and> distinct (map un_addr (vb_undo vb))"
proof (rule validate_block_body_ok [OF assms])
  fix acc :: block_acc
  assume ok: "block_ok store (ov_view store ov) l' (hdr_height header) (covered l (hdr_height header) (ov_view store ov))
       (unat (block_reward (hdr_height header))) 0 (ba_overlay acc) (ba_spent acc)"
    and vb: "vb_undo vb = ov_undo_records (ba_overlay acc)" "vb_deltas vb = fst (ov_deltas store (ba_overlay acc))"
      "vb_issued_delta vb = block_reward (hdr_height header)"
  have u: "undo_inv store (ov_view store ov) (ba_overlay acc)" using ok by (simp add: block_ok_def conserved_def)
  have "total_balance (set (ov_order (ba_overlay acc))) (ov_view store (ba_overlay acc)) =
      total_balance (set (ov_order (ba_overlay acc))) (ov_view store ov) + unat (block_reward (hdr_height header))"
    using ok by (simp add: block_ok_def conserved_def)
  then show ?thesis
    using total_balance_deltas [OF u] undo_addrs [OF u] u vb
    by (simp add: ov_deltas_def ov_deltas_of_view undo_inv_def comp_def)
qed

theorem block_conserves_money_witness:
  "\<exists>raw vb ov' l'. validate_block_body sample_ed sample_store (ov_new 10) [] sample_block_header raw chain_params_default
       Untrusted = Some (Inr (vb, ov', l')) \<and>
     sum_list (map (unat \<circ> sd_balance) (vb_deltas vb)) =
       sum_list (map (unat \<circ> un_prev_balance) (vb_undo vb)) + unat (block_reward 1)"
proof -
  obtain raw vb ov' l' where v: "validate_block_body sample_ed sample_store (ov_new 10) [] sample_block_header raw
      chain_params_default Untrusted = Some (Inr (vb, ov', l'))" using sample_valid by (metis prod.exhaust)
  moreover have "hdr_height sample_block_header = 1" by (simp add: sample_block_header_def)
  ultimately show ?thesis using block_conserves_money [OF v] by auto
qed

text \<open>
  C23.  The rows a valid block commits are exact in both directions: writing the deltas over the
  state before the block gives the state after it, writing the undo rows over the state after it
  gives back the state before it, and so does applying them to the overlay.
\<close>
theorem block_undo_round_trip:
  assumes "validate_block_body ed store ov l header raw params trust = Some (Inr (vb, ov', l'))"
  shows "write_deltas (vb_deltas vb) (ov_view store ov) = ov_view store ov' \<and>
    write_undo (vb_undo vb) (ov_view store ov') = ov_view store ov \<and>
    ov_view store (ov_apply_undo ov' (vb_undo vb)) = ov_view store ov"
proof (rule validate_block_body_ok [OF assms])
  fix acc :: block_acc
  assume ok: "block_ok store (ov_view store ov) l' (hdr_height header) (covered l (hdr_height header) (ov_view store ov))
       (unat (block_reward (hdr_height header))) 0 (ba_overlay acc) (ba_spent acc)"
    and vb: "vb_undo vb = ov_undo_records (ba_overlay acc)" "vb_deltas vb = fst (ov_deltas store (ba_overlay acc))"
      "ov_view store ov' = ov_view store (ba_overlay acc)"
  have u: "undo_inv store (ov_view store ov) (ba_overlay acc)" using ok by (simp add: block_ok_def conserved_def)
  show ?thesis using deltas_produce [OF u] undo_restores [OF u] vb by (simp add: ov_apply_undo_view)
qed

theorem block_undo_round_trip_witness:
  "\<exists>raw vb ov' l'. validate_block_body sample_ed sample_store (ov_new 10) [] sample_block_header raw chain_params_default
       Untrusted = Some (Inr (vb, ov', l')) \<and>
     write_undo (vb_undo vb) (ov_view sample_store ov') = ov_view sample_store (ov_new 10)"
proof -
  obtain raw vb ov' l' where v: "validate_block_body sample_ed sample_store (ov_new 10) [] sample_block_header raw
      chain_params_default Untrusted = Some (Inr (vb, ov', l'))" using sample_valid by (metis prod.exhaust)
  then show ?thesis using block_undo_round_trip [OF v] by auto
qed

text \<open>
  C24.  A valid block neither replays nor spends early.  The nonces it uses for an address are the
  consecutive numbers from the account's nonce before the block to its nonce after it, and if
  every balance covered the immature rewards of its address before the block, every balance
  still does after it, with the block's own reward counted as immature.
\<close>
theorem block_nonces_and_maturity:
  assumes "validate_block_body ed store ov l header raw params trust = Some (Inr (vb, ov', l'))"
  shows "map unat (map snd (filter (\<lambda>s. fst s = a) (vb_spent_nonces vb))) =
      [unat (ac_nonce (ov_view store ov a))..<unat (ac_nonce (ov_view store ov' a))] \<and>
    (covered l (hdr_height header) (ov_view store ov) \<longrightarrow> covered l' (hdr_height header) (ov_view store ov'))"
proof (rule validate_block_body_ok [OF assms])
  fix acc :: block_acc
  assume "block_ok store (ov_view store ov) l' (hdr_height header) (covered l (hdr_height header) (ov_view store ov))
       (unat (block_reward (hdr_height header))) 0 (ba_overlay acc) (ba_spent acc)"
    "ov_view store ov' = ov_view store (ba_overlay acc)" "vb_spent_nonces vb = ba_spent acc"
  then show ?thesis by (auto simp: block_ok_def nonces_ok_def nonces_spent_def)
qed

theorem block_nonces_and_maturity_witness:
  "\<exists>raw vb ov' l'. validate_block_body sample_ed sample_store (ov_new 10) [] sample_block_header raw chain_params_default
       Untrusted = Some (Inr (vb, ov', l')) \<and>
     map unat (map snd (filter (\<lambda>s. fst s = sample_src) (vb_spent_nonces vb))) =
       [0..<unat (ac_nonce (ov_view sample_store ov' sample_src))] \<and>
     covered l' 1 (ov_view sample_store ov')"
proof -
  obtain raw vb ov' l' where v: "validate_block_body sample_ed sample_store (ov_new 10) [] sample_block_header raw
      chain_params_default Untrusted = Some (Inr (vb, ov', l'))" using sample_valid by (metis prod.exhaust)
  have "hdr_height sample_block_header = 1" by (simp add: sample_block_header_def)
  moreover have "covered [] 1 (ov_view sample_store (ov_new 10))" by (simp add: covered_def immature_at_def)
  moreover have "ac_nonce (ov_view sample_store (ov_new 10) sample_src) = 0"
    by (simp add: ov_view_def ov_new_def sample_store_def)
  ultimately show ?thesis using v block_nonces_and_maturity [OF v, of sample_src] by auto
qed


end
