(* ===== verification/Chain_Work.thy ===== *)
theory Chain_Work
  imports Chain_Types
begin

text \<open>
  \<open>lib/chain/src/work.rs\<close>: targets as big-endian bytes, the expansion of compact bits under the
  limit, the direct-mapped memo of work values and the height of the difficulty anchor.  The hit
  and miss counters are natural numbers.
\<close>

section \<open>Operations\<close>

definition target_to_be :: "target \<Rightarrow> hash32" where
  "target_to_be t = concat (map (\<lambda>i. to_be 8 (t ! (3 - i))) [0..<4])"

definition expand_bits :: "u32 \<Rightarrow> target \<Rightarrow> target option" where
  "expand_bits bits pow_limit =
     (case target_from_compact bits of
        Inl _ \<Rightarrow> None
      | Inr t \<Rightarrow> if target_is_zero t \<or> target_cmp t pow_limit = Greater then None else Some t)"

record work_cache =
  wc_slots :: "(u32 \<times> work) option list"
  wc_hits :: nat
  wc_misses :: nat

definition work_cache_new :: work_cache where
  "work_cache_new = \<lparr> wc_slots = replicate 64 None, wc_hits = 0, wc_misses = 0 \<rparr>"

text \<open>The part of \<open>work\<close> after a miss; the outer option is the panic of \<open>work_from_target\<close>.\<close>

definition work_cache_miss :: "work_cache \<Rightarrow> u32 \<Rightarrow> target \<Rightarrow> nat \<Rightarrow> (work option \<times> work_cache) option" where
  "work_cache_miss c bits pow_limit idx =
     (let c = c \<lparr> wc_misses := wc_misses c + 1 \<rparr> in
      case expand_bits bits pow_limit of
        None \<Rightarrow> Some (None, c)
      | Some t \<Rightarrow>
          (case work_from_target (target_to_be t) of
             None \<Rightarrow> None
           | Some w \<Rightarrow> Some (Some w, c \<lparr> wc_slots := (wc_slots c)[idx := Some (bits, w)] \<rparr>)))"

definition work_cache_work :: "work_cache \<Rightarrow> u32 \<Rightarrow> target \<Rightarrow> (work option \<times> work_cache) option" where
  "work_cache_work c bits pow_limit =
     (let idx = unat bits mod 64 in
      case wc_slots c ! idx of
        Some (k, w) \<Rightarrow>
          if k = bits then Some (Some w, c \<lparr> wc_hits := wc_hits c + 1 \<rparr>)
          else work_cache_miss c bits pow_limit idx
      | None \<Rightarrow> work_cache_miss c bits pow_limit idx)"

definition anchor_height_for :: "u64 \<Rightarrow> u64 \<Rightarrow> u64" where
  "anchor_height_for parent_height interval =
     (let interval = (if interval = 0 then ASERT_ANCHOR_INTERVAL else interval)
      in (parent_height div interval) * interval)"

definition expected_child_bits :: "u32 \<Rightarrow> u64 \<Rightarrow> u64 \<Rightarrow> u64 \<Rightarrow> u64 \<Rightarrow> target \<Rightarrow> asert_error + u32" where
  "expected_child_bits a_bits a_height a_parent_time parent_height parent_time pow_limit =
     asert_next_bits a_bits a_height a_parent_time parent_height parent_time pow_limit"

section \<open>Targets as numbers\<close>

lemma length_target_to_be [simp]: "length (target_to_be t) = 32"
  by (simp add: target_to_be_def upt_rec)

lemma be_val_to_be: "be_val (to_be 8 (w :: u64)) = unat w"
  using le_val_le_enc [of 8 "unat w"] unat_u64_lt [of w] by (simp add: be_val_def to_be_def to_le_def)

lemma be_val_target_to_be: "wf_target t \<Longrightarrow> be_val (target_to_be t) = limbs_val t"
proof -
  assume "wf_target t"
  then obtain a b c d where "t = [a, b, c, d]"
    by (auto simp: wf_target_def length_Suc_conv numeral_eq_Suc)
  then show ?thesis
    by (simp add: target_to_be_def upt_rec be_val_append be_val_to_be)
qed

lemma expand_bits_Some:
  assumes "expand_bits bits limit = Some t" "wf_target limit"
  shows "wf_target t \<and> 0 < limbs_val t \<and> limbs_val t \<le> limbs_val limit"
proof -
  have t: "target_from_compact bits = Inr t" "\<not> target_is_zero t" "target_cmp t limit \<noteq> Greater"
    using assms(1) by (auto simp: expand_bits_def split: sum.splits if_splits)
  then have wf: "wf_target t" using wf_target_from_compact by blast
  have "target_cmp t limit = nat_cmp (limbs_val t) (limbs_val limit)"
    using wf assms(2) by (simp add: target_cmp_def limbs_cmp_nat wf_target_def)
  then show ?thesis
    using wf t target_is_zero_val [of t] by (auto simp: wf_target_def nat_cmp_def split: if_splits)
qed

section \<open>The memo\<close>

definition bits_work :: "u32 \<Rightarrow> target \<Rightarrow> work option" where
  "bits_work bits limit =
     (case expand_bits bits limit of None \<Rightarrow> None | Some t \<Rightarrow> work_from_target (target_to_be t))"

lemma bits_work_val:
  assumes "expand_bits bits limit = Some t" "wf_target limit"
  shows "\<exists>w. bits_work bits limit = Some w \<and> wf_work w \<and> limbs_val w = 2 ^ 256 div (limbs_val t + 1)"
  using work_from_target_val [of "target_to_be t"] expand_bits_Some [OF assms] assms(1)
  by (simp add: bits_work_def be_val_target_to_be)

definition cache_ok :: "target \<Rightarrow> work_cache \<Rightarrow> bool" where
  "cache_ok limit c \<longleftrightarrow> length (wc_slots c) = 64 \<and>
     (\<forall>i < 64. \<forall>k w. wc_slots c ! i = Some (k, w) \<longrightarrow> bits_work k limit = Some w)"

lemma cache_ok_new: "cache_ok limit work_cache_new"
  by (simp add: cache_ok_def work_cache_new_def)

lemma work_cache_miss_ok:
  assumes "cache_ok limit c" "i < 64"
  shows "\<exists>c'. work_cache_miss c bits limit i = Some (bits_work bits limit, c') \<and> cache_ok limit c'"
proof (cases "expand_bits bits limit")
  case None
  then show ?thesis using assms by (simp add: work_cache_miss_def bits_work_def cache_ok_def)
next
  case (Some t)
  obtain w where w: "work_from_target (target_to_be t) = Some w" using work_from_target_val [of "target_to_be t"] by auto
  then have "bits_work bits limit = Some w" by (simp add: bits_work_def Some)
  then show ?thesis
    using assms by (auto simp: work_cache_miss_def Let_def Some w cache_ok_def nth_list_update split: if_splits)
qed

lemma work_cache_work_ok:
  assumes "cache_ok limit c"
  shows "\<exists>c'. work_cache_work c bits limit = Some (bits_work bits limit, c') \<and> cache_ok limit c'"
proof -
  let ?i = "unat bits mod 64"
  have i: "?i < 64" by simp
  note miss = work_cache_miss_ok [OF assms i, of bits]
  show ?thesis
  proof (cases "wc_slots c ! ?i")
    case None
    then show ?thesis using miss by (simp add: work_cache_work_def)
  next
    case (Some s)
    obtain k w where s: "s = (k, w)" by (cases s)
    show ?thesis
    proof (cases "k = bits")
      case True
      then have "bits_work bits limit = Some w" using assms i Some s unfolding cache_ok_def by blast
      then show ?thesis using assms True Some s by (simp add: work_cache_work_def cache_ok_def)
    next
      case False
      then show ?thesis using miss Some s by (simp add: work_cache_work_def)
    qed
  qed
qed

section \<open>Properties\<close>

text \<open>
  C30.  The work memo never lies: after any sequence of lookups under one limit, a lookup returns
  exactly what the direct computation returns, whether it hits a slot, misses it or collides,
  and for legal bits that is two to the power 256 divided by the target plus one.
\<close>
theorem work_memo_matches_direct:
  assumes "wf_target limit"
  shows "\<exists>c'. foldl (\<lambda>c b. Option.bind c (\<lambda>c. map_option snd (work_cache_work c b limit))) (Some work_cache_new) bs = Some c' \<and>
    map_option fst (work_cache_work c' bits limit) =
      Some (case expand_bits bits limit of None \<Rightarrow> None | Some t \<Rightarrow> work_from_target (target_to_be t)) \<and>
    (\<forall>t. expand_bits bits limit = Some t \<longrightarrow>
       (\<exists>w. work_from_target (target_to_be t) = Some w \<and> limbs_val w = 2 ^ 256 div (limbs_val t + 1)))"
proof -
  have "\<exists>c'. foldl (\<lambda>c b. Option.bind c (\<lambda>c. map_option snd (work_cache_work c b limit))) (Some c) bs = Some c' \<and> cache_ok limit c'"
    if "cache_ok limit c" for c
    using that
  proof (induction bs arbitrary: c)
    case (Cons b bs)
    then show ?case using work_cache_work_ok [OF Cons.prems, of b] by force
  qed simp
  from this [OF cache_ok_new] obtain c' where c':
      "foldl (\<lambda>c b. Option.bind c (\<lambda>c. map_option snd (work_cache_work c b limit))) (Some work_cache_new) bs = Some c'"
      "cache_ok limit c'" by blast
  from work_cache_work_ok [OF c'(2), of bits] have "map_option fst (work_cache_work c' bits limit) = Some (bits_work bits limit)"
    by auto
  moreover have "\<forall>t. expand_bits bits limit = Some t \<longrightarrow>
       (\<exists>w. work_from_target (target_to_be t) = Some w \<and> limbs_val w = 2 ^ 256 div (limbs_val t + 1))"
    using bits_work_val [OF _ assms] by (auto simp: bits_work_def)
  ultimately show ?thesis using c'(1) by (auto simp: bits_work_def)
qed

theorem work_memo_matches_direct_witness:
  "\<exists>c'. foldl (\<lambda>c b. Option.bind c (\<lambda>c. map_option snd (work_cache_work c b [-1, -1, -1, 0xFFFFFFFFFFFF])))
       (Some work_cache_new) [0x1d00ffff, 0x1f00ffff] = Some c' \<and>
     map_option fst (work_cache_work c' 0 [-1, -1, -1, 0xFFFFFFFFFFFF]) = Some None"
proof -
  have "wf_target [-1, -1, -1, 0xFFFFFFFFFFFF]" by (simp add: wf_target_def)
  moreover have "expand_bits 0 [-1, -1, -1, 0xFFFFFFFFFFFF] = None"
    by (simp add: expand_bits_def target_from_compact_def target_ZERO_def target_is_zero_def)
  ultimately show ?thesis
    using work_memo_matches_direct [of "[-1, -1, -1, 0xFFFFFFFFFFFF]" "[0x1d00ffff, 0x1f00ffff]" 0] by auto
qed

end
