(* ===== verification/Header_Index.thy ===== *)
theory Header_Index
  imports Chain_Work "HOL-Library.Finite_Map" "HOL-Library.Monad_Syntax"
begin

text \<open>
  The header arena of \<open>lib/chain/src/index.rs\<close>: nodes in insertion order, each naming its parent
  by index, a hash table into the arena and the canonical chain as a list of indices.  An index
  out of range is a panic, \<open>None\<close>; walks along parents are partial functions, so not ending is
  \<open>None\<close> as well.  Debug assertions are left out, as in a release build.
\<close>

unbundle bit_operations_syntax

section \<open>Operations\<close>

definition NO_PARENT :: u32 where "NO_PARENT = - 1"
definition FLAG_POW_OK :: u8 where [simp]: "FLAG_POW_OK = 1"
definition FLAG_INVALID :: u8 where [simp]: "FLAG_INVALID = 2"
definition FLAG_HAVE_BODY :: u8 where [simp]: "FLAG_HAVE_BODY = 4"

record node =
  nd_hash :: hash32
  nd_prev :: u32
  nd_height :: u64
  nd_time :: u64
  nd_bits :: u32
  nd_cum_work :: work
  nd_branch_base_height :: u64
  nd_flags :: u8

definition nd_pow_ok :: "node \<Rightarrow> bool" where
  "nd_pow_ok n \<longleftrightarrow> nd_flags n AND FLAG_POW_OK \<noteq> 0"

definition nd_invalid :: "node \<Rightarrow> bool" where
  "nd_invalid n \<longleftrightarrow> nd_flags n AND FLAG_INVALID \<noteq> 0"

definition nd_have_body :: "node \<Rightarrow> bool" where
  "nd_have_body n \<longleftrightarrow> nd_flags n AND FLAG_HAVE_BODY \<noteq> 0"

record header_index =
  hx_nodes :: "node list"
  hx_by_hash :: "(hash32, u32) fmap"
  hx_canonical :: "u32 list"

definition hx_new :: header_index where
  "hx_new = \<lparr> hx_nodes = [], hx_by_hash = fmempty, hx_canonical = [] \<rparr>"

definition hx_len :: "header_index \<Rightarrow> nat" where
  "hx_len ix = length (hx_nodes ix)"

definition hx_node :: "header_index \<Rightarrow> u32 \<Rightarrow> node option" where
  "hx_node ix idx = (if unat idx < length (hx_nodes ix) then Some (hx_nodes ix ! unat idx) else None)"

definition hx_index_of :: "header_index \<Rightarrow> hash32 \<Rightarrow> u32 option" where
  "hx_index_of ix hash = fmlookup (hx_by_hash ix) hash"

definition hx_get :: "header_index \<Rightarrow> hash32 \<Rightarrow> node option option" where
  "hx_get ix hash = (case hx_index_of ix hash of None \<Rightarrow> Some None | Some i \<Rightarrow> map_option Some (hx_node ix i))"

definition hx_contains :: "header_index \<Rightarrow> hash32 \<Rightarrow> bool" where
  "hx_contains ix hash \<longleftrightarrow> fmlookup (hx_by_hash ix) hash \<noteq> None"

definition hx_tip_index :: "header_index \<Rightarrow> u32 option" where
  "hx_tip_index ix = (if hx_canonical ix = [] then None else Some (last (hx_canonical ix)))"

definition hx_tip :: "header_index \<Rightarrow> node option" where
  "hx_tip ix = do { i \<leftarrow> hx_tip_index ix; hx_node ix i }"

definition hx_tip_height :: "header_index \<Rightarrow> u64 option" where
  "hx_tip_height ix = map_option nd_height (hx_tip ix)"

definition hx_canonical_at :: "header_index \<Rightarrow> u64 \<Rightarrow> node option option" where
  "hx_canonical_at ix height =
     (if unat height < length (hx_canonical ix) then map_option Some (hx_node ix (hx_canonical ix ! unat height))
      else Some None)"

definition canonical_has :: "u32 list \<Rightarrow> u64 \<Rightarrow> u32 \<Rightarrow> bool" where
  "canonical_has chain h idx \<longleftrightarrow> unat h < length chain \<and> chain ! unat h = idx"

definition hx_is_canonical :: "header_index \<Rightarrow> u32 \<Rightarrow> bool option" where
  "hx_is_canonical ix idx = do { n \<leftarrow> hx_node ix idx; Some (canonical_has (hx_canonical ix) (nd_height n) idx) }"

definition hx_insert_genesis :: "header_index \<Rightarrow> header_rec \<Rightarrow> work \<Rightarrow> (u32 \<times> header_index) option" where
  "hx_insert_genesis ix rec w =
     (if hx_nodes ix \<noteq> [] then None
      else Some (0, ix
        \<lparr> hx_nodes := hx_nodes ix @
            [\<lparr> nd_hash = hr_hash rec, nd_prev = NO_PARENT, nd_height = hr_height rec, nd_time = hr_time rec,
               nd_bits = hr_bits rec, nd_cum_work = w, nd_branch_base_height = hr_height rec,
               nd_flags = FLAG_POW_OK OR FLAG_HAVE_BODY \<rparr>],
          hx_by_hash := fmupd (hr_hash rec) 0 (hx_by_hash ix),
          hx_canonical := hx_canonical ix @ [0] \<rparr>))"

definition hx_insert :: "header_index \<Rightarrow> header_rec \<Rightarrow> u32 \<Rightarrow> work \<Rightarrow> bool \<Rightarrow> (u32 \<times> header_index) option" where
  "hx_insert ix rec parent cum_work pow_ok =
     (case hx_index_of ix (hr_hash rec) of
        Some existing \<Rightarrow> Some (existing, ix)
      | None \<Rightarrow>
          do { p \<leftarrow> hx_node ix parent;
               canon \<leftarrow> hx_is_canonical ix parent;
               let branch_base = (if canon then nd_height p else nd_branch_base_height p);
                   idx = of_nat (length (hx_nodes ix));
                   flags = (if pow_ok then FLAG_POW_OK else 0);
                   flags = (if nd_invalid p then flags OR FLAG_INVALID else flags)
               in Some (idx, ix
                 \<lparr> hx_nodes := hx_nodes ix @
                     [\<lparr> nd_hash = hr_hash rec, nd_prev = parent, nd_height = hr_height rec, nd_time = hr_time rec,
                        nd_bits = hr_bits rec, nd_cum_work = cum_work, nd_branch_base_height = branch_base,
                        nd_flags = flags \<rparr>],
                   hx_by_hash := fmupd (hr_hash rec) idx (hx_by_hash ix) \<rparr>) })"

definition or_flag :: "u8 \<Rightarrow> node \<Rightarrow> node" where
  "or_flag f n = n \<lparr> nd_flags := nd_flags n OR f \<rparr>"

definition hx_or_flag :: "header_index \<Rightarrow> u32 \<Rightarrow> u8 \<Rightarrow> header_index option" where
  "hx_or_flag ix idx f =
     (if unat idx < length (hx_nodes ix)
      then Some (ix \<lparr> hx_nodes := (hx_nodes ix)[unat idx := or_flag f (hx_nodes ix ! unat idx)] \<rparr>)
      else None)"

definition hx_set_have_body :: "header_index \<Rightarrow> u32 \<Rightarrow> header_index option" where
  "hx_set_have_body ix idx = hx_or_flag ix idx FLAG_HAVE_BODY"

definition hx_set_invalid_flag :: "header_index \<Rightarrow> u32 \<Rightarrow> header_index option" where
  "hx_set_invalid_flag ix idx = hx_or_flag ix idx FLAG_INVALID"

fun mark_loop :: "node list \<Rightarrow> nat list \<Rightarrow> nat \<Rightarrow> (nat \<times> node list) option" where
  "mark_loop nodes [] poisoned = Some (poisoned, nodes)"
| "mark_loop nodes (i # is) poisoned =
     (let prev = nd_prev (nodes ! i) in
      if prev = NO_PARENT then mark_loop nodes is poisoned
      else if length nodes \<le> unat prev then None
      else if nd_invalid (nodes ! unat prev) \<and> \<not> nd_invalid (nodes ! i)
      then mark_loop (nodes[i := or_flag FLAG_INVALID (nodes ! i)]) is (poisoned + 1)
      else mark_loop nodes is poisoned)"

definition hx_mark_invalid :: "header_index \<Rightarrow> u32 \<Rightarrow> (nat \<times> header_index) option" where
  "hx_mark_invalid ix idx =
     do { ix \<leftarrow> hx_or_flag ix idx FLAG_INVALID;
          (poisoned, nodes) \<leftarrow> mark_loop (hx_nodes ix) [unat idx + 1..<length (hx_nodes ix)] 0;
          Some (poisoned, ix \<lparr> hx_nodes := nodes \<rparr>) }"

text \<open>The forward pass of \<open>set_canonical\<close> over the nodes from index \<open>i\<close> on.\<close>

fun rebase_loop :: "u32 list \<Rightarrow> node list \<Rightarrow> nat list \<Rightarrow> node list option" where
  "rebase_loop chain nodes [] = Some nodes"
| "rebase_loop chain nodes (i # is) =
     (let prev = nd_prev (nodes ! i) in
      if prev = NO_PARENT
      then rebase_loop chain (nodes[i := (nodes ! i) \<lparr> nd_branch_base_height := nd_height (nodes ! i) \<rparr>]) is
      else if length nodes \<le> unat prev then None
      else
        let p = nodes ! unat prev;
            base = (if canonical_has chain (nd_height p) prev then nd_height p else nd_branch_base_height p)
        in rebase_loop chain (nodes[i := (nodes ! i) \<lparr> nd_branch_base_height := base \<rparr>]) is)"

definition hx_set_canonical :: "header_index \<Rightarrow> u32 list \<Rightarrow> header_index option" where
  "hx_set_canonical ix chain =
     do { nodes \<leftarrow> rebase_loop chain (hx_nodes ix) [0..<length (hx_nodes ix)];
          Some (ix \<lparr> hx_canonical := chain, hx_nodes := nodes \<rparr>) }"

definition hx_canonical_chain :: "header_index \<Rightarrow> u32 list" where
  "hx_canonical_chain ix = hx_canonical ix"

partial_function (option) ancestry_from :: "header_index \<Rightarrow> u32 list \<Rightarrow> u32 \<Rightarrow> u32 list option" where
  "ancestry_from ix out cur =
     (case hx_node ix cur of
        None \<Rightarrow> None
      | Some n \<Rightarrow>
          let out = out @ [cur] in
          if nd_prev n = NO_PARENT then Some (rev out) else ancestry_from ix out (nd_prev n))"

definition hx_ancestry :: "header_index \<Rightarrow> u32 \<Rightarrow> u32 list option" where
  "hx_ancestry ix idx = ancestry_from ix [] idx"

text \<open>The outer option is a panic or not ending, the inner one the result.\<close>

partial_function (option) hx_ancestor_at :: "header_index \<Rightarrow> u32 \<Rightarrow> u64 \<Rightarrow> u32 option option" where
  "hx_ancestor_at ix cur height =
     (case hx_node ix cur of
        None \<Rightarrow> None
      | Some n \<Rightarrow>
          if nd_height n = height then Some (Some cur)
          else if nd_height n < height \<or> nd_prev n = NO_PARENT then Some None
          else hx_ancestor_at ix (nd_prev n) height)"

fun time_window_from :: "header_index \<Rightarrow> u32 \<Rightarrow> nat \<Rightarrow> u64 list \<Rightarrow> u64 list option" where
  "time_window_from ix cur 0 out = Some (rev out)"
| "time_window_from ix cur (Suc k) out =
     (case hx_node ix cur of
        None \<Rightarrow> None
      | Some n \<Rightarrow>
          let out = out @ [nd_time n] in
          if nd_prev n = NO_PARENT then Some (rev out) else time_window_from ix (nd_prev n) k out)"

definition hx_time_window :: "header_index \<Rightarrow> u32 \<Rightarrow> nat \<Rightarrow> u64 list option" where
  "hx_time_window ix idx span = time_window_from ix idx span []"

definition hx_side_count :: "header_index \<Rightarrow> nat option" where
  "hx_side_count ix =
     (if length (hx_canonical ix) \<le> length (hx_nodes ix) then Some (length (hx_nodes ix) - length (hx_canonical ix))
      else None)"

definition hx_indices :: "header_index \<Rightarrow> u32 list" where
  "hx_indices ix = map of_nat [0..<unat (of_nat (length (hx_nodes ix)) :: u32)]"


section \<open>The invariant\<close>

definition parent_of :: "node list \<Rightarrow> nat \<Rightarrow> nat" where
  "parent_of nodes i = unat (nd_prev (nodes ! i))"

text \<open>Node 0 is genesis; every other node comes after its parent and one height above it.\<close>

definition tree_ok :: "node list \<Rightarrow> bool" where
  "tree_ok nodes \<longleftrightarrow> nodes \<noteq> [] \<and> length nodes < 2 ^ 32 \<and>
     nd_prev (nodes ! 0) = NO_PARENT \<and> nd_height (nodes ! 0) = 0 \<and>
     (\<forall>i. 0 < i \<longrightarrow> i < length nodes \<longrightarrow> parent_of nodes i < i \<and>
        unat (nd_height (nodes ! i)) = unat (nd_height (nodes ! parent_of nodes i)) + 1)"

definition hash_ok :: "node list \<Rightarrow> (hash32, u32) fmap \<Rightarrow> bool" where
  "hash_ok nodes by_hash \<longleftrightarrow>
     (\<forall>h idx. fmlookup by_hash h = Some idx \<longleftrightarrow> unat idx < length nodes \<and> nd_hash (nodes ! unat idx) = h)"

text \<open>The canonical chain starts at genesis, follows parent links and sits at its own heights.\<close>

definition chain_ok :: "node list \<Rightarrow> u32 list \<Rightarrow> bool" where
  "chain_ok nodes chain \<longleftrightarrow> chain \<noteq> [] \<and> chain ! 0 = 0 \<and>
     (\<forall>j < length chain. unat (chain ! j) < length nodes \<and> unat (nd_height (nodes ! unat (chain ! j))) = j) \<and>
     (\<forall>j. Suc j < length chain \<longrightarrow> nd_prev (nodes ! unat (chain ! Suc j)) = chain ! j)"

definition base_rule :: "u32 list \<Rightarrow> node list \<Rightarrow> nat \<Rightarrow> u64" where
  "base_rule chain nodes i =
     (if i = 0 then nd_height (nodes ! 0)
      else
        let p = nodes ! parent_of nodes i in
        if canonical_has chain (nd_height p) (nd_prev (nodes ! i)) then nd_height p else nd_branch_base_height p)"

definition base_ok :: "node list \<Rightarrow> u32 list \<Rightarrow> bool" where
  "base_ok nodes chain \<longleftrightarrow> (\<forall>i < length nodes. nd_branch_base_height (nodes ! i) = base_rule chain nodes i)"

definition invalid_ok :: "node list \<Rightarrow> bool" where
  "invalid_ok nodes \<longleftrightarrow>
     (\<forall>i. 0 < i \<longrightarrow> i < length nodes \<longrightarrow> nd_invalid (nodes ! parent_of nodes i) \<longrightarrow> nd_invalid (nodes ! i))"

definition index_ok :: "header_index \<Rightarrow> bool" where
  "index_ok ix \<longleftrightarrow> tree_ok (hx_nodes ix) \<and> hash_ok (hx_nodes ix) (hx_by_hash ix) \<and>
     chain_ok (hx_nodes ix) (hx_canonical ix) \<and> base_ok (hx_nodes ix) (hx_canonical ix) \<and>
     invalid_ok (hx_nodes ix)"

inductive descends :: "node list \<Rightarrow> nat \<Rightarrow> nat \<Rightarrow> bool" for nodes where
  descends_refl: "descends nodes a a"
| descends_step: "0 < i \<Longrightarrow> i < length nodes \<Longrightarrow> descends nodes a (parent_of nodes i) \<Longrightarrow> descends nodes a i"

inductive_cases descendsE: "descends nodes a i"

lemma tree_parent:
  assumes "tree_ok nodes" "0 < i" "i < length nodes"
  shows "parent_of nodes i < i" "nd_prev (nodes ! i) \<noteq> NO_PARENT"
    "nd_prev (nodes ! i) = of_nat (parent_of nodes i)"
    "unat (nd_height (nodes ! i)) = unat (nd_height (nodes ! parent_of nodes i)) + 1"
proof -
  show p: "parent_of nodes i < i"
    and "unat (nd_height (nodes ! i)) = unat (nd_height (nodes ! parent_of nodes i)) + 1"
    using assms by (auto simp: tree_ok_def)
  have "unat (nd_prev (nodes ! i)) < 2 ^ 32 - 1" using p assms by (simp add: parent_of_def tree_ok_def)
  then show "nd_prev (nodes ! i) \<noteq> NO_PARENT" by (auto simp: NO_PARENT_def unat_max_word)
  show "nd_prev (nodes ! i) = of_nat (parent_of nodes i)" by (simp add: parent_of_def)
qed

lemma no_parent_iff: "tree_ok nodes \<Longrightarrow> i < length nodes \<Longrightarrow> nd_prev (nodes ! i) = NO_PARENT \<longleftrightarrow> i = 0"
  using tree_parent(2) by (cases "i = 0") (auto simp: tree_ok_def)

lemma descends_le: "descends nodes a i \<Longrightarrow> tree_ok nodes \<Longrightarrow> a \<le> i"
  by (induction rule: descends.induct) (fastforce dest: tree_parent(1))+

lemma descends_iff:
  assumes "0 < i" "i < length nodes"
  shows "descends nodes a i \<longleftrightarrow> i = a \<or> descends nodes a (parent_of nodes i)"
  using assms by (auto intro: descends.intros elim: descendsE)

section \<open>Flags\<close>

lemma or_flag_fields [simp]:
  "nd_hash (or_flag f n) = nd_hash n" "nd_prev (or_flag f n) = nd_prev n" "nd_height (or_flag f n) = nd_height n"
  "nd_branch_base_height (or_flag f n) = nd_branch_base_height n" "nd_bits (or_flag f n) = nd_bits n"
  "nd_cum_work (or_flag f n) = nd_cum_work n" "nd_time (or_flag f n) = nd_time n"
  by (simp_all add: or_flag_def)

lemma flag_bits:
  "nd_pow_ok n \<longleftrightarrow> bit (nd_flags n) 0" "nd_invalid n \<longleftrightarrow> bit (nd_flags n) 1" "nd_have_body n \<longleftrightarrow> bit (nd_flags n) 2"
  by (simp_all add: nd_pow_ok_def nd_invalid_def nd_have_body_def bit_iff_and_push_bit_not_eq_0)

lemma or_flag_invalid [simp]: "nd_invalid (or_flag 2 n)" "nd_pow_ok (or_flag 2 n) = nd_pow_ok n"
  by (simp_all add: flag_bits or_flag_def bit_or_iff)

lemma or_flag_body [simp]: "nd_invalid (or_flag 4 n) = nd_invalid n" "nd_pow_ok (or_flag 4 n) = nd_pow_ok n"
  by (simp_all add: flag_bits or_flag_def bit_or_iff)


section \<open>Changes that keep the links\<close>

definition same_links :: "node list \<Rightarrow> node list \<Rightarrow> bool" where
  "same_links nodes nodes' \<longleftrightarrow> length nodes' = length nodes \<and>
     (\<forall>i < length nodes. nd_hash (nodes' ! i) = nd_hash (nodes ! i) \<and> nd_prev (nodes' ! i) = nd_prev (nodes ! i) \<and>
        nd_height (nodes' ! i) = nd_height (nodes ! i) \<and> nd_bits (nodes' ! i) = nd_bits (nodes ! i) \<and>
        nd_cum_work (nodes' ! i) = nd_cum_work (nodes ! i) \<and> nd_time (nodes' ! i) = nd_time (nodes ! i))"

lemma same_links_trans: "same_links a b \<Longrightarrow> same_links b c \<Longrightarrow> same_links a c"
  by (simp add: same_links_def)

lemma same_links_refl [simp]: "same_links a a"
  by (simp add: same_links_def)

lemma same_links_upd:
  "nd_hash n = nd_hash (nodes ! i) \<Longrightarrow> nd_prev n = nd_prev (nodes ! i) \<Longrightarrow> nd_height n = nd_height (nodes ! i) \<Longrightarrow>
   nd_bits n = nd_bits (nodes ! i) \<Longrightarrow> nd_cum_work n = nd_cum_work (nodes ! i) \<Longrightarrow> nd_time n = nd_time (nodes ! i) \<Longrightarrow>
   same_links nodes (nodes[i := n])"
  by (cases "i < length nodes") (auto simp: same_links_def nth_list_update)

lemma same_links_parent: "same_links a b \<Longrightarrow> i < length a \<Longrightarrow> parent_of b i = parent_of a i"
  by (simp add: same_links_def parent_of_def)

lemma same_links_tree: "same_links a b \<Longrightarrow> tree_ok a \<Longrightarrow> tree_ok b"
  unfolding tree_ok_def
proof (elim conjE, intro conjI allI impI)
  assume s: "same_links a b" and a: "a \<noteq> []" "length a < 2 ^ 32" "nd_prev (a ! 0) = NO_PARENT" "nd_height (a ! 0) = 0"
    "\<forall>i. 0 < i \<longrightarrow> i < length a \<longrightarrow> parent_of a i < i \<and>
        unat (nd_height (a ! i)) = unat (nd_height (a ! parent_of a i)) + 1"
  show "b \<noteq> []" "length b < 2 ^ 32" "nd_prev (b ! 0) = NO_PARENT" "nd_height (b ! 0) = 0"
    using s a by (auto simp: same_links_def)
  fix i assume "0 < i" "i < length b"
  then have i: "0 < i" "i < length a" using s by (auto simp: same_links_def)
  then have p: "parent_of b i = parent_of a i" "parent_of a i < i" using s a(5) by (auto simp: same_links_parent)
  show "parent_of b i < i" using p by simp
  show "unat (nd_height (b ! i)) = unat (nd_height (b ! parent_of b i)) + 1"
    using a(5) i p s by (auto simp: same_links_def)
qed

lemma same_links_hash: "same_links a b \<Longrightarrow> hash_ok a m \<Longrightarrow> hash_ok b m"
  by (auto simp: same_links_def hash_ok_def)

lemma same_links_chain: "same_links a b \<Longrightarrow> chain_ok a c \<Longrightarrow> chain_ok b c"
  by (auto simp: same_links_def chain_ok_def)

lemma same_links_descends:
  assumes "same_links a b" "tree_ok a"
  shows "descends b x i \<longleftrightarrow> descends a x i"
proof
  show "descends a x i" if "descends b x i"
    using that by induction (use assms in \<open>auto simp: same_links_parent same_links_def intro: descends.intros\<close>)
  show "descends b x i" if "descends a x i"
    using that by induction (use assms in \<open>auto simp: same_links_parent same_links_def intro: descends.intros\<close>)
qed

section \<open>Poisoning\<close>

lemma mark_loop_spec:
  assumes "tree_ok nodes" "k \<le> length nodes" "0 < k"
  shows "\<exists>p nodes'. mark_loop nodes [k..<length nodes] p0 = Some (p, nodes') \<and> same_links nodes nodes' \<and>
    (\<forall>i < length nodes. nd_branch_base_height (nodes' ! i) = nd_branch_base_height (nodes ! i) \<and>
       nd_pow_ok (nodes' ! i) = nd_pow_ok (nodes ! i)) \<and>
    (\<forall>i < k. nodes' ! i = nodes ! i) \<and>
    (\<forall>i. k \<le> i \<longrightarrow> i < length nodes \<longrightarrow>
       (nd_invalid (nodes' ! i) \<longleftrightarrow> nd_invalid (nodes ! i) \<or> nd_invalid (nodes' ! parent_of nodes i))) \<and>
    p = p0 + card {i. k \<le> i \<and> i < length nodes \<and> nd_invalid (nodes' ! i) \<and> \<not> nd_invalid (nodes ! i)}"
  using assms
proof (induction "length nodes - k" arbitrary: nodes k p0)
  case 0
  then show ?case by (auto simp: card_eq_0_iff)
next
  case (Suc n)
  then have k: "k < length nodes" by simp
  have P: "parent_of nodes k < k" "nd_prev (nodes ! k) \<noteq> NO_PARENT"
    using tree_parent [OF Suc.prems(1) Suc.prems(3) k] by auto
  let ?hit = "nd_invalid (nodes ! parent_of nodes k) \<and> \<not> nd_invalid (nodes ! k)"
  define ns where "ns = (if ?hit then nodes[k := or_flag FLAG_INVALID (nodes ! k)] else nodes)"
  have step: "mark_loop nodes [k..<length nodes] p0 =
      mark_loop ns [Suc k..<length ns] (if ?hit then p0 + 1 else p0)"
    using k P by (simp add: upt_conv_Cons Let_def ns_def parent_of_def linorder_not_le)
  have s: "same_links nodes ns" by (simp add: ns_def same_links_upd)
  have t: "tree_ok ns" using same_links_tree s Suc.prems(1) by blast
  have l: "length ns = length nodes" by (simp add: ns_def)
  have ne: "ns ! i = nodes ! i" if "i \<noteq> k" for i using that by (simp add: ns_def)
  have nk: "nd_invalid (ns ! k) \<longleftrightarrow> nd_invalid (nodes ! k) \<or> nd_invalid (nodes ! parent_of nodes k)"
    using k by (auto simp: ns_def)
  have n: "n = length ns - Suc k" "Suc k \<le> length ns" using Suc.hyps(2) k l by auto
  from Suc.hyps(1) [OF n(1) t n(2) zero_less_Suc, of "if ?hit then p0 + 1 else p0"]
  obtain p nodes' where r: "mark_loop ns [Suc k..<length ns] (if ?hit then p0 + 1 else p0) = Some (p, nodes')"
    "same_links ns nodes'" "\<forall>i < length ns. nd_branch_base_height (nodes' ! i) = nd_branch_base_height (ns ! i) \<and>
       nd_pow_ok (nodes' ! i) = nd_pow_ok (ns ! i)"
    "\<forall>i < Suc k. nodes' ! i = ns ! i"
    "\<forall>i. Suc k \<le> i \<longrightarrow> i < length ns \<longrightarrow>
       (nd_invalid (nodes' ! i) \<longleftrightarrow> nd_invalid (ns ! i) \<or> nd_invalid (nodes' ! parent_of ns i))"
    "p = (if ?hit then p0 + 1 else p0) + card {i. Suc k \<le> i \<and> i < length ns \<and> nd_invalid (nodes' ! i) \<and> \<not> nd_invalid (ns ! i)}"
    by blast
  have pk: "nodes' ! parent_of nodes k = nodes ! parent_of nodes k"
    using r(4) P ne [of "parent_of nodes k"] by auto
  have nk': "nd_invalid (nodes' ! k) \<longleftrightarrow> nd_invalid (nodes ! k) \<or> nd_invalid (nodes' ! parent_of nodes k)"
    using r(4) nk pk by simp
  have rec: "nd_invalid (nodes' ! i) \<longleftrightarrow> nd_invalid (nodes ! i) \<or> nd_invalid (nodes' ! parent_of nodes i)"
    if "k \<le> i" "i < length nodes" for i
    using that r(5) l ne [of i] nk' same_links_parent [OF s, of i] by (cases "i = k") auto
  have "{i. k \<le> i \<and> i < length nodes \<and> nd_invalid (nodes' ! i) \<and> \<not> nd_invalid (nodes ! i)} =
      (if ?hit then insert k else id) {i. Suc k \<le> i \<and> i < length ns \<and> nd_invalid (nodes' ! i) \<and> \<not> nd_invalid (ns ! i)}"
    using k l ne nk' pk r(4) by (auto simp: le_less Suc_le_eq)
  then have p: "p = p0 + card {i. k \<le> i \<and> i < length nodes \<and> nd_invalid (nodes' ! i) \<and> \<not> nd_invalid (nodes ! i)}"
    using r(6) by simp
  have "nd_branch_base_height (ns ! i) = nd_branch_base_height (nodes ! i) \<and> nd_pow_ok (ns ! i) = nd_pow_ok (nodes ! i)" for i
    using k by (cases "i = k") (auto simp: ns_def)
  then show ?case
    using step r(1, 3, 4) s r(2) same_links_trans rec p l ne by fastforce
qed


lemma hx_or_flag_Some:
  "hx_or_flag ix idx f = Some ix' \<longleftrightarrow> unat idx < length (hx_nodes ix) \<and>
     ix' = ix \<lparr> hx_nodes := (hx_nodes ix)[unat idx := or_flag f (hx_nodes ix ! unat idx)] \<rparr>"
  by (auto simp: hx_or_flag_def)

lemma hx_mark_invalid_spec:
  assumes ok: "index_ok ix" and i: "unat idx < length (hx_nodes ix)"
  shows "\<exists>p nodes'. hx_mark_invalid ix idx = Some (p, ix \<lparr> hx_nodes := nodes' \<rparr>) \<and>
    same_links (hx_nodes ix) nodes' \<and>
    (\<forall>j < length (hx_nodes ix). nd_branch_base_height (nodes' ! j) = nd_branch_base_height (hx_nodes ix ! j) \<and>
       nd_pow_ok (nodes' ! j) = nd_pow_ok (hx_nodes ix ! j)) \<and>
    (\<forall>j < length (hx_nodes ix).
       nd_invalid (nodes' ! j) \<longleftrightarrow> nd_invalid (hx_nodes ix ! j) \<or> descends (hx_nodes ix) (unat idx) j) \<and>
    p = card {j. j < length (hx_nodes ix) \<and> j \<noteq> unat idx \<and> nd_invalid (nodes' ! j) \<and> \<not> nd_invalid (hx_nodes ix ! j)}"
proof -
  let ?N = "hx_nodes ix" and ?k = "Suc (unat idx)"
  define ns where "ns = ?N[unat idx := or_flag 2 (?N ! unat idx)]"
  have t: "tree_ok ?N" and inv: "invalid_ok ?N" using ok by (simp_all add: index_ok_def)
  have s: "same_links ?N ns" and l: "length ns = length ?N" by (simp_all add: ns_def same_links_upd)
  have t': "tree_ok ns" using same_links_tree [OF s t] .
  have n: "nd_invalid (ns ! j) \<longleftrightarrow> nd_invalid (?N ! j) \<or> j = unat idx"
    "nd_branch_base_height (ns ! j) = nd_branch_base_height (?N ! j)" "nd_pow_ok (ns ! j) = nd_pow_ok (?N ! j)" for j
    using i by (cases "j = unat idx"; simp add: ns_def)+
  have kl: "?k \<le> length ns" using i l by simp
  obtain p nodes' where r: "mark_loop ns [?k..<length ns] 0 = Some (p, nodes')" "same_links ns nodes'"
    "\<forall>i < length ns. nd_branch_base_height (nodes' ! i) = nd_branch_base_height (ns ! i) \<and> nd_pow_ok (nodes' ! i) = nd_pow_ok (ns ! i)"
    "\<forall>i < ?k. nodes' ! i = ns ! i"
    "\<forall>i. ?k \<le> i \<longrightarrow> i < length ns \<longrightarrow> (nd_invalid (nodes' ! i) \<longleftrightarrow> nd_invalid (ns ! i) \<or> nd_invalid (nodes' ! parent_of ns i))"
    "p = 0 + card {i. ?k \<le> i \<and> i < length ns \<and> nd_invalid (nodes' ! i) \<and> \<not> nd_invalid (ns ! i)}"
    using mark_loop_spec [OF t' kl zero_less_Suc, of 0] by blast
  have desc: "nd_invalid (nodes' ! j) \<longleftrightarrow> nd_invalid (?N ! j) \<or> descends ?N (unat idx) j" if "j < length ?N" for j
    using that
  proof (induction j rule: less_induct)
    case (less j)
    show ?case
    proof (cases "j \<le> unat idx")
      case True
      then have "descends ?N (unat idx) j \<longleftrightarrow> j = unat idx"
        using descends_le [OF _ t] descends_refl by (metis antisym)
      then show ?thesis using r(4) n(1) True by (simp add: less_Suc_eq_le)
    next
      case False
      then have j: "0 < j" and p: "parent_of ?N j < j" using tree_parent(1) [OF t _ less.prems] by auto
      have "nd_invalid (nodes' ! j) \<longleftrightarrow> nd_invalid (?N ! j) \<or> nd_invalid (nodes' ! parent_of ?N j)"
        using r(5) False less.prems n(1) l same_links_parent [OF s less.prems] by auto
      then show ?thesis
        using less.IH [OF p] p less.prems inv j descends_iff [OF j less.prems, of "unat idx"] False
        by (auto simp: invalid_ok_def)
    qed
  qed
  have "{j. ?k \<le> j \<and> j < length ns \<and> nd_invalid (nodes' ! j) \<and> \<not> nd_invalid (ns ! j)} =
      {j. j < length ?N \<and> j \<noteq> unat idx \<and> nd_invalid (nodes' ! j) \<and> \<not> nd_invalid (?N ! j)}"
    using l n(1) r(4) by (auto simp: not_less_eq_eq [symmetric])
  then have "p = card {j. j < length ?N \<and> j \<noteq> unat idx \<and> nd_invalid (nodes' ! j) \<and> \<not> nd_invalid (?N ! j)}"
    using r(6) by simp
  moreover have "hx_mark_invalid ix idx = Some (p, ix \<lparr> hx_nodes := nodes' \<rparr>)"
    using r(1) i l by (simp add: hx_mark_invalid_def hx_or_flag_def ns_def)
  ultimately show ?thesis
    using same_links_trans [OF s r(2)] r(3) n(2, 3) l desc by auto
qed

section \<open>Rebasing\<close>

lemma rebase_loop_spec:
  assumes "tree_ok nodes" "k \<le> length nodes"
  shows "\<exists>nodes'. rebase_loop chain nodes [k..<length nodes] = Some nodes' \<and> same_links nodes nodes' \<and>
    (\<forall>i < length nodes. nd_flags (nodes' ! i) = nd_flags (nodes ! i)) \<and>
    (\<forall>i < k. nodes' ! i = nodes ! i) \<and>
    (\<forall>i. k \<le> i \<longrightarrow> i < length nodes \<longrightarrow> nd_branch_base_height (nodes' ! i) = base_rule chain nodes' i)"
  using assms
proof (induction "length nodes - k" arbitrary: nodes k)
  case 0
  then show ?case by auto
next
  case (Suc n)
  then have k: "k < length nodes" by simp
  define ns where "ns = nodes[k := (nodes ! k) \<lparr> nd_branch_base_height := base_rule chain nodes k \<rparr>]"
  have step: "rebase_loop chain nodes [k..<length nodes] = rebase_loop chain ns [Suc k..<length ns]"
  proof (cases "k = 0")
    case True
    then show ?thesis using k no_parent_iff [OF Suc.prems(1), of 0]
      by (simp add: upt_conv_Cons Let_def ns_def base_rule_def)
  next
    case False
    then have "parent_of nodes k < length nodes" "nd_prev (nodes ! k) \<noteq> NO_PARENT"
      using tree_parent [OF Suc.prems(1) _ k] k by auto
    then show ?thesis using k False
      by (simp add: upt_conv_Cons Let_def ns_def base_rule_def parent_of_def linorder_not_le)
  qed
  have s: "same_links nodes ns" and l: "length ns = length nodes" by (simp_all add: ns_def same_links_upd)
  have t: "tree_ok ns" using same_links_tree [OF s Suc.prems(1)] .
  have ne: "ns ! i = nodes ! i" if "i \<noteq> k" for i using that by (simp add: ns_def)
  have fl: "nd_flags (ns ! i) = nd_flags (nodes ! i)" for i
    using k by (cases "i = k") (simp_all add: ns_def)
  have n: "n = length ns - Suc k" "Suc k \<le> length ns" using Suc.hyps(2) k l by auto
  from Suc.hyps(1) [OF n(1) t n(2)]
  obtain nodes' where r: "rebase_loop chain ns [Suc k..<length ns] = Some nodes'" "same_links ns nodes'"
    "\<forall>i < length ns. nd_flags (nodes' ! i) = nd_flags (ns ! i)"
    "\<forall>i < Suc k. nodes' ! i = ns ! i"
    "\<forall>i. Suc k \<le> i \<longrightarrow> i < length ns \<longrightarrow> nd_branch_base_height (nodes' ! i) = base_rule chain nodes' i" by blast
  have sl: "same_links nodes nodes'" using same_links_trans [OF s r(2)] .
  have "base_rule chain nodes' k = base_rule chain nodes k"
  proof (cases "k = 0")
    case False
    then have p: "parent_of nodes k < k" using tree_parent(1) [OF Suc.prems(1) _ k] by simp
    then have "nodes' ! parent_of nodes k = nodes ! parent_of nodes k" using r(4) ne by simp
    then show ?thesis using False sl k by (simp add: base_rule_def same_links_parent [OF sl k] Let_def same_links_def)
  qed (use sl k in \<open>simp add: base_rule_def same_links_def\<close>)
  then have "nd_branch_base_height (nodes' ! k) = base_rule chain nodes' k" using r(4) k by (simp add: ns_def)
  then have "nd_branch_base_height (nodes' ! i) = base_rule chain nodes' i" if "k \<le> i" "i < length nodes" for i
    using that r(5) l by (cases "i = k") auto
  then show ?case using step r(1, 3, 4) sl fl l ne by fastforce
qed


section \<open>Preservation\<close>

text \<open>Every node's cumulative work is the work of its bits on top of its parent's.\<close>

definition work_ok :: "target \<Rightarrow> node list \<Rightarrow> bool" where
  "work_ok limit nodes \<longleftrightarrow> (\<forall>i < length nodes. wf_work (nd_cum_work (nodes ! i)) \<and>
     (\<exists>w. bits_work (nd_bits (nodes ! i)) limit = Some w \<and> wf_work w \<and>
        limbs_val (nd_cum_work (nodes ! i)) =
          limbs_val w + (if i = 0 then 0 else limbs_val (nd_cum_work (nodes ! parent_of nodes i)))))"

lemma base_rule_cong:
  assumes "same_links a b" "tree_ok a" "i < length a"
    and "\<And>j. j < i \<Longrightarrow> nd_branch_base_height (b ! j) = nd_branch_base_height (a ! j)"
  shows "base_rule c b i = base_rule c a i"
proof (cases "i = 0")
  case False
  then have "parent_of a i < i" using tree_parent(1) [OF assms(2) _ assms(3)] by simp
  then show ?thesis using False assms by (simp add: base_rule_def same_links_parent [OF assms(1, 3)] Let_def same_links_def)
qed (use assms in \<open>simp add: base_rule_def same_links_def\<close>)

lemma same_links_base:
  assumes "same_links a b" "tree_ok a" "base_ok a c"
    and "\<And>j. j < length a \<Longrightarrow> nd_branch_base_height (b ! j) = nd_branch_base_height (a ! j)"
  shows "base_ok b c"
  using assms base_rule_cong [OF assms(1, 2)] by (simp add: base_ok_def same_links_def)

lemma same_links_work:
  assumes "same_links a b" "tree_ok a" "work_ok limit a"
  shows "work_ok limit b"
  unfolding work_ok_def
proof (intro allI impI)
  fix i assume "i < length b"
  then have i: "i < length a" using assms(1) by (simp add: same_links_def)
  have "i \<noteq> 0 \<Longrightarrow> parent_of a i < length a" using tree_parent(1) [OF assms(2) _ i] i by simp
  then show "wf_work (nd_cum_work (b ! i)) \<and>
     (\<exists>w. bits_work (nd_bits (b ! i)) limit = Some w \<and> wf_work w \<and>
        limbs_val (nd_cum_work (b ! i)) = limbs_val w + (if i = 0 then 0 else limbs_val (nd_cum_work (b ! parent_of b i))))"
    using assms(1, 3) i by (auto simp: work_ok_def same_links_parent [OF assms(1) i] same_links_def)
qed

lemma index_ok_links:
  assumes "index_ok ix" "same_links (hx_nodes ix) nodes'" "invalid_ok nodes'"
    and "\<And>j. j < length (hx_nodes ix) \<Longrightarrow> nd_branch_base_height (nodes' ! j) = nd_branch_base_height (hx_nodes ix ! j)"
  shows "index_ok (ix \<lparr> hx_nodes := nodes' \<rparr>)"
  using assms same_links_base [OF assms(2), of "hx_canonical ix"]
  by (simp add: index_ok_def same_links_tree same_links_hash same_links_chain)

lemma index_ok_have_body:
  assumes "index_ok ix" "hx_set_have_body ix idx = Some ix'"
  shows "index_ok ix'"
proof -
  let ?N = "hx_nodes ix"
  have i: "unat idx < length ?N" and ix': "ix' = ix \<lparr> hx_nodes := ?N[unat idx := or_flag 4 (?N ! unat idx)] \<rparr>"
    using assms(2) by (simp_all add: hx_set_have_body_def hx_or_flag_Some)
  have s: "same_links ?N (?N[unat idx := or_flag 4 (?N ! unat idx)])" by (simp add: same_links_upd)
  have f: "nd_invalid (?N[unat idx := or_flag 4 (?N ! unat idx)] ! j) = nd_invalid (?N ! j)"
    "nd_branch_base_height (?N[unat idx := or_flag 4 (?N ! unat idx)] ! j) = nd_branch_base_height (?N ! j)" for j
    using i by (cases "j = unat idx"; simp)+
  have "invalid_ok (?N[unat idx := or_flag 4 (?N ! unat idx)])"
    using assms(1) same_links_parent [OF s] by (simp add: invalid_ok_def f index_ok_def)
  then show ?thesis using index_ok_links [OF assms(1) s] f(2) ix' by simp
qed

lemma index_ok_mark_invalid:
  assumes "index_ok ix" "hx_mark_invalid ix idx = Some (p, ix')"
  shows "index_ok ix'"
proof -
  let ?N = "hx_nodes ix"
  have i: "unat idx < length ?N" using assms(2) by (auto simp: hx_mark_invalid_def hx_or_flag_Some bind_eq_Some_conv)
  obtain p' nodes' where m: "hx_mark_invalid ix idx = Some (p', ix \<lparr> hx_nodes := nodes' \<rparr>)"
    and s: "same_links ?N nodes'"
    and b: "\<forall>j < length ?N. nd_branch_base_height (nodes' ! j) = nd_branch_base_height (?N ! j) \<and>
       nd_pow_ok (nodes' ! j) = nd_pow_ok (?N ! j)"
    and v: "\<forall>j < length ?N. nd_invalid (nodes' ! j) \<longleftrightarrow> nd_invalid (?N ! j) \<or> descends ?N (unat idx) j"
    using hx_mark_invalid_spec [OF assms(1) i] by blast
  have "invalid_ok nodes'"
    unfolding invalid_ok_def
  proof (intro allI impI)
    fix j assume "0 < j" "j < length nodes'" and iv: "nd_invalid (nodes' ! parent_of nodes' j)"
    then have j: "0 < j" "j < length ?N" using s by (simp_all add: same_links_def)
    have p: "parent_of ?N j < j" using tree_parent(1) [of ?N j] assms(1) j by (simp add: index_ok_def)
    then have "nd_invalid (?N ! parent_of ?N j) \<or> descends ?N (unat idx) (parent_of ?N j)"
      using v iv j same_links_parent [OF s j(2)] by auto
    then show "nd_invalid (nodes' ! j)"
      using v assms(1) j descends_step [OF j] by (auto simp: index_ok_def invalid_ok_def)
  qed
  then show ?thesis using index_ok_links [OF assms(1) s] b m assms(2) by simp
qed

lemma index_ok_set_canonical:
  assumes "index_ok ix" "chain_ok (hx_nodes ix) chain" "hx_set_canonical ix chain = Some ix'"
  shows "index_ok ix'"
proof -
  let ?N = "hx_nodes ix"
  have t: "tree_ok ?N" using assms(1) by (simp add: index_ok_def)
  from rebase_loop_spec [OF t, of 0 chain]
  obtain nodes' where r: "rebase_loop chain ?N [0..<length ?N] = Some nodes'" and s: "same_links ?N nodes'"
    and f: "\<forall>i < length ?N. nd_flags (nodes' ! i) = nd_flags (?N ! i)"
    and b: "\<forall>i < length ?N. nd_branch_base_height (nodes' ! i) = base_rule chain nodes' i" by auto
  have "invalid_ok nodes'"
    using assms(1) f s tree_parent(1) [OF t] unfolding invalid_ok_def index_ok_def
    by (metis flag_bits(2) less_trans same_links_def same_links_parent)
  moreover have "base_ok nodes' chain" using b s by (simp add: base_ok_def same_links_def)
  moreover have "ix' = ix \<lparr> hx_canonical := chain, hx_nodes := nodes' \<rparr>" using assms(3) r by (simp add: hx_set_canonical_def)
  ultimately show ?thesis
    using assms(1, 2) s by (simp add: index_ok_def same_links_tree same_links_hash same_links_chain)
qed

lemma index_ok_genesis:
  assumes "hx_insert_genesis hx_new rec w = Some (i, ix)" "hr_height rec = 0"
  shows "index_ok ix"
proof -
  obtain g where nodes: "hx_nodes ix = [g]" and g: "nd_prev g = NO_PARENT" "nd_height g = 0" "nd_branch_base_height g = 0"
      "nd_hash g = hr_hash rec"
    and hx: "hx_by_hash ix = fmupd (hr_hash rec) 0 fmempty" "hx_canonical ix = [0]"
    using assms by (auto simp: hx_insert_genesis_def hx_new_def)
  have "hash_ok [g] (fmupd (hr_hash rec) 0 fmempty)"
    unfolding hash_ok_def using g(4) by (auto simp: unat_eq_0)
  moreover have "tree_ok [g]" "chain_ok [g] [0]" "base_ok [g] [0]" "invalid_ok [g]"
    using g by (simp_all add: tree_ok_def chain_ok_def base_ok_def base_rule_def invalid_ok_def)
  ultimately show ?thesis by (simp add: index_ok_def nodes hx)
qed


lemma parent_of_append: "i < length nodes \<Longrightarrow> parent_of (nodes @ [n]) i = parent_of nodes i"
  by (simp add: parent_of_def nth_append)

lemma hx_insert_new:
  assumes "index_ok ix" "hx_index_of ix (hr_hash rec) = None" "unat parent < length (hx_nodes ix)"
  obtains n where "hx_insert ix rec parent cum pow_ok =
      Some (of_nat (length (hx_nodes ix)), ix \<lparr> hx_nodes := hx_nodes ix @ [n],
        hx_by_hash := fmupd (hr_hash rec) (of_nat (length (hx_nodes ix))) (hx_by_hash ix) \<rparr>)"
    "nd_hash n = hr_hash rec" "nd_prev n = parent" "nd_height n = hr_height rec" "nd_bits n = hr_bits rec"
    "nd_cum_work n = cum" "nd_invalid n \<longleftrightarrow> nd_invalid (hx_nodes ix ! unat parent)" "nd_pow_ok n \<longleftrightarrow> pow_ok"
    "nd_branch_base_height n = (let p = hx_nodes ix ! unat parent in
       if canonical_has (hx_canonical ix) (nd_height p) parent then nd_height p else nd_branch_base_height p)"
    "nd_time n = hr_time rec"
proof -
  let ?p = "hx_nodes ix ! unat parent"
  let ?n = "\<lparr> nd_hash = hr_hash rec, nd_prev = parent, nd_height = hr_height rec, nd_time = hr_time rec,
     nd_bits = hr_bits rec, nd_cum_work = cum,
     nd_branch_base_height = (if canonical_has (hx_canonical ix) (nd_height ?p) parent then nd_height ?p
       else nd_branch_base_height ?p),
     nd_flags = (if nd_invalid ?p then (if pow_ok then 1 else 0) OR 2 else (if pow_ok then 1 else 0)) \<rparr>"
  have "nd_invalid ?n \<longleftrightarrow> nd_invalid ?p" "nd_pow_ok ?n \<longleftrightarrow> pow_ok"
    by (cases pow_ok; simp add: nd_invalid_def nd_pow_ok_def)+
  then show thesis
    using that [of ?n] assms by (simp add: hx_insert_def hx_is_canonical_def hx_node_def Let_def)
qed

lemma chain_append: "chain_ok nodes c \<Longrightarrow> chain_ok (nodes @ [n]) c"
  by (auto simp: chain_ok_def nth_append)

lemma canonical_in_range: "chain_ok nodes c \<Longrightarrow> canonical_has c h idx \<Longrightarrow> unat idx < length nodes"
  by (auto simp: chain_ok_def canonical_has_def)

lemma index_ok_insert:
  assumes ok: "index_ok ix" and par: "unat parent < length (hx_nodes ix)"
    and ht: "unat (hr_height rec) = unat (nd_height (hx_nodes ix ! unat parent)) + 1"
    and cap: "Suc (length (hx_nodes ix)) < 2 ^ 32"
    and ins: "hx_insert ix rec parent cum pow_ok = Some (i, ix')"
  shows "index_ok ix'"
proof (cases "hx_index_of ix (hr_hash rec)")
  case (Some e)
  then show ?thesis using ok ins by (simp add: hx_insert_def)
next
  case None
  let ?N = "hx_nodes ix" and ?l = "length (hx_nodes ix)"
  obtain n where new: "hx_insert ix rec parent cum pow_ok = Some (of_nat ?l, ix \<lparr> hx_nodes := ?N @ [n],
        hx_by_hash := fmupd (hr_hash rec) (of_nat ?l) (hx_by_hash ix) \<rparr>)"
    and n: "nd_hash n = hr_hash rec" "nd_prev n = parent" "nd_height n = hr_height rec"
      "nd_invalid n \<longleftrightarrow> nd_invalid (?N ! unat parent)"
      "nd_branch_base_height n = (let p = ?N ! unat parent in
         if canonical_has (hx_canonical ix) (nd_height p) parent then nd_height p else nd_branch_base_height p)"
    using hx_insert_new [OF ok None par] by metis
  have o: "tree_ok ?N" "hash_ok ?N (hx_by_hash ix)" "chain_ok ?N (hx_canonical ix)" "base_ok ?N (hx_canonical ix)"
    "invalid_ok ?N" using ok by (simp_all add: index_ok_def)
  have pl: "parent_of (?N @ [n]) ?l = unat parent" by (simp add: parent_of_def n)
  have cases: "i < Suc ?l \<longleftrightarrow> i < ?l \<or> i = ?l" for i by auto
  have ul: "unat (of_nat ?l :: u32) = ?l" by (rule unat_of_nat_small) (use cap in simp)
  have pi: "parent_of ?N i < ?l" if "0 < i" "i < ?l" for i using tree_parent(1) [OF o(1) that] that by simp
  have "tree_ok (?N @ [n])"
    unfolding tree_ok_def
  proof (intro conjI allI impI)
    fix i assume i: "0 < i" "i < length (?N @ [n])"
    show "parent_of (?N @ [n]) i < i"
      "unat (nd_height ((?N @ [n]) ! i)) = unat (nd_height ((?N @ [n]) ! parent_of (?N @ [n]) i)) + 1"
      using i par ht pl n(3) tree_parent [OF o(1), of i] pi [of i]
      by (cases "i < ?l"; simp add: parent_of_append nth_append cases)+
  qed (use o(1) cap par in \<open>auto simp: tree_ok_def nth_append\<close>)
  moreover have "hash_ok (?N @ [n]) (fmupd (hr_hash rec) (of_nat ?l) (hx_by_hash ix))"
    unfolding hash_ok_def
  proof (intro allI)
    fix h and idx :: u32
    have e: "unat idx = ?l \<longleftrightarrow> idx = of_nat ?l" using ul by (auto simp: word_unat_eq_iff)
    have old: "fmlookup (hx_by_hash ix) h = Some idx \<longleftrightarrow> unat idx < ?l \<and> nd_hash (?N ! unat idx) = h"
      using o(2) by (simp add: hash_ok_def)
    show "fmlookup (fmupd (hr_hash rec) (of_nat ?l) (hx_by_hash ix)) h = Some idx \<longleftrightarrow>
        unat idx < length (?N @ [n]) \<and> nd_hash ((?N @ [n]) ! unat idx) = h"
    proof (cases "h = hr_hash rec")
      case True
      then have "\<not> (unat idx < ?l \<and> nd_hash (?N ! unat idx) = h)" using old None by (simp add: hx_index_of_def)
      then show ?thesis using True e n(1) by (auto simp: nth_append less_Suc_eq)
    next
      case False
      then show ?thesis using old n(1) by (auto simp: nth_append less_Suc_eq)
    qed
  qed
  moreover have "base_ok (?N @ [n]) (hx_canonical ix)"
    unfolding base_ok_def
  proof (intro allI impI)
    fix i assume "i < length (?N @ [n])"
    moreover have "base_rule (hx_canonical ix) (?N @ [n]) i = base_rule (hx_canonical ix) ?N i" if "i < ?l"
      using that pi [of i] by (cases "i = 0") (auto simp: base_rule_def parent_of_append nth_append Let_def)
    moreover have "base_rule (hx_canonical ix) (?N @ [n]) ?l = nd_branch_base_height n"
      using par n(2, 5) pl by (auto simp: base_rule_def nth_append Let_def)
    ultimately show "nd_branch_base_height ((?N @ [n]) ! i) = base_rule (hx_canonical ix) (?N @ [n]) i"
      using o(4) by (cases "i < ?l") (auto simp: base_ok_def nth_append less_Suc_eq)
  qed
  moreover have "invalid_ok (?N @ [n])"
    using o(5) n(4) par pl pi by (auto simp: invalid_ok_def nth_append parent_of_append less_Suc_eq)
  moreover have "ix' = ix \<lparr> hx_nodes := ?N @ [n], hx_by_hash := fmupd (hr_hash rec) (of_nat ?l) (hx_by_hash ix) \<rparr>"
    using ins new by auto
  ultimately show ?thesis using o(3) by (simp add: index_ok_def chain_append)
qed

lemma work_ok_insert:
  assumes "index_ok ix" "work_ok limit (hx_nodes ix)" "unat parent < length (hx_nodes ix)"
    and "bits_work (hr_bits rec) limit = Some w" "wf_work w"
    and "work_checked_add (nd_cum_work (hx_nodes ix ! unat parent)) w = Some cum"
    and "hx_insert ix rec parent cum pow_ok = Some (i, ix')"
  shows "work_ok limit (hx_nodes ix')"
proof (cases "hx_index_of ix (hr_hash rec)")
  case (Some e)
  then show ?thesis using assms by (simp add: hx_insert_def)
next
  case None
  let ?N = "hx_nodes ix" and ?l = "length (hx_nodes ix)"
  obtain n where new: "hx_nodes ix' = ?N @ [n]" and n: "nd_prev n = parent" "nd_bits n = hr_bits rec" "nd_cum_work n = cum"
    by (rule hx_insert_new [OF assms(1) None assms(3), of cum pow_ok]) (use assms(7) in auto)
  have t: "tree_ok ?N" using assms(1) by (simp add: index_ok_def)
  have c: "wf_work cum" "limbs_val cum = limbs_val w + limbs_val (nd_cum_work (?N ! unat parent))"
    using work_checked_add_Some [of "nd_cum_work (?N ! unat parent)" w cum] assms(2, 3, 5, 6) by (auto simp: work_ok_def)
  show ?thesis
    unfolding work_ok_def new
  proof (intro allI impI)
    fix i assume i: "i < length (?N @ [n])"
    show "wf_work (nd_cum_work ((?N @ [n]) ! i)) \<and>
     (\<exists>w. bits_work (nd_bits ((?N @ [n]) ! i)) limit = Some w \<and> wf_work w \<and>
        limbs_val (nd_cum_work ((?N @ [n]) ! i)) = limbs_val w +
          (if i = 0 then 0 else limbs_val (nd_cum_work ((?N @ [n]) ! parent_of (?N @ [n]) i))))"
    proof (cases "i < ?l")
      case True
      then have "i \<noteq> 0 \<Longrightarrow> parent_of ?N i < ?l" using tree_parent(1) [OF t _ True] by simp
      then show ?thesis using assms(2) True by (auto simp: work_ok_def nth_append parent_of_append)
    next
      case False
      then have "i = ?l" "?l \<noteq> 0" using i t by (auto simp: tree_ok_def)
      then show ?thesis using c assms(3, 4, 5) n by (simp add: parent_of_def nth_append)
    qed
  qed
qed


lemma index_ok_invalid_flag:
  assumes "index_ok ix" "hx_set_invalid_flag ix idx = Some ix'"
    and leaf: "\<forall>i. unat idx < i \<longrightarrow> i < length (hx_nodes ix) \<longrightarrow> nd_prev (hx_nodes ix ! i) \<noteq> idx"
  shows "index_ok ix'"
proof -
  let ?N = "hx_nodes ix" and ?M = "(hx_nodes ix)[unat idx := or_flag 2 (hx_nodes ix ! unat idx)]"
  have i: "unat idx < length ?N" and ix': "ix' = ix \<lparr> hx_nodes := ?M \<rparr>"
    using assms(2) by (simp_all add: hx_set_invalid_flag_def hx_or_flag_Some)
  have s: "same_links ?N ?M" by (simp add: same_links_upd)
  have f: "nd_invalid (?M ! j) \<longleftrightarrow> nd_invalid (?N ! j) \<or> j = unat idx"
    "nd_branch_base_height (?M ! j) = nd_branch_base_height (?N ! j)" for j
    using i by (cases "j = unat idx"; simp)+
  have "invalid_ok ?M"
    unfolding invalid_ok_def
  proof (intro allI impI)
    fix j assume "0 < j" "j < length ?M" and iv: "nd_invalid (?M ! parent_of ?M j)"
    then have j: "0 < j" "j < length ?N" by simp_all
    have "parent_of ?N j < j" using tree_parent(1) [of ?N j] assms(1) j by (simp add: index_ok_def)
    moreover have "parent_of ?N j = unat idx \<longleftrightarrow> nd_prev (?N ! j) = idx" by (simp add: parent_of_def word_unat_eq_iff)
    ultimately have "parent_of ?N j \<noteq> unat idx" using leaf j by auto
    then have "nd_invalid (?N ! parent_of ?N j)" using iv f(1) same_links_parent [OF s j(2)] by simp
    then show "nd_invalid (?M ! j)" using assms(1) j f(1) by (simp add: index_ok_def invalid_ok_def)
  qed
  then show ?thesis using index_ok_links [OF assms(1) s] f(2) ix' by simp
qed

section \<open>Reachable indexes\<close>

text \<open>
  What the chain manager does to the index: genesis first, then headers one above a stored parent
  with the work of their bits on top of the parent's, body marks, poisoning, the invalid flag on a
  header without children, and a new canonical chain along parent links.
\<close>

inductive index_reach :: "target \<Rightarrow> header_index \<Rightarrow> bool" for limit where
  reach_genesis: "hx_insert_genesis hx_new rec w = Some (i, ix) \<Longrightarrow> hr_height rec = 0 \<Longrightarrow>
    bits_work (hr_bits rec) limit = Some w \<Longrightarrow> wf_work w \<Longrightarrow> index_reach limit ix"
| reach_insert: "index_reach limit ix \<Longrightarrow> unat parent < length (hx_nodes ix) \<Longrightarrow>
    unat (hr_height rec) = unat (nd_height (hx_nodes ix ! unat parent)) + 1 \<Longrightarrow>
    Suc (length (hx_nodes ix)) < 2 ^ 32 \<Longrightarrow> bits_work (hr_bits rec) limit = Some w \<Longrightarrow> wf_work w \<Longrightarrow>
    work_checked_add (nd_cum_work (hx_nodes ix ! unat parent)) w = Some cum \<Longrightarrow>
    hx_insert ix rec parent cum pow_ok = Some (i, ix') \<Longrightarrow> index_reach limit ix'"
| reach_have_body: "index_reach limit ix \<Longrightarrow> hx_set_have_body ix idx = Some ix' \<Longrightarrow> index_reach limit ix'"
| reach_mark_invalid: "index_reach limit ix \<Longrightarrow> hx_mark_invalid ix idx = Some (p, ix') \<Longrightarrow> index_reach limit ix'"
| reach_invalid_flag: "index_reach limit ix \<Longrightarrow>
    \<forall>i. unat idx < i \<longrightarrow> i < length (hx_nodes ix) \<longrightarrow> nd_prev (hx_nodes ix ! i) \<noteq> idx \<Longrightarrow>
    hx_set_invalid_flag ix idx = Some ix' \<Longrightarrow> index_reach limit ix'"
| reach_set_canonical: "index_reach limit ix \<Longrightarrow> chain_ok (hx_nodes ix) chain \<Longrightarrow>
    hx_set_canonical ix chain = Some ix' \<Longrightarrow> index_reach limit ix'"

lemma index_reach_ok: "index_reach limit ix \<Longrightarrow> index_ok ix"
  by (induction rule: index_reach.induct)
    (auto intro: index_ok_genesis index_ok_insert index_ok_have_body index_ok_mark_invalid index_ok_invalid_flag
      index_ok_set_canonical)


lemma index_reach_work:
  assumes "index_reach limit ix"
  shows "work_ok limit (hx_nodes ix)"
  using assms
proof (induction rule: index_reach.induct)
  case (reach_genesis rec w i ix)
  then show ?case by (auto simp: hx_insert_genesis_def hx_new_def work_ok_def)
next
  case (reach_insert ix parent rec w cum pow_ok i ix')
  show ?case
    by (rule work_ok_insert [OF index_reach_ok [OF reach_insert.hyps(1)] reach_insert.IH reach_insert.hyps(2, 5, 6, 7, 8)])
next
  case (reach_have_body ix idx ix')
  then show ?case
    using same_links_work [OF same_links_upd, of "or_flag 4 (hx_nodes ix ! unat idx)" "hx_nodes ix" "unat idx"]
      index_reach_ok [of limit ix]
    by (simp add: hx_set_have_body_def hx_or_flag_Some index_ok_def)
next
  case (reach_mark_invalid ix idx p ix')
  have ok: "index_ok ix" using index_reach_ok reach_mark_invalid by blast
  have "unat idx < length (hx_nodes ix)"
    using reach_mark_invalid by (auto simp: hx_mark_invalid_def hx_or_flag_Some bind_eq_Some_conv)
  from hx_mark_invalid_spec [OF ok this] obtain nodes' where "hx_nodes ix' = nodes'" "same_links (hx_nodes ix) nodes'"
    using reach_mark_invalid by auto
  then show ?case using same_links_work reach_mark_invalid ok by (auto simp: index_ok_def)
next
  case (reach_invalid_flag ix idx ix')
  then show ?case
    using same_links_work [OF same_links_upd, of "or_flag 2 (hx_nodes ix ! unat idx)" "hx_nodes ix" "unat idx"]
      index_reach_ok [of limit ix]
    by (simp add: hx_set_invalid_flag_def hx_or_flag_Some index_ok_def)
next
  case (reach_set_canonical ix chain ix')
  have t: "tree_ok (hx_nodes ix)" using index_reach_ok reach_set_canonical by (auto simp: index_ok_def)
  from rebase_loop_spec [OF t, of 0 chain] obtain nodes' where "hx_nodes ix' = nodes'" "same_links (hx_nodes ix) nodes'"
    using reach_set_canonical by (auto simp: hx_set_canonical_def)
  then show ?case using same_links_work reach_set_canonical t by auto
qed

end
