(* ===== verification/Index_Walks.thy ===== *)
theory Index_Walks
  imports Header_Index
begin

text \<open>
  Walks along parent links in the header arena end, and what they return: \<open>ancestry\<close>,
  \<open>ancestor_at\<close> and \<open>time_window\<close> of \<open>lib/chain/src/index.rs\<close>.  The properties of the arena
  close the theory.
\<close>

section \<open>Walks\<close>

lemma chain_snoc:
  assumes "chain_ok nodes path" "unat c < length nodes" "nd_prev (nodes ! unat c) = last path"
    and "unat (nd_height (nodes ! unat c)) = length path"
  shows "chain_ok nodes (path @ [c])"
  unfolding chain_ok_def
proof (intro conjI allI impI)
  have ne: "path \<noteq> []" and z: "path ! 0 = 0" using assms(1) by (simp_all add: chain_ok_def)
  show "path @ [c] \<noteq> []" "(path @ [c]) ! 0 = 0" using ne z by (simp_all add: nth_append)
  fix j assume "j < length (path @ [c])"
  then consider "j < length path" | "j = length path" by fastforce
  then show "unat ((path @ [c]) ! j) < length nodes" "unat (nd_height (nodes ! unat ((path @ [c]) ! j))) = j"
    using assms by (cases; simp add: chain_ok_def nth_append)+
next
  have ne: "path \<noteq> []" using assms(1) by (simp add: chain_ok_def)
  fix j assume "Suc j < length (path @ [c])"
  then consider "Suc j < length path" | "Suc j = length path" by fastforce
  then show "nd_prev (nodes ! unat ((path @ [c]) ! Suc j)) = (path @ [c]) ! j"
  proof cases
    case 1
    then show ?thesis using assms(1) by (simp add: chain_ok_def nth_append)
  next
    case 2
    then have "path ! j = last path" using ne by (metis diff_Suc_1 last_conv_nth)
    then show ?thesis using 2 assms(3) by (simp add: nth_append)
  qed
qed

lemma ancestry_from_path:
  assumes "index_ok ix" "unat c < length (hx_nodes ix)"
  shows "\<exists>path. (\<forall>out. ancestry_from ix out c = Some (path @ rev out)) \<and> chain_ok (hx_nodes ix) path \<and>
    last path = c \<and> length path = unat (nd_height (hx_nodes ix ! unat c)) + 1 \<and>
    (\<forall>h. hx_ancestor_at ix c h =
       Some (if h \<le> nd_height (hx_nodes ix ! unat c) then Some (path ! unat h) else None))"
  using assms(2)
proof (induction "unat c" arbitrary: c rule: less_induct)
  case less
  let ?N = "hx_nodes ix"
  have t: "tree_ok ?N" using assms(1) by (simp add: index_ok_def)
  have n: "hx_node ix c = Some (?N ! unat c)" using less.prems by (simp add: hx_node_def)
  show ?case
  proof (cases "unat c = 0")
    case True
    then have c: "c = 0" by (simp add: unat_eq_0)
    have g: "nd_prev (?N ! 0) = NO_PARENT" "nd_height (?N ! 0) = 0" using t by (simp_all add: tree_ok_def)
    have a: "ancestry_from ix out c = Some ([c] @ rev out)" for out
      using n c g by (subst ancestry_from.simps) simp
    have b: "hx_ancestor_at ix c h = Some (if h \<le> nd_height (?N ! unat c) then Some ([c] ! unat h) else None)" for h
      using n c g by (subst hx_ancestor_at.simps) (auto simp: word_le_nat_alt unat_eq_0 word_less_nat_alt)
    have "chain_ok ?N [c]" using c g less.prems by (simp add: chain_ok_def)
    then show ?thesis using a b c g by (intro exI [of _ "[c]"]) simp
  next
    case False
    then have P: "parent_of ?N (unat c) < unat c" "nd_prev (?N ! unat c) \<noteq> NO_PARENT"
        "unat (nd_height (?N ! unat c)) = unat (nd_height (?N ! parent_of ?N (unat c))) + 1"
      using tree_parent [OF t _ less.prems] by auto
    let ?p = "nd_prev (?N ! unat c)"
    have p: "unat ?p < unat c" "unat ?p < length ?N" using P(1) less.prems by (simp_all add: parent_of_def)
    from less.hyps [OF p] obtain path where path: "\<And>out. ancestry_from ix out ?p = Some (path @ rev out)"
      "chain_ok ?N path" "last path = ?p" "length path = unat (nd_height (?N ! unat ?p)) + 1"
      "\<And>h. hx_ancestor_at ix ?p h = Some (if h \<le> nd_height (?N ! unat ?p) then Some (path ! unat h) else None)" by blast
    have hc: "unat (nd_height (?N ! unat c)) = length path" using P(3) path(4) by (simp add: parent_of_def)
    have a: "ancestry_from ix out c = Some ((path @ [c]) @ rev out)" for out
      using n P(2) path(1) by (subst ancestry_from.simps) simp
    have b: "hx_ancestor_at ix c h = Some (if h \<le> nd_height (?N ! unat c) then Some ((path @ [c]) ! unat h) else None)" for h
    proof -
      consider "unat h < length path" | "unat h = length path" | "length path < unat h" by linarith
      then show ?thesis
        using n P(2) path(4, 5) hc
        by cases (subst hx_ancestor_at.simps, auto simp: word_le_nat_alt word_less_nat_alt word_unat_eq_iff nth_append)+
    qed
    have "chain_ok ?N (path @ [c])" using chain_snoc [OF path(2) less.prems] path(3) hc by simp
    then show ?thesis using a b hc by (intro exI [of _ "path @ [c]"]) simp
  qed
qed

lemma chain_butlast:
  assumes "chain_ok nodes (path @ [p, c])"
  shows "chain_ok nodes (path @ [p])" "nd_prev (nodes ! unat c) = p"
proof -
  have a: "(path @ [p, c]) ! j = (path @ [p]) ! j" if "j \<le> length path" for j
    using that by (simp add: nth_append nth_Cons')
  show "chain_ok nodes (path @ [p])"
    unfolding chain_ok_def
  proof (intro conjI allI impI)
    show "path @ [p] \<noteq> []" "(path @ [p]) ! 0 = 0" using assms a [of 0] by (simp_all add: chain_ok_def)
    fix j assume "j < length (path @ [p])"
    then have "j < length (path @ [p, c])" "(path @ [p]) ! j = (path @ [p, c]) ! j" using a [of j] by simp_all
    then show "unat ((path @ [p]) ! j) < length nodes" "unat (nd_height (nodes ! unat ((path @ [p]) ! j))) = j"
      using assms unfolding chain_ok_def by metis+
  next
    fix j assume "Suc j < length (path @ [p])"
    then have "Suc j < length (path @ [p, c])" "(path @ [p]) ! j = (path @ [p, c]) ! j"
      "(path @ [p]) ! Suc j = (path @ [p, c]) ! Suc j" using a [of j] a [of "Suc j"] by simp_all
    then show "nd_prev (nodes ! unat ((path @ [p]) ! Suc j)) = (path @ [p]) ! j"
      using assms unfolding chain_ok_def by metis
  qed
  have "nd_prev (nodes ! unat ((path @ [p, c]) ! Suc (length path))) = (path @ [p, c]) ! length path"
    using assms unfolding chain_ok_def by (metis length_append_singleton append_Cons append_Nil append_assoc lessI length_append length_Cons list.size(3) add_Suc_right add_0_right)
  then show "nd_prev (nodes ! unat c) = p" by (simp add: nth_append)
qed

lemma chain_singleton: "chain_ok nodes [c] \<Longrightarrow> c = 0"
  by (simp add: chain_ok_def)

lemma chain_no_parent:
  assumes "tree_ok nodes" "chain_ok nodes (path @ [c])"
  shows "nd_prev (nodes ! unat c) = NO_PARENT \<longleftrightarrow> path = []"
proof -
  have c: "unat c < length nodes" "unat (nd_height (nodes ! unat c)) = length path"
    using assms(2) by (force simp: chain_ok_def)+
  show ?thesis
    using c assms no_parent_iff [OF assms(1) c(1)] tree_parent(4) [OF assms(1) _ c(1)]
    by (cases "unat c = 0") (auto simp: tree_ok_def unat_eq_0 dest: chain_singleton)
qed

lemma time_window_path:
  assumes "tree_ok (hx_nodes ix)" "chain_ok (hx_nodes ix) path"
  shows "time_window_from ix (last path) span out =
    Some (map (\<lambda>i. nd_time (hx_nodes ix ! unat i)) (drop (length path - span) path) @ rev out)"
  using assms(2)
proof (induction span arbitrary: path out)
  case 0
  then show ?case by simp
next
  case (Suc k)
  let ?N = "hx_nodes ix"
  obtain q c where path: "path = q @ [c]" using Suc.prems by (cases path rule: rev_cases) (auto simp: chain_ok_def)
  have c: "unat c < length ?N" using Suc.prems path by (force simp: chain_ok_def)
  have n: "hx_node ix c = Some (?N ! unat c)" using c by (simp add: hx_node_def)
  show ?case
  proof (cases q rule: rev_cases)
    case Nil
    then have "nd_prev (?N ! unat c) = NO_PARENT" using chain_no_parent [OF assms(1), of "[]" c] Suc.prems path Nil by simp
    then show ?thesis using Nil path n by simp
  next
    case (snoc r p)
    have ch: "chain_ok ?N (r @ [p])" "nd_prev (?N ! unat c) = p" using chain_butlast [of ?N r p c] Suc.prems path snoc by auto
    have "nd_prev (?N ! unat c) \<noteq> NO_PARENT" using chain_no_parent [OF assms(1), of q c] Suc.prems path snoc by simp
    moreover have "drop (Suc (length (r @ [p])) - Suc k) ((r @ [p]) @ [c]) = drop (length (r @ [p]) - k) (r @ [p]) @ [c]"
      by (subst drop_append) simp
    ultimately show ?thesis
      using Suc.IH [OF ch(1), of "out @ [nd_time (?N ! unat c)]"] ch(2) path snoc n by simp
  qed
qed

definition node_work :: "target \<Rightarrow> node list \<Rightarrow> u32 \<Rightarrow> nat" where
  "node_work limit nodes i = (case bits_work (nd_bits (nodes ! unat i)) limit of None \<Rightarrow> 0 | Some w \<Rightarrow> limbs_val w)"

lemma chain_cum_work:
  assumes "tree_ok nodes" "work_ok limit nodes" "chain_ok nodes path"
  shows "limbs_val (nd_cum_work (nodes ! unat (last path))) = sum_list (map (node_work limit nodes) path)"
  using assms(3)
proof (induction path rule: rev_induct)
  case Nil
  then show ?case by (simp add: chain_ok_def)
next
  case (snoc c q)
  note prems = snoc.prems and IH = snoc.IH
  have c: "unat c < length nodes" using snoc.prems by (force simp: chain_ok_def)
  then obtain w where w: "bits_work (nd_bits (nodes ! unat c)) limit = Some w"
    "limbs_val (nd_cum_work (nodes ! unat c)) =
       limbs_val w + (if unat c = 0 then 0 else limbs_val (nd_cum_work (nodes ! parent_of nodes (unat c))))"
    using assms(2) unfolding work_ok_def by blast
  then have nw: "node_work limit nodes c = limbs_val w" by (simp add: node_work_def)
  show ?case
  proof (cases q rule: rev_cases)
    case Nil
    then have "c = 0" using snoc.prems chain_singleton by auto
    then show ?thesis using Nil w nw by simp
  next
    case (snoc r p)
    note ch = chain_butlast [of nodes r p c]
    have "unat c \<noteq> 0"
      using no_parent_iff [OF assms(1) c] chain_no_parent [OF assms(1) prems] snoc by simp
    then show ?thesis using IH ch prems snoc w nw by (simp add: parent_of_def)
  qed
qed

section \<open>Poisoning changes one flag\<close>

lemma or_flag_idem [simp]: "or_flag f (or_flag f n) = or_flag f n"
  by (simp add: or_flag_def)

lemma mark_loop_flags:
  "mark_loop nodes is p = Some (p', nodes') \<Longrightarrow> length nodes' = length nodes \<and>
     (\<forall>j < length nodes. nodes' ! j \<in> {nodes ! j, or_flag FLAG_INVALID (nodes ! j)})"
proof (induction nodes "is" p rule: mark_loop.induct)
  case (2 nodes i "is" p)
  let ?m = "nodes[i := or_flag FLAG_INVALID (nodes ! i)]"
  have upd: "?m ! j \<in> {nodes ! j, or_flag FLAG_INVALID (nodes ! j)}" if "j < length nodes" for j
    using that by (cases "j = i") simp_all
  show ?case
  proof (cases "nd_prev (nodes ! i) = NO_PARENT \<or> length nodes \<le> unat (nd_prev (nodes ! i)) \<or>
      \<not> (nd_invalid (nodes ! unat (nd_prev (nodes ! i))) \<and> \<not> nd_invalid (nodes ! i))")
    case True
    then show ?thesis using 2 by (auto simp: Let_def split: if_splits)
  next
    case False
    then have "mark_loop ?m is (p + 1) = Some (p', nodes')" using "2.prems" by (simp add: Let_def)
    then have IH: "length nodes' = length ?m" "\<forall>j < length ?m. nodes' ! j \<in> {?m ! j, or_flag FLAG_INVALID (?m ! j)}"
      using 2 False by auto
    show ?thesis
    proof (intro conjI allI impI)
      show "length nodes' = length nodes" using IH(1) by simp
      fix j assume j: "j < length nodes"
      then have "nodes' ! j \<in> {?m ! j, or_flag FLAG_INVALID (?m ! j)}" using IH(2) by simp
      then show "nodes' ! j \<in> {nodes ! j, or_flag FLAG_INVALID (nodes ! j)}" using upd [OF j] by auto
    qed
  qed
qed simp

lemma hx_mark_invalid_flags:
  assumes "hx_mark_invalid ix idx = Some (p, ix')" "j < length (hx_nodes ix)"
  shows "hx_nodes ix' ! j \<in> {hx_nodes ix ! j, or_flag FLAG_INVALID (hx_nodes ix ! j)}"
proof -
  let ?m = "(hx_nodes ix)[unat idx := or_flag FLAG_INVALID (hx_nodes ix ! unat idx)]"
  obtain q where "mark_loop ?m [unat idx + 1..<length ?m] 0 = Some (q, hx_nodes ix')"
    using assms(1) by (auto simp: hx_mark_invalid_def hx_or_flag_Some bind_eq_Some_conv)
  from mark_loop_flags [OF this] assms(2)
  have "hx_nodes ix' ! j \<in> {?m ! j, or_flag FLAG_INVALID (?m ! j)}" by simp
  then show ?thesis using assms(2) by (cases "j = unat idx") simp_all
qed

section \<open>A small arena\<close>

definition sample_limit :: target where
  "sample_limit = [-1, -1, -1, 0x0000FFFFFFFFFFFF]"

definition sample_rec :: "u64 \<Rightarrow> u8 \<Rightarrow> header_rec" where
  "sample_rec height b =
     \<lparr> hr_height = height, hr_hash = replicate 32 b, hr_prev_hash = replicate 32 0, hr_time = 1000 + height,
       hr_bits = 0x1f00ffff, hr_raw = [] \<rparr>"

lemma sample_bits_work: "\<exists>w. bits_work 0x1f00ffff sample_limit = Some w \<and> wf_work w \<and> limbs_val w < 2 ^ 257"
proof -
  have wf: "wf_target sample_limit" by (simp add: sample_limit_def wf_target_def)
  have "expand_bits 0x1f00ffff sample_limit = Some [0, 0, 0, 0x0000FFFF00000000]" by code_simp
  from bits_work_val [OF this wf] obtain w where "bits_work 0x1f00ffff sample_limit = Some w" "wf_work w"
    "limbs_val w = 2 ^ 256 div (limbs_val [0, 0, 0, 0x0000FFFF00000000 :: u64] + 1)" by blast
  moreover have "2 ^ 256 div (x + 1) < 2 ^ 257" for x :: nat
    using div_le_dividend [of "2 ^ 256" "x + 1"] by (rule le_less_trans) simp
  ultimately show ?thesis by metis
qed

text \<open>Genesis, then two children of genesis and a grandchild under the second one.\<close>

definition sample_shape :: "header_index \<Rightarrow> bool" where
  "sample_shape ix \<longleftrightarrow> map nd_prev (hx_nodes ix) = [NO_PARENT, 0, 0, 2] \<and>
     map nd_height (hx_nodes ix) = [0, 1, 1, 2] \<and> map nd_flags (hx_nodes ix) = [5, 1, 1, 1] \<and> hx_canonical ix = [0]"

lemma sample_shapeD:
  assumes "sample_shape ix"
  shows "length (hx_nodes ix) = 4" "parent_of (hx_nodes ix) 1 = 0" "parent_of (hx_nodes ix) 3 = 2"
    "nd_height (hx_nodes ix ! 3) = 2" "\<not> nd_invalid (hx_nodes ix ! 1)" "hx_canonical ix = [0]"
proof -
  have m: "map nd_prev (hx_nodes ix) = [NO_PARENT, 0, 0, 2]" "map nd_height (hx_nodes ix) = [0, 1, 1, 2]"
    "map nd_flags (hx_nodes ix) = [5, 1, 1, 1]" and "hx_canonical ix = [0]"
    using assms unfolding sample_shape_def by simp_all
  show l: "length (hx_nodes ix) = 4" using arg_cong [OF m(1), of length] by simp
  show "parent_of (hx_nodes ix) 1 = 0" "parent_of (hx_nodes ix) 3 = 2"
    using arg_cong [OF m(1), of "\<lambda>xs. xs ! 1"] arg_cong [OF m(1), of "\<lambda>xs. xs ! 3"] l by (simp_all add: parent_of_def)
  show "nd_height (hx_nodes ix ! 3) = 2" using arg_cong [OF m(2), of "\<lambda>xs. xs ! 3"] l by simp
  show "\<not> nd_invalid (hx_nodes ix ! 1)" using arg_cong [OF m(3), of "\<lambda>xs. xs ! 1"] l by (simp add: nd_invalid_def)
  show "hx_canonical ix = [0]" by fact
qed

lemma sample_reach: "\<exists>ix. index_reach sample_limit ix \<and> sample_shape ix"
proof -
  obtain w where w: "bits_work 0x1f00ffff sample_limit = Some w" "wf_work w" "limbs_val w < 2 ^ 257"
    using sample_bits_work by blast
  have add: "\<exists>c. work_checked_add a w = Some c \<and> wf_work c \<and> limbs_val c = limbs_val a + limbs_val w"
    if "wf_work a" "limbs_val a < 2 ^ 300" for a
  proof -
    have "limbs_val a + limbs_val w < 2 ^ 300 + 2 ^ 257" using that(2) w(3) by (rule add_strict_mono)
    also have "\<dots> < 2 ^ 512" by simp
    finally have "work_checked_add a w \<noteq> None" using work_checked_add_None [OF that(1) w(2)] by simp
    then show ?thesis using work_checked_add_Some [OF that(1) w(2)] by auto
  qed
  have p300: "(2 :: nat) ^ 257 < 2 ^ 300" "(2 :: nat) ^ 257 + 2 ^ 257 < 2 ^ 300" by simp_all
  have "limbs_val w < 2 ^ 300" using w(3) p300(1) by (rule less_trans)
  from add [OF w(2) this] obtain w2 where w2: "work_checked_add w w = Some w2" "wf_work w2"
    "limbs_val w2 = limbs_val w + limbs_val w" by blast
  have "limbs_val w2 < 2 ^ 300" using w2(3) add_strict_mono [OF w(3) w(3)] p300(2) by linarith
  from add [OF w2(2) this] obtain w3 where w3: "work_checked_add w2 w = Some w3" "wf_work w3" by blast
  let ?n = "\<lambda>h b prev c f. \<lparr> nd_hash = replicate 32 (b :: u8), nd_prev = prev, nd_height = h, nd_time = 1000 + h,
     nd_bits = 0x1f00ffff, nd_cum_work = c, nd_branch_base_height = 0, nd_flags = f \<rparr>"
  define i0 where "i0 = \<lparr> hx_nodes = [?n 0 0 NO_PARENT w 5],
    hx_by_hash = fmupd (replicate 32 0) 0 fmempty, hx_canonical = [0] \<rparr>"
  define i1 where "i1 = i0 \<lparr> hx_nodes := hx_nodes i0 @ [?n 1 1 0 w2 1], hx_by_hash := fmupd (replicate 32 1) 1 (hx_by_hash i0) \<rparr>"
  define i2 where "i2 = i1 \<lparr> hx_nodes := hx_nodes i1 @ [?n 1 2 0 w2 1], hx_by_hash := fmupd (replicate 32 2) 2 (hx_by_hash i1) \<rparr>"
  define i3 where "i3 = i2 \<lparr> hx_nodes := hx_nodes i2 @ [?n 2 3 2 w3 1], hx_by_hash := fmupd (replicate 32 3) 3 (hx_by_hash i2) \<rparr>"
  note ins = hx_insert_def hx_index_of_def hx_node_def hx_is_canonical_def canonical_has_def sample_rec_def nd_invalid_def
  have r0: "index_reach sample_limit i0"
    by (rule reach_genesis [of "sample_rec 0 0" w 0])
      (simp_all add: hx_insert_genesis_def hx_new_def sample_rec_def i0_def w)
  have "hx_insert i0 (sample_rec 1 1) 0 w2 True = Some (1, i1)"
    by (simp add: ins i0_def i1_def replicate_eq_replicate)
  from reach_insert [OF r0 _ _ _ _ w(2) _ this]
  have r1: "index_reach sample_limit i1" using w w2 by (simp add: i0_def sample_rec_def)
  have "hx_insert i1 (sample_rec 1 2) 0 w2 True = Some (2, i2)"
    by (simp add: ins i0_def i1_def i2_def replicate_eq_replicate)
  from reach_insert [OF r1 _ _ _ _ w(2) _ this]
  have r2: "index_reach sample_limit i2" using w w2 by (simp add: i0_def i1_def sample_rec_def)
  have "hx_insert i2 (sample_rec 2 3) 2 w3 True = Some (3, i3)"
    by (simp add: ins i0_def i1_def i2_def i3_def replicate_eq_replicate)
  from reach_insert [OF r2 _ _ _ _ w(2) _ this]
  have "index_reach sample_limit i3" using w w3 by (simp add: i0_def i1_def i2_def sample_rec_def)
  then show ?thesis by (intro exI [of _ i3]) (simp add: sample_shape_def i0_def i1_def i2_def i3_def)
qed

section \<open>Properties\<close>

text \<open>
  C31.  In every arena reached by inserting headers one height above their parent with their work
  added, marking bodies, poisoning branches and installing canonical chains: parents precede
  children, the hash table and the nodes agree, the canonical chain is a parent-linked path from
  genesis, every fork base follows the rule of \<open>insert\<close>, invalidity is inherited, and the
  cumulative work of the canonical tip is the sum of the work of the canonical headers.
\<close>
theorem header_index_invariant:
  assumes "index_reach limit ix"
  shows "tree_ok (hx_nodes ix) \<and> hash_ok (hx_nodes ix) (hx_by_hash ix) \<and> chain_ok (hx_nodes ix) (hx_canonical ix) \<and>
    base_ok (hx_nodes ix) (hx_canonical ix) \<and> invalid_ok (hx_nodes ix) \<and>
    (\<exists>t. hx_tip ix = Some t \<and> Suc (unat (nd_height t)) = length (hx_canonical ix) \<and>
       limbs_val (nd_cum_work t) = sum_list (map (node_work limit (hx_nodes ix)) (hx_canonical ix)))"
proof -
  have ok: "index_ok ix" and w: "work_ok limit (hx_nodes ix)"
    using assms index_reach_ok index_reach_work by blast+
  then have c: "chain_ok (hx_nodes ix) (hx_canonical ix)" and t: "tree_ok (hx_nodes ix)" by (simp_all add: index_ok_def)
  then have ne: "hx_canonical ix \<noteq> []" by (simp add: chain_ok_def)
  then have "unat (last (hx_canonical ix)) < length (hx_nodes ix)"
    "unat (nd_height (hx_nodes ix ! unat (last (hx_canonical ix)))) = length (hx_canonical ix) - 1"
    using c by (simp_all add: chain_ok_def last_conv_nth)
  then show ?thesis
    using ok ne chain_cum_work [OF t w c] by (simp add: index_ok_def hx_tip_def hx_tip_index_def hx_node_def)
qed

theorem header_index_invariant_witness:
  "\<exists>ix. index_reach sample_limit ix \<and> length (hx_nodes ix) = 4 \<and> chain_ok (hx_nodes ix) [0] \<and>
     (\<exists>t. hx_tip ix = Some t \<and> limbs_val (nd_cum_work t) = node_work sample_limit (hx_nodes ix) 0)"
proof -
  obtain ix where ix: "index_reach sample_limit ix" and "sample_shape ix" using sample_reach by blast
  note sh = sample_shapeD [OF this(2)]
  show ?thesis using header_index_invariant [OF ix] ix sh by (intro exI [of _ ix]) auto
qed

text \<open>
  C32.  \<open>mark_invalid\<close> on a node of a reachable arena does not panic; afterwards exactly the nodes
  that were invalid before and the descendants of that node are invalid, nothing else about any
  node changes, and the count it returns is the number of other nodes it newly poisoned.
\<close>
theorem mark_invalid_exact:
  assumes "index_reach limit ix" "unat idx < length (hx_nodes ix)"
  shows "\<exists>p nodes'. hx_mark_invalid ix idx = Some (p, ix \<lparr> hx_nodes := nodes' \<rparr>) \<and>
    length nodes' = length (hx_nodes ix) \<and>
    (\<forall>j < length nodes'. nodes' ! j \<in> {hx_nodes ix ! j, or_flag FLAG_INVALID (hx_nodes ix ! j)} \<and>
       (nd_invalid (nodes' ! j) \<longleftrightarrow> nd_invalid (hx_nodes ix ! j) \<or> descends (hx_nodes ix) (unat idx) j)) \<and>
    p = card {j. j < length (hx_nodes ix) \<and> j \<noteq> unat idx \<and> descends (hx_nodes ix) (unat idx) j \<and>
       \<not> nd_invalid (hx_nodes ix ! j)}"
proof -
  let ?N = "hx_nodes ix"
  obtain p nodes' where m: "hx_mark_invalid ix idx = Some (p, ix \<lparr> hx_nodes := nodes' \<rparr>)" and s: "same_links ?N nodes'"
    and v: "\<forall>j < length ?N. nd_invalid (nodes' ! j) \<longleftrightarrow> nd_invalid (?N ! j) \<or> descends ?N (unat idx) j"
    and p: "p = card {j. j < length ?N \<and> j \<noteq> unat idx \<and> nd_invalid (nodes' ! j) \<and> \<not> nd_invalid (?N ! j)}"
    using hx_mark_invalid_spec [OF index_reach_ok [OF assms(1)] assms(2)] by blast
  have "{j. j < length ?N \<and> j \<noteq> unat idx \<and> nd_invalid (nodes' ! j) \<and> \<not> nd_invalid (?N ! j)} =
      {j. j < length ?N \<and> j \<noteq> unat idx \<and> descends ?N (unat idx) j \<and> \<not> nd_invalid (?N ! j)}"
    using v by auto
  moreover have "length nodes' = length ?N" using s by (simp add: same_links_def)
  moreover have "nodes' ! j \<in> {?N ! j, or_flag FLAG_INVALID (?N ! j)}" if "j < length ?N" for j
    using hx_mark_invalid_flags [OF m that] by simp
  ultimately show ?thesis using m v p by (intro exI [of _ p] exI [of _ nodes']) simp
qed

theorem mark_invalid_exact_witness:
  "\<exists>ix p nodes'. index_reach sample_limit ix \<and> hx_mark_invalid ix 2 = Some (p, ix \<lparr> hx_nodes := nodes' \<rparr>) \<and>
     nd_invalid (nodes' ! 3) \<and> \<not> nd_invalid (nodes' ! 1)"
proof -
  obtain ix where ix: "index_reach sample_limit ix" and "sample_shape ix" using sample_reach by blast
  note sh = sample_shapeD [OF this(2)]
  have t: "tree_ok (hx_nodes ix)" using index_reach_ok [OF ix] by (simp add: index_ok_def)
  have d: "descends (hx_nodes ix) 2 3"
    by (rule descends_step) (use sh in \<open>simp_all add: descends_refl\<close>)
  have nd: "\<not> descends (hx_nodes ix) 2 1" using descends_le [OF _ t, of 2 1] by auto
  from mark_invalid_exact [OF ix, of 2] sh(1) obtain p nodes' where
      "hx_mark_invalid ix 2 = Some (p, ix \<lparr> hx_nodes := nodes' \<rparr>)"
      "\<forall>j < 4. nd_invalid (nodes' ! j) \<longleftrightarrow> nd_invalid (hx_nodes ix ! j) \<or> descends (hx_nodes ix) 2 j" by auto
  then show ?thesis using ix d nd sh
    by (intro exI [of _ ix] exI [of _ p] exI [of _ nodes']) simp
qed

text \<open>
  C33.  In a reachable arena the three walks along parent links end without a panic from any node.
  \<open>ancestry\<close> is the parent-linked path from genesis to the node, one node per height;
  \<open>ancestor_at\<close> picks the node of that path at a height and has none above; \<open>time_window\<close> is the
  times of the last \<open>span\<close> nodes of that path, oldest first.
\<close>
theorem index_walks_terminate:
  assumes "index_reach limit ix" "unat idx < length (hx_nodes ix)"
  shows "\<exists>path. hx_ancestry ix idx = Some path \<and> chain_ok (hx_nodes ix) path \<and> last path = idx \<and>
    length path = unat (nd_height (hx_nodes ix ! unat idx)) + 1 \<and>
    (\<forall>h. hx_ancestor_at ix idx h = Some (if unat h < length path then Some (path ! unat h) else None)) \<and>
    (\<forall>span. hx_time_window ix idx span =
       Some (map (\<lambda>i. nd_time (hx_nodes ix ! unat i)) (drop (length path - span) path)))"
proof -
  have ok: "index_ok ix" and t: "tree_ok (hx_nodes ix)"
    using index_reach_ok [OF assms(1)] by (simp_all add: index_ok_def)
  from ancestry_from_path [OF ok assms(2)] obtain path where p:
    "\<And>out. ancestry_from ix out idx = Some (path @ rev out)" "chain_ok (hx_nodes ix) path" "last path = idx"
    "length path = unat (nd_height (hx_nodes ix ! unat idx)) + 1"
    "\<And>h. hx_ancestor_at ix idx h = Some (if h \<le> nd_height (hx_nodes ix ! unat idx) then Some (path ! unat h) else None)"
    by blast
  have "hx_ancestor_at ix idx h = Some (if unat h < length path then Some (path ! unat h) else None)" for h
    using p(4, 5) by (simp add: word_le_nat_alt less_Suc_eq_le)
  moreover have "hx_time_window ix idx span =
       Some (map (\<lambda>i. nd_time (hx_nodes ix ! unat i)) (drop (length path - span) path))" for span
    using time_window_path [OF t p(2), of span "[]"] p(3) by (simp add: hx_time_window_def)
  ultimately show ?thesis using p(1-4) by (intro exI [of _ path]) (simp add: hx_ancestry_def)
qed

theorem index_walks_terminate_witness:
  "\<exists>ix path. index_reach sample_limit ix \<and> hx_ancestry ix 3 = Some path \<and> length path = 3 \<and> last path = 3 \<and>
     hx_ancestor_at ix 3 7 = Some None"
proof -
  obtain ix where ix: "index_reach sample_limit ix" and "sample_shape ix" using sample_reach by blast
  note sh = sample_shapeD [OF this(2)]
  from index_walks_terminate [OF ix, of 3] sh obtain path where "hx_ancestry ix 3 = Some path" "length path = 3"
    "last path = 3" "\<And>h. hx_ancestor_at ix 3 h = Some (if unat h < length path then Some (path ! unat h) else None)"
    by auto
  then show ?thesis using ix by (intro exI [of _ ix] exI [of _ path]) simp
qed

end
