(* ===== verification/Fork_Choice.thy ===== *)
theory Fork_Choice
  imports Index_Walks Reorg_Rules
begin

text \<open>
  Fork choice over the header arena, \<open>lib/chain/src/forkchoice.rs\<close>: the node with most work, the
  plan that leads to it and the arena as the chain view that the reorganisation rule reads.  The
  slice search of the standard library is written out.  A panic is \<open>None\<close>.
\<close>

section \<open>Operations\<close>

record plan =
  pl_fork_height :: u64
  pl_rollback :: "u64 list"
  pl_apply :: "u32 list"
  pl_depth :: u64

text \<open>\<open>slice::binary_search(..)\<close>: the position of a hit, or where the value belongs.\<close>

function binary_search_in :: "u32 list \<Rightarrow> u32 \<Rightarrow> nat \<Rightarrow> nat \<Rightarrow> nat + nat" where
  "binary_search_in xs x lo hi =
     (if lo < hi then
        let mid = (lo + hi) div 2 in
        if xs ! mid = x then Inr mid
        else if xs ! mid < x then binary_search_in xs x (mid + 1) hi
        else binary_search_in xs x lo mid
      else Inl lo)"
  by pat_completeness auto
termination
  by (relation "measure (\<lambda>(xs, x, lo, hi). hi - lo)") auto

declare binary_search_in.simps [simp del]

definition binary_search :: "u32 list \<Rightarrow> u32 \<Rightarrow> nat + nat" where
  "binary_search xs x = binary_search_in xs x 0 (length xs)"

definition search_hit :: "nat + nat \<Rightarrow> bool" where
  "search_hit r = (case r of Inr _ \<Rightarrow> True | Inl _ \<Rightarrow> False)"

definition better_node :: "node \<Rightarrow> node \<Rightarrow> bool" where
  "better_node n b \<longleftrightarrow> work_cmp (nd_cum_work n) (nd_cum_work b) = Greater \<or>
     nd_cum_work n = nd_cum_work b \<and> nd_hash n < nd_hash b"

fun select_loop :: "header_index \<Rightarrow> u32 list \<Rightarrow> u32 list \<Rightarrow> u32 \<Rightarrow> u32 option" where
  "select_loop ix skip [] best = Some best"
| "select_loop ix skip (i # is) best =
     (if search_hit (binary_search skip i) then select_loop ix skip is best
      else do { n \<leftarrow> hx_node ix i;
        if nd_invalid n \<or> \<not> nd_pow_ok n then select_loop ix skip is best
        else do { b \<leftarrow> hx_node ix best;
          select_loop ix skip is (if better_node n b then i else best) } })"

definition select_best_excluding :: "header_index \<Rightarrow> u32 list \<Rightarrow> u32 option" where
  "select_best_excluding ix skip =
     do { best \<leftarrow> hx_tip_index ix; select_loop ix skip (hx_indices ix) best }"

definition select_best :: "header_index \<Rightarrow> u32 option" where
  "select_best ix = select_best_excluding ix []"

text \<open>The walk of \<open>plan_reorg\<close>: the branch collected so far and the node where it stops.\<close>

partial_function (option) branch_walk :: "header_index \<Rightarrow> u32 list \<Rightarrow> u32 \<Rightarrow> (u32 list \<times> u32) option" where
  "branch_walk ix branch cur =
     (case hx_is_canonical ix cur of
        None \<Rightarrow> None
      | Some canon \<Rightarrow>
          if canon then Some (branch, cur)
          else
            (case hx_node ix cur of
               None \<Rightarrow> None
             | Some n \<Rightarrow>
                 let branch = branch @ [cur] in
                 if nd_prev n = NO_PARENT then Some (branch, cur) else branch_walk ix branch (nd_prev n)))"

definition height_range :: "u64 \<Rightarrow> u64 \<Rightarrow> u64 list" where
  "height_range a b = map of_nat [unat a..<unat b + 1]"

text \<open>The outer option is a panic, the inner one the result.\<close>

definition plan_reorg :: "header_index \<Rightarrow> u32 \<Rightarrow> plan option option" where
  "plan_reorg ix best =
     do { tip \<leftarrow> hx_tip_index ix;
        if best = tip then Some None
        else do {
          (branch, cur) \<leftarrow> branch_walk ix [] best;
          n \<leftarrow> hx_node ix cur;
          tip_height \<leftarrow> hx_tip_height ix;
          first \<leftarrow> checked_add (nd_height n) 1;
          Some (Some \<lparr> pl_fork_height = nd_height n,
                       pl_rollback = rev (height_range first tip_height),
                       pl_apply = rev branch,
                       pl_depth = saturating_sub tip_height (nd_height n) \<rparr>) } }"

definition av_target_of :: "target \<Rightarrow> u32 \<Rightarrow> hash32 option" where
  "av_target_of limit bits = map_option target_to_be (expand_bits bits limit)"

definition node_info :: "target \<Rightarrow> node \<Rightarrow> header_info option" where
  "node_info limit n =
     do { t \<leftarrow> av_target_of limit (nd_bits n);
        Some \<lparr> hi_height = nd_height n, hi_hash = nd_hash n, hi_time = nd_time n, hi_target = t \<rparr> }"

definition av_len :: "header_index \<Rightarrow> u64 option" where
  "av_len ix = do { h \<leftarrow> hx_tip_height ix; checked_add h 1 }"

definition av_header_at :: "header_index \<Rightarrow> target \<Rightarrow> u64 \<Rightarrow> header_info option option" where
  "av_header_at ix limit height =
     do { r \<leftarrow> hx_canonical_at ix height;
        case r of None \<Rightarrow> Some None | Some n \<Rightarrow> map_option Some (node_info limit n) }"

definition av_header_by_hash :: "header_index \<Rightarrow> target \<Rightarrow> hash32 \<Rightarrow> header_info option option" where
  "av_header_by_hash ix limit hash =
     (case hx_index_of ix hash of
        None \<Rightarrow> Some None
      | Some idx \<Rightarrow>
          do { n \<leftarrow> hx_node ix idx;
             canon \<leftarrow> hx_is_canonical ix idx;
             if \<not> canon then Some None else map_option Some (node_info limit n) })"

definition av_cumulative_work :: "header_index \<Rightarrow> work option" where
  "av_cumulative_work ix = map_option nd_cum_work (hx_tip ix)"

section \<open>The slice search\<close>

definition search_ok :: "u32 list \<Rightarrow> u32 \<Rightarrow> nat + nat \<Rightarrow> bool" where
  "search_ok xs x r \<longleftrightarrow>
     (case r of
        Inr m \<Rightarrow> m < length xs \<and> xs ! m = x
      | Inl p \<Rightarrow> p \<le> length xs \<and> (\<forall>j < p. xs ! j < x) \<and> (\<forall>j. p \<le> j \<longrightarrow> j < length xs \<longrightarrow> x < xs ! j))"

lemma binary_search_in_ok:
  assumes "sorted xs" "lo \<le> hi" "hi \<le> length xs" "\<forall>j < lo. xs ! j < x" "\<forall>j. hi \<le> j \<longrightarrow> j < length xs \<longrightarrow> x < xs ! j"
  shows "search_ok xs x (binary_search_in xs x lo hi)"
  using assms
proof (induction xs x lo hi rule: binary_search_in.induct)
  case (1 xs x lo hi)
  show ?case
  proof (cases "lo < hi")
    case False
    then have "binary_search_in xs x lo hi = Inl lo" by (subst binary_search_in.simps) simp
    then show ?thesis using False "1.prems" by (simp add: search_ok_def)
  next
    case True
    define mid where "mid = (lo + hi) div 2"
    have mid: "lo \<le> mid" "mid < hi" "mid < length xs" using True "1.prems" by (auto simp: mid_def)
    note step = binary_search_in.simps [of xs x lo hi]
    consider "xs ! mid = x" | "xs ! mid < x" | "x < xs ! mid" by fastforce
    then show ?thesis
    proof cases
      case 1
      then show ?thesis using True mid by (simp add: step flip: mid_def) (simp add: search_ok_def)
    next
      case 2
      have "\<forall>j < mid + 1. xs ! j < x"
      proof (intro allI impI)
        fix j assume "j < mid + 1"
        then have "xs ! j \<le> xs ! mid" using "1.prems"(1) mid sorted_nth_mono [of xs j mid] by simp
        then show "xs ! j < x" using 2 by (rule order.strict_trans1)
      qed
      then have "search_ok xs x (binary_search_in xs x (mid + 1) hi)"
        using "1.IH"(1) [OF True mid_def _ 2] 2 "1.prems" mid by auto
      then show ?thesis using True 2 by (auto simp: step simp flip: mid_def)
    next
      case 3
      have "\<forall>j. mid \<le> j \<longrightarrow> j < length xs \<longrightarrow> x < xs ! j"
      proof (intro allI impI)
        fix j assume "mid \<le> j" "j < length xs"
        then have "xs ! mid \<le> xs ! j" using "1.prems"(1) sorted_nth_mono [of xs mid j] by simp
        then show "x < xs ! j" using 3 by (rule order.strict_trans2 [rotated])
      qed
      then have "search_ok xs x (binary_search_in xs x lo mid)"
        using "1.IH"(2) [OF True mid_def] 3 "1.prems" mid by auto
      then show ?thesis using True 3 by (auto simp: step simp flip: mid_def)
    qed
  qed
qed

lemma binary_search_ok: "sorted xs \<Longrightarrow> search_ok xs x (binary_search xs x)"
  unfolding binary_search_def by (rule binary_search_in_ok) auto

lemma search_hit_iff: "sorted xs \<Longrightarrow> search_hit (binary_search xs x) \<longleftrightarrow> x \<in> set xs"
proof (cases "binary_search xs x")
  case (Inr m)
  moreover assume "sorted xs"
  ultimately show ?thesis using binary_search_ok [of xs x] by (auto simp: search_hit_def search_ok_def)
next
  case (Inl p)
  moreover assume "sorted xs"
  ultimately have "\<forall>j < p. xs ! j < x" "\<forall>j. p \<le> j \<longrightarrow> j < length xs \<longrightarrow> x < xs ! j"
    using binary_search_ok [of xs x] by (simp_all add: search_ok_def)
  then have "xs ! j \<noteq> x" if "j < length xs" for j 
    using that by (metis linorder_not_le order.strict_implies_not_eq)
  then show ?thesis using Inl by (auto simp: search_hit_def in_set_conv_nth)
qed

section \<open>The order of fork choice\<close>

definition node_above :: "node \<Rightarrow> node \<Rightarrow> bool" where
  "node_above n b \<longleftrightarrow> limbs_val (nd_cum_work b) < limbs_val (nd_cum_work n) \<or>
     limbs_val (nd_cum_work n) = limbs_val (nd_cum_work b) \<and> nd_hash n < nd_hash b"

lemma better_node_iff:
  assumes "wf_work (nd_cum_work n)" "wf_work (nd_cum_work b)"
  shows "better_node n b \<longleftrightarrow> node_above n b"
  using assms work_val_inj [OF assms] by (auto simp: better_node_def node_above_def work_cmp_nat nat_cmp_def)

lemma node_above_trans: "node_above a b \<Longrightarrow> node_above b c \<Longrightarrow> node_above a c"
  by (auto simp: node_above_def)

lemma node_above_total: "nd_hash a \<noteq> nd_hash b \<Longrightarrow> node_above a b \<or> node_above b a"
  by (auto simp: node_above_def)

definition eligible :: "header_index \<Rightarrow> u32 list \<Rightarrow> u32 \<Rightarrow> bool" where
  "eligible ix skip i \<longleftrightarrow> unat i < length (hx_nodes ix) \<and> i \<notin> set skip \<and>
     \<not> nd_invalid (hx_nodes ix ! unat i) \<and> nd_pow_ok (hx_nodes ix ! unat i)"

lemma index_hash_inj:
  assumes "hash_ok nodes t" "unat i < length nodes" "unat j < length nodes"
    "nd_hash (nodes ! unat i) = nd_hash (nodes ! unat j)"
  shows "i = (j :: u32)"
  using assms unfolding hash_ok_def by (metis option.inject)

lemma select_loop_spec:
  assumes "sorted skip" "hash_ok (hx_nodes ix) t" "\<forall>n \<in> set (hx_nodes ix). wf_work (nd_cum_work n)"
    "\<forall>i \<in> set is. unat i < length (hx_nodes ix)" "unat best < length (hx_nodes ix)"
  shows "\<exists>b. select_loop ix skip is best = Some b \<and> unat b < length (hx_nodes ix) \<and>
    (b = best \<or> b \<in> set is \<and> eligible ix skip b) \<and>
    (\<forall>i. i \<noteq> b \<longrightarrow> i = best \<or> i \<in> set is \<and> eligible ix skip i \<longrightarrow> node_above (hx_nodes ix ! unat b) (hx_nodes ix ! unat i))"
  using assms(4, 5)
proof (induction "is" arbitrary: best)
  case (Cons i "is")
  let ?N = "hx_nodes ix"
  have i: "unat i < length ?N" "hx_node ix i = Some (?N ! unat i)" using Cons.prems by (simp_all add: hx_node_def)
  have b: "hx_node ix best = Some (?N ! unat best)" using Cons.prems by (simp add: hx_node_def)
  have rest: "\<forall>i \<in> set is. unat i < length ?N" using Cons.prems by simp
  have el: "eligible ix skip i \<longleftrightarrow> \<not> search_hit (binary_search skip i) \<and> \<not> (nd_invalid (?N ! unat i) \<or> \<not> nd_pow_ok (?N ! unat i))"
    using i search_hit_iff [OF assms(1)] by (simp add: eligible_def)
  show ?case
  proof (cases "eligible ix skip i")
    case False
    then have "select_loop ix skip (i # is) best = select_loop ix skip is best" using el i by auto
    then show ?thesis using Cons.IH [OF rest Cons.prems(2)] False by auto
  next
    case True
    define best' where "best' = (if node_above (?N ! unat i) (?N ! unat best) then i else best)"
    have better: "better_node (?N ! unat i) (?N ! unat best) \<longleftrightarrow> node_above (?N ! unat i) (?N ! unat best)"
      using better_node_iff assms(3) i(1) Cons.prems(2) by simp
    have step: "select_loop ix skip (i # is) best = select_loop ix skip is best'"
      using True el i(2) b by (simp add: better best'_def)
    have b': "unat best' < length ?N" using i Cons.prems(2) by (simp add: best'_def)
    from Cons.IH [OF rest b'] obtain c where c: "select_loop ix skip is best' = Some c" "unat c < length ?N"
      "c = best' \<or> c \<in> set is \<and> eligible ix skip c"
      "\<And>j. j \<noteq> c \<Longrightarrow> j = best' \<or> j \<in> set is \<and> eligible ix skip j \<Longrightarrow> node_above (?N ! unat c) (?N ! unat j)" by blast
    have lose: "node_above (?N ! unat best') (?N ! unat j)" if "j = i \<or> j = best" "j \<noteq> best'" for j
      using that node_above_total [of "?N ! unat i" "?N ! unat best"] index_hash_inj [OF assms(2) i(1) Cons.prems(2)]
      by (auto simp: best'_def split: if_splits)
    have "node_above (?N ! unat c) (?N ! unat j)" if "j \<noteq> c" "j = best \<or> j \<in> set (i # is) \<and> eligible ix skip j" for j
    proof (cases "j = best' \<or> j \<in> set is \<and> eligible ix skip j")
      case True
      then show ?thesis using that(1) c(4) by blast
    next
      case False
      then have "node_above (?N ! unat best') (?N ! unat j)" using that(2) lose by auto
      then show ?thesis using c(4) [of best'] node_above_trans by (cases "c = best'") blast+
    qed
    moreover have "c = best \<or> c \<in> set (i # is) \<and> eligible ix skip c"
      using c(3) True by (auto simp: best'_def split: if_splits)
    ultimately show ?thesis unfolding step using c(1, 2) by blast
  qed
qed simp

section \<open>Chains through the arena\<close>

lemma node_height_le: "tree_ok nodes \<Longrightarrow> i < length nodes \<Longrightarrow> unat (nd_height (nodes ! i)) \<le> i"
proof (induction i rule: less_induct)
  case (less i)
  then show ?case
    using tree_parent [of nodes i] by (cases "i = 0") (fastforce simp: tree_ok_def)+
qed

lemma chain_nth: "chain_ok nodes chain \<Longrightarrow> j < length chain \<Longrightarrow>
  unat (chain ! j) < length nodes \<and> unat (nd_height (nodes ! unat (chain ! j))) = j"
  by (simp add: chain_ok_def)

lemma chain_length_le:
  assumes "tree_ok nodes" "chain_ok nodes chain"
  shows "length chain \<le> length nodes"
proof -
  have "chain \<noteq> []" using assms(2) by (simp add: chain_ok_def)
  then have j: "length chain - 1 < length chain" by simp
  show ?thesis
    using chain_nth [OF assms(2) j] node_height_le [OF assms(1), of "unat (chain ! (length chain - 1))"] by linarith
qed

lemma chain_agree:
  assumes "chain_ok nodes a" "chain_ok nodes b" "j < length a" "j < length b" "a ! j = b ! j"
  shows "take (Suc j) a = take (Suc j) b"
  using assms(3-5)
proof (induction j)
  case 0
  then show ?case by (simp add: take_Suc_conv_app_nth)
next
  case (Suc j)
  have "nd_prev (nodes ! unat (a ! Suc j)) = a ! j" "nd_prev (nodes ! unat (b ! Suc j)) = b ! j"
    using Suc.prems assms(1, 2) unfolding chain_ok_def by blast+
  then have "a ! j = b ! j" using Suc.prems by simp
  then have "take (Suc j) a = take (Suc j) b" using Suc by simp
  then show ?case using Suc.prems by (simp add: take_Suc_conv_app_nth)
qed

definition on_chain :: "u32 list \<Rightarrow> node list \<Rightarrow> u32 \<Rightarrow> bool" where
  "on_chain chain nodes i \<longleftrightarrow> canonical_has chain (nd_height (nodes ! unat i)) i"

lemma on_chain_path:
  assumes "chain_ok nodes path" "j < length path"
  shows "on_chain chain nodes (path ! j) \<longleftrightarrow> j < length chain \<and> chain ! j = path ! j"
  using chain_nth [OF assms] by (simp add: on_chain_def canonical_has_def)

lemma branch_walk_path:
  assumes "tree_ok (hx_nodes ix)" "chain_ok (hx_nodes ix) (hx_canonical ix)" "chain_ok (hx_nodes ix) path"
  shows "\<exists>k. 0 < k \<and> k \<le> length path \<and> k \<le> length (hx_canonical ix) \<and> take k path = take k (hx_canonical ix) \<and>
    (\<forall>j. k \<le> j \<longrightarrow> j < length path \<longrightarrow> \<not> on_chain (hx_canonical ix) (hx_nodes ix) (path ! j)) \<and>
    (\<forall>out. branch_walk ix out (last path) = Some (out @ rev (drop k path), path ! (k - 1)))"
  using assms(3)
proof (induction path rule: rev_induct)
  case Nil
  then show ?case by (simp add: chain_ok_def)
next
  case (snoc c q)
  note prems = snoc.prems and IH = snoc.IH
  let ?N = "hx_nodes ix" and ?C = "hx_canonical ix" and ?p = "q @ [c]"
  have c: "unat c < length ?N" using chain_nth [OF prems, of "length q"] by simp
  have n: "hx_node ix c = Some (?N ! unat c)" using c by (simp add: hx_node_def)
  have can: "hx_is_canonical ix c = Some (on_chain ?C ?N c)" by (simp add: hx_is_canonical_def n on_chain_def)
  have oc: "on_chain ?C ?N c \<longleftrightarrow> length q < length ?C \<and> ?C ! length q = c"
    using on_chain_path [OF prems, of "length q"] by simp
  show ?case
  proof (cases "on_chain ?C ?N c")
    case True
    then have "take (Suc (length q)) ?C = ?p"
      using chain_agree [OF prems assms(2), of "length q"] oc by simp
    moreover have "branch_walk ix out c = Some (out, c)" for out
      using True by (subst branch_walk.simps) (simp add: can)
    ultimately show ?thesis using True oc by (intro exI [of _ "Suc (length q)"]) simp
  next
    case False
    then have "q \<noteq> []" using oc prems assms(2) by (auto simp: chain_ok_def)
    then obtain r p where q: "q = r @ [p]" by (cases q rule: rev_cases) auto
    have ch: "chain_ok ?N q" "nd_prev (?N ! unat c) = last q" using chain_butlast [of ?N r p c] prems q by simp_all
    have np: "nd_prev (?N ! unat c) \<noteq> NO_PARENT" using chain_no_parent [OF assms(1) prems] \<open>q \<noteq> []\<close> by simp
    from IH [OF ch(1)] obtain k where k: "0 < k" "k \<le> length q" "k \<le> length ?C" "take k q = take k ?C"
      "\<forall>j. k \<le> j \<longrightarrow> j < length q \<longrightarrow> \<not> on_chain ?C ?N (q ! j)"
      "\<And>out. branch_walk ix out (last q) = Some (out @ rev (drop k q), q ! (k - 1))" by blast
    have "branch_walk ix out c = Some (out @ rev (drop k ?p), ?p ! (k - 1))" for out
      using False np k(1, 2) k(6) [of "out @ [c]"]
      by (subst branch_walk.simps) (auto simp: can n ch(2) nth_append)
    moreover have "\<not> on_chain ?C ?N (?p ! j)" if "k \<le> j" "j < length ?p" for j
      using that k(5) False by (cases "j = length q") (auto simp: nth_append)
    ultimately show ?thesis using k(1-4) by (intro exI [of _ k]) simp
  qed
qed

text \<open>The plan: what is kept of the canonical chain and the branch form the path to \<open>best\<close>.\<close>

definition plan_ok :: "header_index \<Rightarrow> u32 \<Rightarrow> plan \<Rightarrow> bool" where
  "plan_ok ix best pl \<longleftrightarrow>
     (let k = unat (pl_fork_height pl) + 1; C = hx_canonical ix in
      k \<le> length C \<and> chain_ok (hx_nodes ix) (take k C @ pl_apply pl) \<and> last (take k C @ pl_apply pl) = best \<and>
      (\<forall>i \<in> set (pl_apply pl). \<not> on_chain C (hx_nodes ix) i) \<and>
      pl_rollback pl = rev (map of_nat [k..<length C]) \<and>
      unat (pl_depth pl) = length C - k)"

lemma index_tip:
  assumes "index_ok ix"
  shows "hx_tip_index ix = Some (last (hx_canonical ix))" "unat (last (hx_canonical ix)) < length (hx_nodes ix)"
    "hx_tip ix = Some (hx_nodes ix ! unat (last (hx_canonical ix)))"
    "hx_tip_height ix = Some (of_nat (length (hx_canonical ix) - 1))"
    "length (hx_canonical ix) < 2 ^ 32" "hx_canonical ix \<noteq> []"
proof -
  let ?C = "hx_canonical ix"
  have c: "chain_ok (hx_nodes ix) ?C" and t: "tree_ok (hx_nodes ix)" using assms by (simp_all add: index_ok_def)
  show ne: "?C \<noteq> []" using c by (simp add: chain_ok_def)
  then have l: "unat (last ?C) < length (hx_nodes ix)" "unat (nd_height (hx_nodes ix ! unat (last ?C))) = length ?C - 1"
    using chain_nth [OF c, of "length ?C - 1"] by (simp_all add: last_conv_nth)
  show tip: "hx_tip_index ix = Some (last ?C)" using ne by (simp add: hx_tip_index_def)
  show "unat (last ?C) < length (hx_nodes ix)" by fact
  show tn: "hx_tip ix = Some (hx_nodes ix ! unat (last ?C))" using tip l by (simp add: hx_tip_def hx_node_def)
  have "nd_height (hx_nodes ix ! unat (last ?C)) = of_nat (length ?C - 1)" unfolding l(2) [symmetric] by simp
  then show "hx_tip_height ix = Some (of_nat (length ?C - 1))" by (simp add: hx_tip_height_def tn)
  show "length ?C < 2 ^ 32" using chain_length_le [OF t c] t by (simp add: tree_ok_def)
qed

lemma plan_reorg_spec:
  assumes ok: "index_ok ix" and best: "unat best < length (hx_nodes ix)"
  shows "if best = last (hx_canonical ix) then plan_reorg ix best = Some None
    else \<exists>pl. plan_reorg ix best = Some (Some pl) \<and> plan_ok ix best pl \<and>
      hx_ancestry ix best = Some (take (unat (pl_fork_height pl) + 1) (hx_canonical ix) @ pl_apply pl)"
proof (cases "best = last (hx_canonical ix)")
  case True
  then show ?thesis using index_tip [OF ok] by (simp add: plan_reorg_def)
next
  case False
  let ?N = "hx_nodes ix" and ?C = "hx_canonical ix"
  have c: "chain_ok ?N ?C" and t: "tree_ok ?N" using ok by (simp_all add: index_ok_def)
  obtain path where path: "\<And>out. ancestry_from ix out best = Some (path @ rev out)" "chain_ok ?N path" "last path = best"
    using ancestry_from_path [OF ok best] by blast
  from branch_walk_path [OF t c path(2)] path(3) obtain k where k: "0 < k" "k \<le> length path" "k \<le> length ?C"
    "take k path = take k ?C" "\<And>j. k \<le> j \<Longrightarrow> j < length path \<Longrightarrow> \<not> on_chain ?C ?N (path ! j)"
    "branch_walk ix [] best = Some (rev (drop k path), path ! (k - 1))" by auto
  define h where "h = nd_height (?N ! unat (path ! (k - 1)))"
  have f: "unat (path ! (k - 1)) < length ?N" "unat h = k - 1" using chain_nth [OF path(2), of "k - 1"] k by (simp_all add: h_def)
  have len: "length ?C < 2 ^ 32" using index_tip [OF ok] by simp
  have "checked_add h 1 = Some (h + 1)" "unat (h + 1) = k"
    using checked_add_unat [of h 1 "h + 1"] f(2) k len unat_add_no_overflow [of h 1] by auto
  note hk = this(2)
  have "of_nat k = h + 1" unfolding hk [symmetric] by simp
  with \<open>checked_add h 1 = Some (h + 1)\<close> have ca: "checked_add h 1 = Some (of_nat k)" by simp
  have uk: "unat (of_nat k :: u64) = k" "unat (of_nat (length ?C - 1) :: u64) = length ?C - 1"
    by (rule unat_of_nat_small; use len k in simp)+
  have "length ?C - 1 + 1 = length ?C" using k by simp
  then have rb: "height_range (of_nat k) (of_nat (length ?C - 1)) = map of_nat [k..<length ?C]"
    by (simp only: height_range_def uk)
  let ?pl = "\<lparr> pl_fork_height = h, pl_rollback = rev (height_range (of_nat k) (of_nat (length ?C - 1))),
    pl_apply = drop k path, pl_depth = saturating_sub (of_nat (length ?C - 1)) h \<rparr>"
  have "plan_reorg ix best = Some (Some ?pl)"
    using False k(6) f(1) index_tip [OF ok] ca [unfolded h_def] by (simp add: plan_reorg_def hx_node_def h_def)
  moreover have split: "take k ?C @ drop k path = path" using k(4) by (metis append_take_drop_id)
  moreover have "plan_ok ix best ?pl"
    unfolding plan_ok_def Let_def
  proof (intro conjI)
    have k1: "unat h + 1 = k" using f(2) k(1) by simp
    show "unat (pl_fork_height ?pl) + 1 \<le> length ?C" using k1 k(3) by simp
    show "chain_ok ?N (take (unat (pl_fork_height ?pl) + 1) ?C @ pl_apply ?pl)"
      "last (take (unat (pl_fork_height ?pl) + 1) ?C @ pl_apply ?pl) = best"
      using k1 split path by simp_all
    show "\<forall>i \<in> set (pl_apply ?pl). \<not> on_chain ?C ?N i" using k(5) by (force simp: in_set_conv_nth)
    show "pl_rollback ?pl = rev (map of_nat [unat (pl_fork_height ?pl) + 1..<length ?C])"
      using k1 rb by simp
    show "unat (pl_depth ?pl) = length ?C - (unat (pl_fork_height ?pl) + 1)"
      using f(2) uk k by (simp add: unat_saturating_sub)
  qed
  ultimately show ?thesis
    using False path(1) [of "[]"] f(2) k(1) by (simp add: hx_ancestry_def)
qed

section \<open>The interface of a chain view\<close>

text \<open>
  What an implementation of the trait \<open>ChainView\<close> owes the reorganisation rule: on well-formed
  states none of its operations panics, they are the fields of one view, and that view meets the
  contract.
\<close>

locale chain_view_impl =
  fixes len_op :: "'s \<Rightarrow> u64 option"
    and header_at_op :: "'s \<Rightarrow> u64 \<Rightarrow> header_info option option"
    and by_hash_op :: "'s \<Rightarrow> hash32 \<Rightarrow> header_info option option"
    and work_op :: "'s \<Rightarrow> work option"
    and view :: "'s \<Rightarrow> chain_view"
    and wf :: "'s \<Rightarrow> bool"
  assumes len_op: "wf s \<Longrightarrow> len_op s = Some (cv_len (view s))"
    and header_at_op: "wf s \<Longrightarrow> header_at_op s h = Some (cv_header_at (view s) h)"
    and by_hash_op: "wf s \<Longrightarrow> by_hash_op s x = Some (cv_header_by_hash (view s) x)"
    and work_op: "wf s \<Longrightarrow> work_op s = Some (cv_cumulative_work (view s))"
    and contract: "wf s \<Longrightarrow> view_ok (view s)"
begin

lemma every_height_held:
  assumes "wf s" "n < unat (cv_len (view s))"
  shows "\<exists>h. header_at_op s (of_nat n) = Some (Some h) \<and> hi_height h = of_nat n"
  using view_header [OF contract [OF assms(1)] assms(2)] header_at_op [OF assms(1)] by metis

lemma rule_returns:
  assumes "wf s" "\<forall>h \<in> set cand. wf_header_info h" "unat start + length cand < 2 ^ 64"
  shows "\<exists>r. evaluate_reorg_with_cap (view s) start cand params cap = Some r"
  using evaluate_reorg_cases [OF contract [OF assms(1)] assms(2, 3)] by blast

lemma admission_returns:
  assumes "wf s"
  shows "\<exists>a. checkpoint_admission_for (view s) height hash = Some a"
proof (cases "height = 0 \<or> cv_len (view s) \<le> height")
  case True
  then show ?thesis by (auto simp: checkpoint_admission_for_def)
next
  case False
  then have "unat height < unat (cv_len (view s))" by (simp add: word_less_nat_alt linorder_not_le)
  then show ?thesis
    using False view_header [OF contract [OF assms], of "unat height"] by (force simp: checkpoint_admission_for_def)
qed

lemma admission_Admit:
  assumes "wf s" "checkpoint_admission_for (view s) height hash = Some Admit"
  shows "\<exists>h. header_at_op s height = Some (Some h) \<and> hi_hash h = hash \<and> 0 < height"
  using assms header_at_op [OF assms(1)] word_neq_0_conv
  by (auto simp: checkpoint_admission_for_def split: if_splits option.splits)

end

section \<open>The arena as a chain view\<close>

definition arena_view :: "target \<Rightarrow> header_index \<Rightarrow> chain_view" where
  "arena_view limit ix =
     \<lparr> cv_len = (case av_len ix of Some l \<Rightarrow> l | None \<Rightarrow> 0),
       cv_header_at = (\<lambda>h. Option.bind (av_header_at ix limit h) id),
       cv_header_by_hash = (\<lambda>x. Option.bind (av_header_by_hash ix limit x) id),
       cv_cumulative_work = (case av_cumulative_work ix of Some w \<Rightarrow> w | None \<Rightarrow> work_ZERO) \<rparr>"

definition arena_wf :: "target \<Rightarrow> header_index \<Rightarrow> bool" where
  "arena_wf limit ix \<longleftrightarrow> wf_target limit \<and> index_ok ix \<and> work_ok limit (hx_nodes ix)"

definition info_of :: "target \<Rightarrow> header_index \<Rightarrow> u32 \<Rightarrow> header_info" where
  "info_of limit ix i = the (node_info limit (hx_nodes ix ! unat i))"

lemma arena_node_info:
  assumes "arena_wf limit ix" "unat i < length (hx_nodes ix)"
  shows "node_info limit (hx_nodes ix ! unat i) = Some (info_of limit ix i)"
    "hi_height (info_of limit ix i) = nd_height (hx_nodes ix ! unat i)"
    "hi_hash (info_of limit ix i) = nd_hash (hx_nodes ix ! unat i)"
    "wf_header_info (info_of limit ix i)" "header_work (info_of limit ix i) = node_work limit (hx_nodes ix) i"
proof -
  let ?n = "hx_nodes ix ! unat i"
  have l: "wf_target limit" using assms by (simp add: arena_wf_def)
  obtain w where w: "bits_work (nd_bits ?n) limit = Some w" using assms unfolding arena_wf_def work_ok_def by blast
  then obtain t where t: "expand_bits (nd_bits ?n) limit = Some t" by (auto simp: bits_work_def split: option.splits)
  have wt: "wf_target t" using expand_bits_Some [OF t l] by simp
  have v: "limbs_val w = 2 ^ 256 div (limbs_val t + 1)" using bits_work_val [OF t l] w by auto
  have info: "node_info limit ?n = Some \<lparr> hi_height = nd_height ?n, hi_hash = nd_hash ?n, hi_time = nd_time ?n,
      hi_target = target_to_be t \<rparr>"
    by (simp add: node_info_def av_target_of_def t)
  then have i: "info_of limit ix i = \<lparr> hi_height = nd_height ?n, hi_hash = nd_hash ?n, hi_time = nd_time ?n,
      hi_target = target_to_be t \<rparr>" by (simp add: info_of_def)
  show "node_info limit ?n = Some (info_of limit ix i)" "hi_height (info_of limit ix i) = nd_height ?n"
    "hi_hash (info_of limit ix i) = nd_hash ?n" "wf_header_info (info_of limit ix i)"
    using info i by (simp_all add: wf_header_info_def)
  show "header_work (info_of limit ix i) = node_work limit (hx_nodes ix) i"
    using i w v wt by (simp add: header_work_def node_work_def be_val_target_to_be)
qed

lemma arena_header_at:
  assumes "arena_wf limit ix"
  shows "av_header_at ix limit h =
    Some (if unat h < length (hx_canonical ix) then Some (info_of limit ix (hx_canonical ix ! unat h)) else None)"
proof (cases "unat h < length (hx_canonical ix)")
  case True
  have "unat (hx_canonical ix ! unat h) < length (hx_nodes ix)"
    using chain_nth [of "hx_nodes ix" "hx_canonical ix" "unat h"] True assms by (simp add: arena_wf_def index_ok_def)
  then show ?thesis
    using True arena_node_info(1) [OF assms] by (simp add: av_header_at_def hx_canonical_at_def hx_node_def)
qed (simp add: av_header_at_def hx_canonical_at_def)

lemma arena_len:
  assumes "arena_wf limit ix"
  shows "av_len ix = Some (of_nat (length (hx_canonical ix)))"
    "unat (of_nat (length (hx_canonical ix)) :: u64) = length (hx_canonical ix)"
proof -
  let ?n = "length (hx_canonical ix)"
  note tip = index_tip [of ix]
  have n: "0 < ?n" "?n < 2 ^ 32" using tip assms by (simp_all add: arena_wf_def)
  show u: "unat (of_nat ?n :: u64) = ?n" by (rule unat_of_nat_small) (use n in simp)
  have u1: "unat (of_nat (?n - 1) :: u64) = ?n - 1" by (rule unat_of_nat_small) (use n in simp)
  have "checked_add (of_nat (?n - 1) :: u64) 1 = Some (of_nat ?n)"
    unfolding checked_add_unat u u1 using n by simp
  then show "av_len ix = Some (of_nat ?n)" using tip assms by (simp add: av_len_def arena_wf_def)
qed

lemma arena_view_fields:
  assumes "arena_wf limit ix"
  shows "cv_len (arena_view limit ix) = of_nat (length (hx_canonical ix))"
    "unat (cv_len (arena_view limit ix)) = length (hx_canonical ix)"
    "cv_header_at (arena_view limit ix) h =
       (if unat h < length (hx_canonical ix) then Some (info_of limit ix (hx_canonical ix ! unat h)) else None)"
    "cv_cumulative_work (arena_view limit ix) = nd_cum_work (hx_nodes ix ! unat (last (hx_canonical ix)))"
  using arena_len [OF assms] arena_header_at [OF assms] index_tip(3) [of ix] assms
  by (simp_all add: arena_view_def av_cumulative_work_def arena_wf_def)

lemma arena_headers:
  assumes "arena_wf limit ix" "b \<le> length (hx_canonical ix)"
  shows "view_headers (arena_view limit ix) a b = map (info_of limit ix) (drop a (take b (hx_canonical ix)))"
proof (rule nth_equalityI)
  show "length (view_headers (arena_view limit ix) a b) = length (map (info_of limit ix) (drop a (take b (hx_canonical ix))))"
    using assms(2) by (simp add: view_headers_def)
  fix i assume "i < length (view_headers (arena_view limit ix) a b)"
  then have i: "a + i < b" by (simp add: view_headers_def)
  have "unat (of_nat (a + i) :: u64) = a + i"
    by (rule unat_of_nat_small) (use i assms(2) index_tip(5) [of ix] assms(1) in \<open>simp add: arena_wf_def\<close>)
  then show "view_headers (arena_view limit ix) a b ! i = map (info_of limit ix) (drop a (take b (hx_canonical ix))) ! i"
    using i assms by (simp add: view_headers_def arena_view_fields del: of_nat_add)
qed

lemma arena_view_ok:
  assumes "arena_wf limit ix"
  shows "view_ok (arena_view limit ix)"
proof -
  let ?N = "hx_nodes ix" and ?C = "hx_canonical ix" and ?v = "arena_view limit ix"
  have wf: "wf_target limit" "index_ok ix" "work_ok limit ?N" "tree_ok ?N" "chain_ok ?N ?C"
    using assms by (simp_all add: arena_wf_def index_ok_def)
  note tip = index_tip [OF wf(2)]
  have node: "unat i < length ?N" if "i \<in> set ?C" for i
    using that chain_nth [OF wf(5)] by (auto simp: in_set_conv_nth)
  have "\<exists>h. cv_header_at ?v (of_nat n) = Some h \<and> hi_height h = of_nat n \<and> wf_header_info h" if "n < length ?C" for n
  proof -
    have u: "unat (of_nat n :: u64) = n" by (rule unat_of_nat_small) (use that tip(5) in simp)
    have i: "unat (?C ! n) < length ?N" "unat (nd_height (?N ! unat (?C ! n))) = n" using chain_nth [OF wf(5) that] by auto
    then have "nd_height (?N ! unat (?C ! n)) = of_nat n" by (simp add: word_unat_eq_iff u)
    then show ?thesis using that u i arena_node_info [OF assms i(1)] by (simp add: arena_view_fields [OF assms])
  qed
  moreover have "limbs_val (cv_cumulative_work ?v) = sum_list (map header_work (view_headers ?v 0 (length ?C)))"
  proof -
    have "map header_work (view_headers ?v 0 (length ?C)) = map (node_work limit ?N) ?C"
      using arena_headers [OF assms order_refl, of 0] arena_node_info(5) [OF assms node] by simp
    then show ?thesis using chain_cum_work [OF wf(4, 3, 5)] by (simp add: arena_view_fields [OF assms])
  qed
  moreover have "wf_work (cv_cumulative_work ?v)"
    using wf(3) tip(2) by (simp add: arena_view_fields [OF assms] work_ok_def)
  moreover have "0 < cv_len ?v"
    using tip(6) arena_view_fields(2) [OF assms] by (simp add: word_less_nat_alt)
  ultimately show ?thesis by (simp add: view_ok_def arena_view_fields(2) [OF assms])
qed

lemma arena_by_hash:
  assumes "arena_wf limit ix"
  shows "av_header_by_hash ix limit x = Some (cv_header_by_hash (arena_view limit ix) x)"
proof (cases "hx_index_of ix x")
  case None
  then show ?thesis by (simp add: av_header_by_hash_def arena_view_def)
next
  case (Some i)
  then have i: "unat i < length (hx_nodes ix)"
    using assms by (simp add: hx_index_of_def arena_wf_def index_ok_def hash_ok_def)
  then have "hx_node ix i = Some (hx_nodes ix ! unat i)" by (simp add: hx_node_def)
  then show ?thesis
    using Some arena_node_info(1) [OF assms i] by (simp add: av_header_by_hash_def arena_view_def hx_is_canonical_def)
qed

interpretation arena: chain_view_impl av_len "\<lambda>ix. av_header_at ix limit" "\<lambda>ix. av_header_by_hash ix limit"
  av_cumulative_work "arena_view limit" "arena_wf limit" for limit
proof unfold_locales
  fix ix assume wf: "arena_wf limit ix"
  show "av_len ix = Some (cv_len (arena_view limit ix))" using arena_len [OF wf] arena_view_fields [OF wf] by simp
  show "av_header_at ix limit h = Some (cv_header_at (arena_view limit ix) h)" for h
    using arena_header_at [OF wf] arena_view_fields [OF wf] by simp
  show "av_header_by_hash ix limit x = Some (cv_header_by_hash (arena_view limit ix) x)" for x
    using arena_by_hash [OF wf] .
  show "av_cumulative_work ix = Some (cv_cumulative_work (arena_view limit ix))"
    using wf index_tip(3) [of ix] arena_view_fields [OF wf] by (simp add: av_cumulative_work_def arena_wf_def)
  show "view_ok (arena_view limit ix)" using arena_view_ok [OF wf] .
qed

section \<open>Adopting a planned branch\<close>

definition clear_base :: "node \<Rightarrow> node" where
  "clear_base n = n \<lparr> nd_branch_base_height := 0 \<rparr>"

lemma rebase_loop_clear: "rebase_loop chain nodes is = Some nodes' \<Longrightarrow> map clear_base nodes' = map clear_base nodes"
proof (induction chain nodes "is" rule: rebase_loop.induct)
  case (2 chain nodes i "is")
  have upd: "map clear_base (nodes[i := (nodes ! i) \<lparr> nd_branch_base_height := b \<rparr>]) = map clear_base nodes" for b
  proof (cases "i < length nodes")
    case True
    then have "map clear_base nodes ! i = clear_base (nodes ! i)" by simp
    then have "(map clear_base nodes)[i := clear_base ((nodes ! i) \<lparr> nd_branch_base_height := b \<rparr>)] = map clear_base nodes"
      using list_update_same_conv [of i "map clear_base nodes"] True by (simp add: clear_base_def)
    then show ?thesis by (simp add: map_update)
  qed (simp add: list_update_beyond)
  show ?case
    using 2 upd by (auto simp: Let_def split: if_splits)
qed simp

lemma set_canonical_nodes:
  assumes "hx_set_canonical ix chain = Some ix'" "i < length (hx_nodes ix)"
  shows "length (hx_nodes ix') = length (hx_nodes ix)" "clear_base (hx_nodes ix' ! i) = clear_base (hx_nodes ix ! i)"
    "hx_canonical ix' = chain"
proof -
  obtain nodes' where r: "rebase_loop chain (hx_nodes ix) [0..<length (hx_nodes ix)] = Some nodes'"
    and ix': "ix' = ix \<lparr> hx_canonical := chain, hx_nodes := nodes' \<rparr>"
    using assms(1) by (auto simp: hx_set_canonical_def bind_eq_Some_conv)
  note m = rebase_loop_clear [OF r]
  show l: "length (hx_nodes ix') = length (hx_nodes ix)" using arg_cong [OF m, of length] ix' by simp
  show "clear_base (hx_nodes ix' ! i) = clear_base (hx_nodes ix ! i)"
    using arg_cong [OF m, of "\<lambda>xs. xs ! i"] assms(2) l ix' by simp
  show "hx_canonical ix' = chain" using ix' by simp
qed

lemma node_info_clear: "clear_base n' = clear_base n \<Longrightarrow> node_info limit n' = node_info limit n"
  by (simp add: clear_base_def node_info_def) (metis node.ext_inject node.surjective node.update_convs(7))

lemma planned_branch_adopted:
  assumes wf: "arena_wf limit ix" and pl: "plan_ok ix best pl"
    and ix': "hx_set_canonical ix (take (unat (pl_fork_height pl) + 1) (hx_canonical ix) @ pl_apply pl) = Some ix'"
      "arena_wf limit ix'"
  shows "reorged (arena_view limit ix) (pl_fork_height pl + 1) (map (info_of limit ix) (pl_apply pl)) (arena_view limit ix')"
    "unat (pl_fork_height pl + 1) = unat (pl_fork_height pl) + 1" 
    "unat (pl_fork_height pl) + 1 + length (pl_apply pl) < 2 ^ 32"
proof -
  let ?k = "unat (pl_fork_height pl) + 1" and ?C = "hx_canonical ix"
  have k: "?k \<le> length ?C" and ch: "chain_ok (hx_nodes ix) (take ?k ?C @ pl_apply pl)"
    using pl by (simp_all add: plan_ok_def Let_def)
  have ok: "index_ok ix" "index_ok ix'" using wf ix'(2) by (simp_all add: arena_wf_def)
  have "0 < length (hx_nodes ix)" using ok(1) by (auto simp: index_ok_def tree_ok_def)
  then have can: "hx_canonical ix' = take ?k ?C @ pl_apply pl" using set_canonical_nodes [OF ix'(1)] by blast
  have len: "length ?C < 2 ^ 32" "length (hx_canonical ix') < 2 ^ 32" using index_tip [OF ok(1)] index_tip [OF ok(2)] by auto
  show s: "unat (pl_fork_height pl + 1) = ?k"
    using unat_add_no_overflow [of "pl_fork_height pl" 1] k len by simp
  show "?k + length (pl_apply pl) < 2 ^ 32" using len(2) can k by simp
  have info: "info_of limit ix' i = info_of limit ix i" if "unat i < length (hx_nodes ix)" for i
    using node_info_clear [OF set_canonical_nodes(2) [OF ix'(1) that]] by (simp add: info_of_def)
  have node: "unat i < length (hx_nodes ix)" if "i \<in> set (take ?k ?C @ pl_apply pl)" for i
    using that chain_nth [OF ch] by (metis in_set_conv_nth)
  have l: "length (hx_canonical ix') = ?k + length (pl_apply pl)" using can k by simp
  have "map (info_of limit ix') (take ?k ?C) = map (info_of limit ix) (take ?k ?C)"
    "map (info_of limit ix') (pl_apply pl) = map (info_of limit ix) (pl_apply pl)"
    using info node by auto
  then show "reorged (arena_view limit ix) (pl_fork_height pl + 1) (map (info_of limit ix) (pl_apply pl)) (arena_view limit ix')"
    using l can k arena_view_fields(2) [OF ix'(2)] arena_headers [OF ix'(2), of ?k 0]
      arena_headers [OF ix'(2), of "length (hx_canonical ix')" ?k] arena_headers [OF wf k, of 0]
    by (simp add: reorged_def s)
qed

lemma planned_weights:
  assumes wf: "arena_wf limit ix" "arena_wf limit ix'" and r: "reorged (arena_view limit ix) s cand (arena_view limit ix')"
    and s: "unat s \<le> length (hx_canonical ix)" and best: "last (hx_canonical ix') = best" "clear_base (hx_nodes ix' ! unat best) = clear_base (hx_nodes ix ! unat best)"
    and tip: "last (hx_canonical ix) = tip"
  shows "limbs_val (nd_cum_work (hx_nodes ix ! unat best)) + view_work_above (arena_view limit ix) s =
    limbs_val (nd_cum_work (hx_nodes ix ! unat tip)) + branch_work cand"
proof -
  let ?v = "arena_view limit ix" and ?v' = "arena_view limit ix'"
  have cw: "nd_cum_work (hx_nodes ix' ! unat best) = nd_cum_work (hx_nodes ix ! unat best)"
    using arg_cong [OF best(2), of nd_cum_work] by (simp add: clear_base_def)
  have le: "unat s \<le> unat (cv_len ?v)" using s arena_view_fields(2) [OF wf(1)] by simp
  have le': "unat s \<le> unat (cv_len ?v')" using r by (simp add: reorged_def)
  have low: "view_headers ?v' 0 (unat s) = view_headers ?v 0 (unat s)"
    and c: "view_headers ?v' (unat s) (unat (cv_len ?v')) = cand" using r unfolding reorged_def by blast+
  have "view_work_above ?v' s = branch_work cand" by (simp only: view_work_above_def branch_work_def c)
  then show ?thesis
    using cumulative_split [OF arena_view_ok [OF wf(1)] le] cumulative_split [OF arena_view_ok [OF wf(2)] le'] low cw best(1) tip
      arena_view_fields(4) [OF wf(1)] arena_view_fields(4) [OF wf(2)] by simp
qed

lemma arena_wf_reach: "index_reach limit ix \<Longrightarrow> wf_target limit \<Longrightarrow> arena_wf limit ix"
  using index_reach_ok index_reach_work by (simp add: arena_wf_def)

lemma plan_ok_nodes:
  assumes "plan_ok ix best pl" "i \<in> set (pl_apply pl)"
  shows "unat i < length (hx_nodes ix)"
proof -
  let ?p = "take (unat (pl_fork_height pl) + 1) (hx_canonical ix) @ pl_apply pl"
  have ch: "chain_ok (hx_nodes ix) ?p" using assms(1) by (simp add: plan_ok_def Let_def)
  have "i \<in> set ?p" using assms(2) by simp
  then show ?thesis using chain_nth [OF ch] by (metis in_set_conv_nth)
qed

lemma planned_candidate:
  assumes wf: "arena_wf limit ix" and pl: "plan_ok ix best pl" and best: "unat best < length (hx_nodes ix)"
    and us: "unat start = unat (pl_fork_height pl) + 1"
  shows "\<forall>h \<in> set (map (info_of limit ix) (pl_apply pl)). wf_header_info h"
    "cv_len (arena_view limit ix) - start = pl_depth pl"
    "hi_hash (the (view_tip (arena_view limit ix))) = nd_hash (hx_nodes ix ! unat (last (hx_canonical ix)))"
    "pl_apply pl \<noteq> [] \<Longrightarrow> hi_hash (last (map (info_of limit ix) (pl_apply pl))) = nd_hash (hx_nodes ix ! unat best)"
proof -
  let ?C = "hx_canonical ix" and ?v = "arena_view limit ix" and ?k = "unat (pl_fork_height pl) + 1"
  have ok: "index_ok ix" using wf by (simp add: arena_wf_def)
  have kl: "?k \<le> length ?C" and lb: "last (take ?k ?C @ pl_apply pl) = best" and dep: "unat (pl_depth pl) = length ?C - ?k"
    using pl by (simp_all add: plan_ok_def Let_def)
  show "\<forall>h \<in> set (map (info_of limit ix) (pl_apply pl)). wf_header_info h"
    using arena_node_info(4) [OF wf] plan_ok_nodes [OF pl] by auto
  show "cv_len ?v - start = pl_depth pl"
    using arena_view_fields(2) [OF wf] us kl dep by (simp add: word_unat_eq_iff unat_sub_le word_le_nat_alt)
  have "last (view_headers ?v 0 (length ?C)) = info_of limit ix (last ?C)"
    using arena_headers [OF wf order_refl, of 0] index_tip(6) [OF ok] by (simp add: last_map)
  then have tip: "the (view_tip ?v) = info_of limit ix (last ?C)"
    using last_view_headers [OF arena_view_ok [OF wf], of 0] index_tip(6) [OF ok] arena_view_fields(2) [OF wf] by simp
  show "hi_hash (the (view_tip ?v)) = nd_hash (hx_nodes ix ! unat (last ?C))"
    unfolding tip by (rule arena_node_info(3) [OF wf index_tip(2) [OF ok]])
  show "hi_hash (last (map (info_of limit ix) (pl_apply pl))) = nd_hash (hx_nodes ix ! unat best)" if "pl_apply pl \<noteq> []"
    using that lb arena_node_info(3) [OF wf best] by (simp add: last_map)
qed

lemma adopt_setup:
  assumes "index_reach limit ix" "unat best < length (hx_nodes ix)" "plan_reorg ix best = Some (Some pl)"
  shows "\<exists>path ix'. plan_ok ix best pl \<and> path = take (unat (pl_fork_height pl) + 1) (hx_canonical ix) @ pl_apply pl \<and>
    hx_ancestry ix best = Some path \<and> hx_set_canonical ix path = Some ix' \<and> index_reach limit ix'"
proof -
  let ?p = "take (unat (pl_fork_height pl) + 1) (hx_canonical ix) @ pl_apply pl"
  have ok: "index_ok ix" using index_reach_ok assms(1) .
  have pl: "plan_ok ix best pl" "hx_ancestry ix best = Some ?p"
    using plan_reorg_spec [OF ok assms(2)] assms(3) by (auto split: if_splits)
  obtain ix' where ix': "hx_set_canonical ix ?p = Some ix'"
    using rebase_loop_spec [of "hx_nodes ix" 0 ?p] ok by (auto simp: hx_set_canonical_def index_ok_def)
  have "chain_ok (hx_nodes ix) ?p" using pl(1) by (simp add: plan_ok_def Let_def)
  then show ?thesis using pl ix' reach_set_canonical [OF assms(1) _ ix'] by blast
qed

section \<open>Properties\<close>

text \<open>
  C34.  \<open>select_best_excluding\<close> on a reachable arena with a sorted skip list returns a node of the
  arena without a panic; it is the canonical tip or a proof-of-work-checked, valid node outside the
  skip list, and it has strictly more work than, or equal work and a smaller hash than, the tip and
  every other such node.
\<close>
theorem select_best_maximal:
  assumes "index_reach limit ix" "sorted skip"
  shows "\<exists>best. select_best_excluding ix skip = Some best \<and> unat best < length (hx_nodes ix) \<and>
    (hx_tip_index ix = Some best \<or> eligible ix skip best) \<and>
    (\<forall>i. i \<noteq> best \<longrightarrow> hx_tip_index ix = Some i \<or> eligible ix skip i \<longrightarrow>
       node_above (hx_nodes ix ! unat best) (hx_nodes ix ! unat i))"
proof -
  have ok: "index_ok ix" using index_reach_ok assms(1) .
  have wf: "\<forall>n \<in> set (hx_nodes ix). wf_work (nd_cum_work n)"
    using index_reach_work [OF assms(1)] by (auto simp: work_ok_def in_set_conv_nth)
  have h: "hash_ok (hx_nodes ix) (hx_by_hash ix)" and l: "length (hx_nodes ix) < 2 ^ 32"
    using ok by (simp_all add: index_ok_def tree_ok_def)
  have u: "unat (of_nat i :: u32) = i" if "i \<le> length (hx_nodes ix)" for i
    by (rule unat_of_nat_small) (use that l in simp)
  have all: "i \<in> set (hx_indices ix) \<longleftrightarrow> unat i < length (hx_nodes ix)" for i
  proof
    assume "unat i < length (hx_nodes ix)"
    moreover have "i = of_nat (unat i)" by simp
    ultimately have "i \<in> of_nat ` {0..<length (hx_nodes ix)}" by (intro image_eqI [of _ _ "unat i"]) simp_all
    then show "i \<in> set (hx_indices ix)" by (simp add: hx_indices_def u)
  qed (auto simp: hx_indices_def u)
  note tip = index_tip [OF ok]
  from select_loop_spec [OF assms(2) h wf _ tip(2), of "hx_indices ix"]
  show ?thesis using all tip(1) by (fastforce simp: select_best_excluding_def eligible_def)
qed

theorem select_best_maximal_witness:
  "\<exists>ix best. index_reach sample_limit ix \<and> select_best_excluding ix [2] = Some best \<and> best \<noteq> 2 \<and>
     unat best < length (hx_nodes ix)"
proof -
  obtain ix where ix: "index_reach sample_limit ix" and "sample_shape ix" using sample_reach by blast
  note sh = sample_shapeD [OF this(2)]
  from select_best_maximal [OF ix, of "[2]"] sh(6) show ?thesis
    using ix by (auto simp: eligible_def hx_tip_index_def)
qed

text \<open>
  C35.  \<open>plan_reorg\<close> ends on every node of a reachable arena.  For the tip there is no plan; for any
  other node the canonical chain up to the fork height followed by the branch to apply is the
  parent-linked path to that node, the branch has no canonical node, the heights to roll back are
  the canonical heights above the fork, highest first, and the depth is their number.
\<close>
theorem plan_reorg_connects:
  assumes "index_reach limit ix" "unat best < length (hx_nodes ix)"
  shows "if hx_tip_index ix = Some best then plan_reorg ix best = Some None
    else \<exists>pl. plan_reorg ix best = Some (Some pl) \<and> plan_ok ix best pl \<and>
      hx_ancestry ix best = Some (take (unat (pl_fork_height pl) + 1) (hx_canonical ix) @ pl_apply pl)"
  using plan_reorg_spec [OF index_reach_ok [OF assms(1)] assms(2)] index_tip(1) [OF index_reach_ok [OF assms(1)]]
  by (simp split: if_splits)

theorem plan_reorg_connects_witness:
  "\<exists>ix pl. index_reach sample_limit ix \<and> plan_reorg ix 3 = Some (Some pl) \<and> plan_ok ix 3 pl"
proof -
  obtain ix where ix: "index_reach sample_limit ix" and "sample_shape ix" using sample_reach by blast
  note sh = sample_shapeD [OF this(2)]
  from plan_reorg_connects [OF ix, of 3] sh show ?thesis using ix by (auto simp: hx_tip_index_def)
qed

text \<open>
  C36.  Adopting a plan in the arena refines the abstract replacement of a branch.  For a node of a
  reachable arena with a plan, the rule of \<open>evaluate_reorg_with_cap\<close> on the arena's view never
  panics; when the branch is permitted it is accepted exactly when the node has more work than the
  tip, or wins the tie of depth one; installing the node's ancestry as canonical chain gives a
  reachable arena whose view is the old one with the branch in place; and an accepted branch makes
  a better chain.
\<close>
theorem adopted_plan_refines_reorg:
  fixes limit ix best pl params cap
  defines "v \<equiv> arena_view limit ix" and "start \<equiv> pl_fork_height pl + 1" and "cand \<equiv> map (info_of limit ix) (pl_apply pl)"
    and "w \<equiv> \<lambda>i. limbs_val (nd_cum_work (hx_nodes ix ! unat i))" and "hash \<equiv> \<lambda>i. nd_hash (hx_nodes ix ! unat i)"
    and "tip \<equiv> last (hx_canonical ix)"
  assumes "index_reach limit ix" "wf_target limit" "unat best < length (hx_nodes ix)" "plan_reorg ix best = Some (Some pl)"
  shows "\<exists>path ix' r. hx_ancestry ix best = Some path \<and> hx_set_canonical ix path = Some ix' \<and> index_reach limit ix' \<and>
    reorged v start cand (arena_view limit ix') \<and> evaluate_reorg_with_cap v start cand params cap = Some r \<and>
    (reorg_permitted v start cand params cap \<longrightarrow>
       r = (if w tip < w best then Inr StrictlyMoreWork
            else if pl_depth pl = 1 \<and> w best = w tip \<and> length (pl_apply pl) = 1 \<and> hash best < hash tip
            then Inr TieBreak else Inl (InsufficientWork (pl_depth pl)))) \<and>
    (isl r \<or> chain_better (arena_view limit ix') v)"
proof -
  obtain path ix' where pl: "plan_ok ix best pl" "path = take (unat (pl_fork_height pl) + 1) (hx_canonical ix) @ pl_apply pl"
    and path: "hx_ancestry ix best = Some path" "hx_set_canonical ix path = Some ix'" and r': "index_reach limit ix'"
    using adopt_setup [OF assms(7, 9, 10)] by blast
  have wf: "arena_wf limit ix" "arena_wf limit ix'" using arena_wf_reach assms(7, 8) r' by blast+
  note ad = planned_branch_adopted [OF wf(1) pl(1) path(2) [unfolded pl(2)] wf(2)]
  have us: "unat start = unat (pl_fork_height pl) + 1" using ad by (simp add: start_def)
  note cnd = planned_candidate [OF wf(1) pl(1) assms(9) us, folded cand_def v_def tip_def]
  have re: "reorged v start cand (arena_view limit ix')" using ad(1) by (simp add: v_def start_def cand_def)
  note nb = set_canonical_nodes [OF path(2) assms(9)]
  have "unat start \<le> length (hx_canonical ix)" "last path = best"
    using pl us by (simp_all add: plan_ok_def Let_def)
  then have weigh: "w best + view_work_above v start = w tip + branch_work cand"
    using planned_weights [OF wf re [unfolded v_def] _ _ nb(2) refl] nb(3) by (simp add: w_def v_def tip_def)
  have clen: "unat start + length cand < 2 ^ 64" using ad(3) us by (simp add: cand_def)
  obtain r where r: "evaluate_reorg_with_cap v start cand params cap = Some r"
    "reorg_permitted v start cand params cap \<longrightarrow>
       r = (if view_work_above v start < branch_work cand then Inr StrictlyMoreWork
            else if cv_len v - start = 1 \<and> branch_work cand = view_work_above v start \<and>
                 length cand = 1 \<and> hi_hash (last cand) < hi_hash (the (view_tip v))
            then Inr TieBreak else Inl (InsufficientWork (cv_len v - start)))"
    using evaluate_reorg_cases [OF _ cnd(1) clen, of v params cap] arena_view_ok [OF wf(1)] unfolding v_def by blast
  have "branch_work cand = view_work_above v start \<longleftrightarrow> w best = w tip" "view_work_above v start < branch_work cand \<longleftrightarrow> w tip < w best"
    using weigh by linarith+
  then have dec: "reorg_permitted v start cand params cap \<longrightarrow>
       r = (if w tip < w best then Inr StrictlyMoreWork
            else if pl_depth pl = 1 \<and> w best = w tip \<and> length (pl_apply pl) = 1 \<and> hash best < hash tip
            then Inr TieBreak else Inl (InsufficientWork (pl_depth pl)))"
    using r(2) cnd(2-4) by (cases "pl_apply pl") (simp_all add: cand_def hash_def)
  have "isl r \<or> chain_better (arena_view limit ix') v"
    using accepted_reorg_better [OF _ _ re, of params cap] r(1) arena_view_ok [OF wf(1)] arena_view_ok [OF wf(2)]
    by (cases r) (auto simp: v_def)
  then show ?thesis using path r' re r(1) dec by blast
qed

theorem adopted_plan_refines_reorg_witness:
  "\<exists>ix pl path ix'. index_reach sample_limit ix \<and> plan_reorg ix 3 = Some (Some pl) \<and> hx_ancestry ix 3 = Some path \<and>
     hx_set_canonical ix path = Some ix' \<and>
     reorged (arena_view sample_limit ix) (pl_fork_height pl + 1) (map (info_of sample_limit ix) (pl_apply pl))
       (arena_view sample_limit ix')"
proof -
  obtain ix where ix: "index_reach sample_limit ix" and "sample_shape ix" using sample_reach by blast
  note sh = sample_shapeD [OF this(2)]
  have wf: "wf_target sample_limit" by (simp add: sample_limit_def wf_target_def)
  have i3: "unat (3 :: u32) < length (hx_nodes ix)" using sh(1) by simp
  obtain pl where pl: "plan_reorg ix 3 = Some (Some pl)"
    using plan_reorg_spec [OF index_reach_ok [OF ix] i3] sh(6) by auto
  show ?thesis using adopted_plan_refines_reorg [OF ix wf i3 pl] ix pl by blast
qed

end
