(* ===== verification/Branch.thy ===== *)
theory Branch
  imports Body_Validation Fork_Choice
begin

text \<open>
  Rewinding to a fork and validating a branch on top of it: \<open>lib/chain/src/reorg.rs\<close>.  The
  trait \<open>Store\<close> of \<open>lib/chain/src/traits.rs\<close> is a record of its operations.  Reported conditions
  are returned as a list, in order.  The outer option is a panic.  When a function fails its
  callers drop the overlay, the ledger and the replayed blocks, so the model returns them on
  success only.
\<close>

section \<open>The store\<close>

record chain_store =
  st_tip :: tip_ref
  st_header_at :: "u64 \<Rightarrow> header_rec option"
  st_header_by_hash :: "hash32 \<Rightarrow> header_rec option"
  st_body_at :: "u64 \<Rightarrow> bytes option"
  st_body_by_hash :: "hash32 \<Rightarrow> bytes option"
  st_account :: "address \<Rightarrow> account"
  st_undo_at :: "u64 \<Rightarrow> undo_rec list option"
  st_replay_floor :: u64
  st_checkpoint_at_or_below :: "u64 \<Rightarrow> u64 option"
  st_state_snapshot :: "u64 \<Rightarrow> (address \<times> account) list option"
  st_is_invalid :: "hash32 \<Rightarrow> bool"
  st_headers_range :: "u64 \<Rightarrow> nat \<Rightarrow> bytes list"
  st_side_headers_from :: "u64 \<Rightarrow> nat \<Rightarrow> header_rec list"

section \<open>Operations\<close>

datatype base = UndoWindow | DeepReplay u64

fun apply_undos :: "chain_store \<Rightarrow> u64 list \<Rightarrow> overlay \<Rightarrow> overlay option" where
  "apply_undos st [] ov = Some ov"
| "apply_undos st (h # hs) ov =
     (case st_undo_at st h of None \<Rightarrow> None | Some recs \<Rightarrow> apply_undos st hs (ov_apply_undo ov recs))"

fun build_ledger_from :: "chain_store \<Rightarrow> u64 list \<Rightarrow> coinbase_ledger \<Rightarrow> reject + coinbase_ledger" where
  "build_ledger_from st [] ledger = Inr ledger"
| "build_ledger_from st (h # hs) ledger =
     (case st_body_at st h of
        None \<Rightarrow> build_ledger_from st hs ledger
      | Some raw \<Rightarrow>
          (case body_parse raw of
             Inl _ \<Rightarrow> build_ledger_from st hs ledger
           | Inr body \<Rightarrow>
               (case body_decode_tx body 0 of
                  Some (Inr (Coinbase cb)) \<Rightarrow>
                    bindE (mapE (\<lambda>_. ArithmeticOverflow) (coinbase_credit cb)) (\<lambda>credit.
                      build_ledger_from st hs (ledger_push ledger h (cb_to cb) credit))
                | _ \<Rightarrow> build_ledger_from st hs ledger)))"

definition build_ledger :: "chain_store \<Rightarrow> u64 \<Rightarrow> reject + coinbase_ledger" where
  "build_ledger st at_h =
     (let from_h = saturating_sub at_h (COINBASE_MATURITY - 1)
      in build_ledger_from st (height_range from_h at_h) ledger_new)"

fun replay_blocks ::
  "'vk ed25519 \<Rightarrow> chain_store \<Rightarrow> chain_params \<Rightarrow> (u64 \<Rightarrow> work) \<Rightarrow> reject \<Rightarrow> u64 list \<Rightarrow> overlay \<Rightarrow> commit_block list \<Rightarrow>
   (reject + overlay \<times> commit_block list) option" where
  "replay_blocks ed st params chainwork_at resync [] ov out = Some (Inr (ov, out))"
| "replay_blocks ed st params chainwork_at resync (h # hs) ov out =
     (case st_body_at st h of
        None \<Rightarrow> Some (Inl resync)
      | Some raw \<Rightarrow>
          (case st_header_at st h of
             None \<Rightarrow> Some (Inl resync)
           | Some rec \<Rightarrow>
               (case header_rec_header rec of
                  None \<Rightarrow> None
                | Some hdr \<Rightarrow>
                    bindP (map_option (mapE (BranchInvalid h (hr_hash rec)))
                      (validate_block_body ed (st_account st) ov ledger_new hdr raw params OurStore)) (\<lambda>(v, ov, _).
                    replay_blocks ed st params chainwork_at resync hs ov (out @
                      [\<lparr> ck_header_raw = hr_raw rec, ck_hash = hr_hash rec, ck_height = h, ck_body = raw,
                         ck_deltas = vb_deltas v, ck_undo = vb_undo v, ck_issued_delta = vb_issued_delta v,
                         ck_chainwork = chainwork_at h, ck_txids = vb_txids v \<rparr>])))))"

text \<open>The fallback without undo records.\<close>

definition deep_replay ::
  "'vk ed25519 \<Rightarrow> chain_store \<Rightarrow> overlay \<Rightarrow> u64 \<Rightarrow> chain_params \<Rightarrow> (u64 \<Rightarrow> work) \<Rightarrow>
   ((reject + base \<times> overlay \<times> commit_block list) \<times> condition list) option" where
  "deep_replay ed st ov fork_height params chainwork_at =
     (let resync = RejResyncRequired fork_height (st_replay_floor st) in
      case st_checkpoint_at_or_below st fork_height of
        None \<Rightarrow> Some (Inl resync, [])
      | Some rewind_to \<Rightarrow>
          if rewind_to < st_replay_floor st
          then Some (Inl resync, [CondResyncRequired fork_height (st_replay_floor st)])
          else
            (case st_state_snapshot st rewind_to of
               None \<Rightarrow> Some (Inl resync, [])
             | Some snapshot \<Rightarrow>
                 (case checked_add rewind_to 1 of
                    None \<Rightarrow> None
                  | Some first \<Rightarrow>
                      (case replay_blocks ed st params chainwork_at resync (height_range first fork_height)
                              (ov_seed ov snapshot) [] of
                         None \<Rightarrow> None
                       | Some (Inl e) \<Rightarrow> Some (Inl e, [])
                       | Some (Inr (ov, replayed)) \<Rightarrow>
                           Some (Inr (DeepReplay rewind_to, ov, replayed),
                                 [CondDeepReplay rewind_to fork_height (of_nat (length replayed))])))))"

definition rewind_to_fork ::
  "'vk ed25519 \<Rightarrow> chain_store \<Rightarrow> overlay \<Rightarrow> u64 \<Rightarrow> u64 \<Rightarrow> chain_params \<Rightarrow> (u64 \<Rightarrow> work) \<Rightarrow>
   ((reject + base \<times> overlay \<times> coinbase_ledger \<times> commit_block list) \<times> condition list) option" where
  "rewind_to_fork ed st ov tip_h fork_height params chainwork_at =
     (case checked_add fork_height 1 of
        None \<Rightarrow> None
      | Some first \<Rightarrow>
          let hs = rev (height_range first tip_h) in
          (case (if list_all (\<lambda>h. st_undo_at st h \<noteq> None) hs
                 then map_option (\<lambda>ov. (Inr (UndoWindow, ov, []), [])) (apply_undos st hs ov)
                 else deep_replay ed st ov fork_height params chainwork_at) of
             None \<Rightarrow> None
           | Some (Inl e, conds) \<Rightarrow> Some (Inl e, conds)
           | Some (Inr (base, ov, replayed), conds) \<Rightarrow>
               Some (bindE (build_ledger st fork_height) (\<lambda>ledger. Inr (base, ov, ledger, replayed)), conds)))"

text \<open>The state of the loop of \<open>validate_branch\<close>.\<close>

record branch_acc =
  br_overlay :: overlay
  br_ledger :: coinbase_ledger
  br_out :: "commit_block list"
  br_spent :: "(address \<times> u64) list"
  br_reported :: bool
  br_conds :: "condition list"

fun validate_branch_from ::
  "'vk ed25519 \<Rightarrow> (address \<Rightarrow> account) \<Rightarrow> (nat \<Rightarrow> work) \<Rightarrow> chain_params \<Rightarrow> nat \<Rightarrow> (header_rec \<times> bytes) list \<Rightarrow> branch_acc \<Rightarrow>
   ((reject + branch_acc) \<times> condition list) option" where
  "validate_branch_from ed store base_chainwork_of params i [] acc = Some (Inr acc, br_conds acc)"
| "validate_branch_from ed store base_chainwork_of params i ((rec, raw) # branch) acc =
     (case header_rec_header rec of
        None \<Rightarrow> None
      | Some hdr \<Rightarrow>
          (case validate_block_body ed store (br_overlay acc) (br_ledger acc) hdr raw params Untrusted of
             None \<Rightarrow> None
           | Some (Inl cause) \<Rightarrow>
               Some (Inl (BranchInvalid (hr_height rec) (hr_hash rec) cause),
                     br_conds acc @ [BranchInvalidAt (hr_height rec) (hr_hash rec)])
           | Some (Inr (v, ov, ledger)) \<Rightarrow>
               let report = ov_exhausted ov \<and> \<not> br_reported acc in
               validate_branch_from ed store base_chainwork_of params (i + 1) branch
                 \<lparr> br_overlay = ov, br_ledger = ledger,
                   br_out = br_out acc @
                     [\<lparr> ck_header_raw = hr_raw rec, ck_hash = hr_hash rec, ck_height = hr_height rec, ck_body = raw,
                        ck_deltas = vb_deltas v, ck_undo = vb_undo v, ck_issued_delta = vb_issued_delta v,
                        ck_chainwork = base_chainwork_of i, ck_txids = vb_txids v \<rparr>],
                   br_spent = br_spent acc @ vb_spent_nonces v,
                   br_reported = (br_reported acc \<or> report),
                   br_conds = br_conds acc @ (if report then [ReorgOverlayExhausted (ov_len ov)] else []) \<rparr>))"

definition validate_branch ::
  "'vk ed25519 \<Rightarrow> (address \<Rightarrow> account) \<Rightarrow> overlay \<Rightarrow> coinbase_ledger \<Rightarrow> (header_rec \<times> bytes) list \<Rightarrow> (nat \<Rightarrow> work) \<Rightarrow>
   chain_params \<Rightarrow> ((reject + branch_acc) \<times> condition list) option" where
  "validate_branch ed store ov ledger branch base_chainwork_of params =
     validate_branch_from ed store base_chainwork_of params 0 branch
       \<lparr> br_overlay = ov, br_ledger = ledger, br_out = [], br_spent = [], br_reported = False, br_conds = [] \<rparr>"

section \<open>Rewinding by undo records\<close>

text \<open>\<open>hist h\<close> is the state after the block at height \<open>h\<close>; the stored undo rows lead from each
  state to the one before it.\<close>

definition undo_history :: "chain_store \<Rightarrow> (nat \<Rightarrow> address \<Rightarrow> account) \<Rightarrow> nat \<Rightarrow> nat \<Rightarrow> bool" where
  "undo_history st hist f t \<longleftrightarrow>
     (\<forall>h. f < h \<longrightarrow> h \<le> t \<longrightarrow> (\<exists>us. st_undo_at st (of_nat h) = Some us \<and> write_undo us (hist h) = hist (h - 1)))"

lemma apply_undos_view:
  assumes "undo_history st hist f (f + n)" "ov_view store ov = hist (f + n)"
  shows "\<exists>ov'. apply_undos st (rev (map of_nat [f + 1..<f + n + 1])) ov = Some ov' \<and> ov_view store ov' = hist f"
  using assms
proof (induction n arbitrary: ov)
  case (Suc n)
  have hs: "rev (map of_nat [f + 1..<f + Suc n + 1]) = (of_nat (f + Suc n) :: u64) # rev (map of_nat [f + 1..<f + n + 1])"
    by simp
  obtain us where us: "st_undo_at st (of_nat (f + Suc n)) = Some us" "write_undo us (hist (f + Suc n)) = hist (f + n)"
    using Suc.prems(1) unfolding undo_history_def by (metis add_Suc_right diff_Suc_1 le_add1 less_Suc_eq_le order_refl)
  have "undo_history st hist f (f + n)" using Suc.prems(1) by (simp add: undo_history_def)
  moreover have "ov_view store (ov_apply_undo ov us) = hist (f + n)" using us(2) Suc.prems(2) by (simp add: ov_apply_undo_view)
  ultimately show ?case using Suc.IH [of "ov_apply_undo ov us"] us(1) unfolding hs by simp
qed simp

lemma rewind_by_undo:
  assumes "undo_history st hist (unat f) (unat t)" "f \<le> t" "t \<noteq> - 1" "ov_view (st_account st) ov = hist (unat t)"
  shows "\<exists>ov'. rewind_to_fork ed st ov t f params cw =
      Some (bindE (build_ledger st f) (\<lambda>ledger. Inr (UndoWindow, ov', ledger, [])), []) \<and>
    ov_view (st_account st) ov' = hist (unat f)"
proof -
  let ?hs = "rev (height_range (f + 1) t)"
  have le: "unat f \<le> unat t" "unat t < 2 ^ 64 - 1"
    using assms(2, 3) unat_u64_lt [of t] by (auto simp: word_le_nat_alt word_unat_eq_iff unat_max_word)
  then have c: "checked_add f 1 = Some (f + 1)" "unat (f + 1) = unat f + 1"
    using checked_add_unat [of f 1 "f + 1"] unat_add_no_overflow [of f 1] by auto
  obtain n where n: "unat t = unat f + n" using le(1) le_Suc_ex by blast
  have hs: "?hs = rev (map of_nat [unat f + 1..<unat f + n + 1])" by (simp add: height_range_def c(2) n)
  have "st_undo_at st h \<noteq> None" if "h \<in> set ?hs" for h
  proof -
    have "h \<in> of_nat ` {unat f + 1..<unat f + n + 1}" using that unfolding hs by (simp only: set_rev set_map set_upt)
    then obtain m where "h = of_nat m" "unat f < m" "m \<le> unat t" using n by auto
    then show ?thesis using assms(1) unfolding undo_history_def by (metis option.distinct(1))
  qed
  then have "list_all (\<lambda>h. st_undo_at st h \<noteq> None) ?hs" by (simp add: list_all_iff)
  moreover obtain ov' where "apply_undos st ?hs ov = Some ov'" "ov_view (st_account st) ov' = hist (unat f)"
    using apply_undos_view [of st hist "unat f" n "st_account st" ov] assms(1, 4) n hs by auto
  ultimately show ?thesis by (intro exI [of _ ov']) (simp add: rewind_to_fork_def c(1))
qed

section \<open>Branches\<close>

definition block_addrs :: "commit_block \<Rightarrow> address set" where
  "block_addrs c = sd_addr ` set (ck_deltas c)"

text \<open>A block takes one state to another and back, and creates its reward.\<close>

definition block_step :: "commit_block \<Rightarrow> (address \<Rightarrow> account) \<Rightarrow> (address \<Rightarrow> account) \<Rightarrow> bool" where
  "block_step c s t \<longleftrightarrow> write_deltas (ck_deltas c) s = t \<and> write_undo (ck_undo c) t = s \<and>
     (\<forall>S. finite S \<longrightarrow> block_addrs c \<subseteq> S \<longrightarrow> total_balance S t = total_balance S s + unat (ck_issued_delta c))"

fun branch_steps :: "commit_block list \<Rightarrow> (address \<Rightarrow> account) \<Rightarrow> (address \<Rightarrow> account) \<Rightarrow> bool" where
  "branch_steps [] s t \<longleftrightarrow> s = t"
| "branch_steps (c # cs) s t \<longleftrightarrow> block_step c s (write_deltas (ck_deltas c) s) \<and> branch_steps cs (write_deltas (ck_deltas c) s) t"

definition commit_all :: "commit_block list \<Rightarrow> (address \<Rightarrow> account) \<Rightarrow> address \<Rightarrow> account" where
  "commit_all cs s = fold (\<lambda>c. write_deltas (ck_deltas c)) cs s"

lemma branch_steps_commit: "branch_steps cs s t \<Longrightarrow> commit_all cs s = t"
  by (induction cs arbitrary: s) (auto simp: commit_all_def)

lemma branch_steps_undo:
  "branch_steps cs s t \<Longrightarrow> i < length cs \<Longrightarrow>
   write_undo (ck_undo (cs ! i)) (commit_all (take (Suc i) cs) s) = commit_all (take i cs) s"
proof (induction cs arbitrary: s i)
  case (Cons c cs)
  show ?case
  proof (cases i)
    case 0
    then show ?thesis using Cons.prems by (simp add: block_step_def commit_all_def)
  next
    case (Suc j)
    then show ?thesis using Cons.IH [of "write_deltas (ck_deltas c) s" j] Cons.prems by (simp add: commit_all_def)
  qed
qed simp

lemma branch_steps_money:
  "branch_steps cs s t \<Longrightarrow> finite S \<Longrightarrow> (\<Union>c \<in> set cs. block_addrs c) \<subseteq> S \<Longrightarrow>
   total_balance S t = total_balance S s + sum_list (map (unat \<circ> ck_issued_delta) cs)"
  by (induction cs arbitrary: s) (auto simp: block_step_def)

lemma valid_block_steps:
  assumes "validate_block_body ed store ov l header raw params trust = Some (Inr (vb, ov', l'))"
    "ck_deltas c = vb_deltas vb" "ck_undo c = vb_undo vb" "ck_issued_delta c = vb_issued_delta vb"
  shows "block_step c (ov_view store ov) (ov_view store ov')"
proof (rule validate_block_body_ok [OF assms(1)])
  fix acc :: block_acc
  assume ok: "block_ok store (ov_view store ov) l' (hdr_height header) (covered l (hdr_height header) (ov_view store ov))
       (unat (block_reward (hdr_height header))) 0 (ba_overlay acc) (ba_spent acc)"
    and vb: "vb_undo vb = ov_undo_records (ba_overlay acc)" "vb_deltas vb = fst (ov_deltas store (ba_overlay acc))"
      "ov_view store ov' = ov_view store (ba_overlay acc)" "vb_issued_delta vb = block_reward (hdr_height header)"
  have u: "undo_inv store (ov_view store ov) (ba_overlay acc)" using ok by (simp add: block_ok_def conserved_def)
  have "block_addrs c = set (ov_order (ba_overlay acc))"
    using assms(2) vb(2) by (simp add: block_addrs_def ov_deltas_def ov_deltas_of_view image_image)
  then show ?thesis
    using deltas_produce [OF u] undo_restores [OF u] vb assms ok
    by (simp add: block_step_def block_ok_def conserved_def)
qed

lemma validate_branch_from_ok:
  assumes "validate_branch_from ed store cw params i branch acc = Some (Inr acc', conds)"
  shows "\<exists>cs. br_out acc' = br_out acc @ cs \<and> map ck_hash cs = map (hr_hash \<circ> fst) branch \<and>
    map ck_height cs = map (hr_height \<circ> fst) branch \<and> map ck_body cs = map snd branch \<and>
    map ck_chainwork cs = map cw [i..<i + length branch] \<and>
    branch_steps cs (ov_view store (br_overlay acc)) (ov_view store (br_overlay acc'))"
  using assms
proof (induction branch arbitrary: i acc)
  case Nil
  then show ?case by simp
next
  case (Cons b branch)
  obtain rec raw where b: "b = (rec, raw)" by (cases b)
  obtain hdr where hdr: "header_rec_header rec = Some hdr" using Cons.prems b by (auto split: option.splits)
  obtain v ov ledger where v: "validate_block_body ed store (br_overlay acc) (br_ledger acc) hdr raw params Untrusted =
      Some (Inr (v, ov, ledger))"
    using Cons.prems b hdr by (auto split: option.splits sum.splits)
  define c where "c = \<lparr> ck_header_raw = hr_raw rec, ck_hash = hr_hash rec, ck_height = hr_height rec, ck_body = raw,
     ck_deltas = vb_deltas v, ck_undo = vb_undo v, ck_issued_delta = vb_issued_delta v,
     ck_chainwork = cw i, ck_txids = vb_txids v \<rparr>"
  obtain spent rep conds1 where step: "validate_branch_from ed store cw params (i + 1) branch
      \<lparr> br_overlay = ov, br_ledger = ledger, br_out = br_out acc @ [c], br_spent = spent, br_reported = rep, br_conds = conds1 \<rparr> =
      Some (Inr acc', conds)"
    using Cons.prems b hdr v by (auto simp: Let_def c_def)
  from Cons.IH [OF step] obtain cs where cs: "br_out acc' = (br_out acc @ [c]) @ cs" "map ck_hash cs = map (hr_hash \<circ> fst) branch"
    "map ck_height cs = map (hr_height \<circ> fst) branch" "map ck_body cs = map snd branch"
    "map ck_chainwork cs = map cw [i + 1..<i + 1 + length branch]"
    "branch_steps cs (ov_view store ov) (ov_view store (br_overlay acc'))" by auto
  have "block_step c (ov_view store (br_overlay acc)) (ov_view store ov)"
    by (rule valid_block_steps [OF v]) (simp_all add: c_def)
  moreover from this have "write_deltas (ck_deltas c) (ov_view store (br_overlay acc)) = ov_view store ov"
    by (simp add: block_step_def)
  ultimately have "branch_steps (c # cs) (ov_view store (br_overlay acc)) (ov_view store (br_overlay acc'))"
    using cs(6) by simp
  moreover have "map ck_chainwork (c # cs) = map cw [i..<i + length (b # branch)]"
    using cs(5) by (simp add: c_def upt_conv_Cons del: upt_Suc)
  ultimately show ?case using cs b by (intro exI [of _ "c # cs"]) (simp add: c_def)
qed

section \<open>The window of immature rewards\<close>

text \<open>The coinbase stored at a height, if there is one.\<close>

definition coinbase_at :: "chain_store \<Rightarrow> u64 \<Rightarrow> coinbase_tx option" where
  "coinbase_at st h =
     (case st_body_at st h of
        None \<Rightarrow> None
      | Some raw \<Rightarrow>
          (case body_parse raw of
             Inl _ \<Rightarrow> None
           | Inr body \<Rightarrow> (case body_decode_tx body 0 of Some (Inr (Coinbase cb)) \<Rightarrow> Some cb | _ \<Rightarrow> None)))"

lemma build_ledger_Cons:
  "build_ledger_from st (h # hs) l =
     (case coinbase_at st h of
        None \<Rightarrow> build_ledger_from st hs l
      | Some cb \<Rightarrow> bindE (mapE (\<lambda>_. ArithmeticOverflow) (coinbase_credit cb)) (\<lambda>credit.
          build_ledger_from st hs (l @ [(h, cb_to cb, credit)])))"
  by (simp add: coinbase_at_def ledger_push_def split: option.split sum.split tx.split)

declare build_ledger_from.simps(2) [simp del]

lemma build_ledger_append:
  "build_ledger_from st (hs @ ks) l = bindE (build_ledger_from st hs l) (build_ledger_from st ks)"
proof (induction hs arbitrary: l)
  case (Cons h hs)
  then show ?case
    by (cases "coinbase_at st h"; cases "coinbase_credit (the (coinbase_at st h))") (simp_all add: build_ledger_Cons)
qed simp

lemma build_ledger_shift:
  "build_ledger_from st hs l = bindE (build_ledger_from st hs []) (\<lambda>r. Inr (l @ r))"
proof (induction hs arbitrary: l)
  case (Cons h hs)
  show ?case
  proof (cases "coinbase_at st h")
    case None
    then show ?thesis using Cons.IH [of l] by (simp add: build_ledger_Cons)
  next
    case (Some cb)
    show ?thesis
    proof (cases "coinbase_credit cb")
      case (Inr c)
      have "build_ledger_from st hs (l @ [(h, cb_to cb, c)]) =
          bindE (build_ledger_from st hs [(h, cb_to cb, c)]) (\<lambda>r. Inr (l @ r))"
        unfolding Cons.IH [of "l @ [(h, cb_to cb, c)]"] Cons.IH [of "[(h, cb_to cb, c)]"]
        by (cases "build_ledger_from st hs []") simp_all
      then show ?thesis using Some Inr by (simp add: build_ledger_Cons)
    qed (simp add: build_ledger_Cons Some)
  qed
qed simp

lemma build_ledger_heights:
  "build_ledger_from st hs l = Inr r \<Longrightarrow> fst ` set r \<subseteq> fst ` set l \<union> set hs"
proof (induction hs arbitrary: l)
  case (Cons h hs)
  show ?case
  proof (cases "coinbase_at st h")
    case None
    then show ?thesis using Cons by (auto simp: build_ledger_Cons)
  next
    case (Some cb)
    then obtain c where "build_ledger_from st hs (l @ [(h, cb_to cb, c)]) = Inr r"
      using Cons.prems by (auto simp: build_ledger_Cons result_simps)
    from Cons.IH [OF this] show ?thesis by auto
  qed
qed simp

lemma immature_append_mature:
  assumes "\<forall>e \<in> set l. mature (fst e) h"
  shows "immature_at (l @ w) a h = immature_at w a h"
proof -
  have "filter (\<lambda>(k, b, _). b = a \<and> \<not> mature k h) l = []" using assms by (auto simp: filter_empty_conv)
  then show ?thesis by (simp add: immature_at_def)
qed

lemma height_range_split:
  assumes "unat m \<le> unat t + 1"
  shows "height_range 0 t = map of_nat [0..<unat m] @ height_range m t"
  using upt_add_eq_append [of 0 "unat m" "unat t + 1 - unat m"] assms
  by (simp add: height_range_def flip: map_append)

section \<open>The snapshot fallback\<close>

lemma ov_seed_view: "a \<notin> fst ` set rows \<Longrightarrow> ov_view store (ov_seed ov rows) a = store a"
proof -
  assume a: "a \<notin> fst ` set rows"
  have "fmlookup (fold (\<lambda>(b, x) m. fmupd b x m) rows m) a = fmlookup m a" for m
    using a by (induction rows arbitrary: m) (auto simp: split_beta)
  then show ?thesis by (simp add: ov_seed_def ov_view_def)
qed

text \<open>
  The snapshot holds the accounts that existed at its height; an address without a row is read
  through to the store, which answers for the tip.  An account that the abandoned branch created
  keeps its balance of the tip in the rewound state.
\<close>
lemma deep_replay_reads_tip_accounts:
  assumes "st_checkpoint_at_or_below st f = Some f" "st_replay_floor st \<le> f" "f \<noteq> - 1"
    "st_state_snapshot st f = Some rows" "a \<notin> fst ` set rows"
  shows "\<exists>ov'. deep_replay ed st ov f params cw = Some (Inr (DeepReplay f, ov', []), [CondDeepReplay f f 0]) \<and>
    ov_view (st_account st) ov' a = st_account st a"
proof -
  have "unat f \<noteq> 2 ^ 64 - 1" using assms(3) by (auto simp: word_unat_eq_iff unat_max_word)
  then have "unat f < 2 ^ 64 - 1" using unat_u64_lt [of f] by simp
  then have c: "checked_add f 1 = Some (f + 1)" "unat (f + 1) = unat f + 1"
    using checked_add_unat [of f 1 "f + 1"] unat_add_no_overflow [of f 1] by auto
  then have "height_range (f + 1) f = []" by (simp add: height_range_def)
  then show ?thesis using assms c(1) ov_seed_view [OF assms(5)] by (simp add: deep_replay_def Let_def linorder_not_less)
qed

section \<open>A one-block branch\<close>

lemma length_merkle_reduce: "list_all (\<lambda>x. length x = 32) level \<Longrightarrow> level \<noteq> [] \<Longrightarrow> length (merkle_reduce level) = 32"
proof (induction level rule: merkle_reduce.induct)
  case (1 level)
  show ?case
  proof (cases "1 < length level")
    case True
    then have "merkle_level level \<noteq> []" by (cases level; cases "tl level") auto
    then show ?thesis using 1 True merkle_level_32 by (subst merkle_reduce.simps) simp
  next
    case False
    then show ?thesis using 1 by (subst merkle_reduce.simps) (cases level; simp)
  qed
qed

lemma length_merkle_root: "list_all (\<lambda>x. length x = 32) leaves \<Longrightarrow> length (merkle_root leaves) = 32"
  by (auto simp: merkle_root_def length_merkle_reduce TX_ROOT_EMPTY_def)

definition sample_branch_rec :: header_rec where
  "sample_branch_rec = \<lparr> hr_height = 1, hr_hash = replicate 32 1, hr_prev_hash = replicate 32 0, hr_time = 0, hr_bits = 0,
     hr_raw = header_encode sample_block_header \<rparr>"

lemma sample_branch_header: "header_rec_header sample_branch_rec = Some sample_block_header"
proof -
  have "list_all (\<lambda>x. length x = 32) (body_leaves sample_body)" by (simp add: body_leaves_def list_all_iff)
  then have "wf_header sample_block_header"
    by (simp add: wf_header_def sample_block_header_def body_tx_root_def length_merkle_root)
  then show ?thesis by (simp add: header_rec_header_def sample_branch_rec_def header_decode_encode)
qed

lemma sample_branch:
  "\<exists>raw acc conds. validate_branch sample_ed sample_store (ov_new 10) [] [(sample_branch_rec, raw)] (\<lambda>_. work_ZERO)
     chain_params_default = Some (Inr acc, conds)"
proof -
  obtain raw v ov l where "validate_block_body sample_ed sample_store (ov_new 10) [] sample_block_header raw
      chain_params_default Untrusted = Some (Inr (v, ov, l))" using sample_valid by (metis prod.exhaust)
  then show ?thesis by (intro exI [of _ raw]) (simp add: validate_branch_def sample_branch_header Let_def)
qed

definition empty_store :: chain_store where
  "empty_store =
     \<lparr> st_tip = \<lparr> tip_height = 0, tip_hash_of = [], tip_time = 0, tip_chainwork = work_ZERO \<rparr>, st_header_at = (\<lambda>_. None),
       st_header_by_hash = (\<lambda>_. None), st_body_at = (\<lambda>_. None), st_body_by_hash = (\<lambda>_. None),
       st_account = (\<lambda>_. account_default), st_undo_at = (\<lambda>_. None), st_replay_floor = 0,
       st_checkpoint_at_or_below = (\<lambda>_. None), st_state_snapshot = (\<lambda>_. None), st_is_invalid = (\<lambda>_. False),
       st_headers_range = (\<lambda>_ _. []), st_side_headers_from = (\<lambda>_ _. []) \<rparr>"

lemma sample_coinbase_at:
  "\<exists>raw. \<forall>h. coinbase_at (empty_store \<lparr> st_body_at := (\<lambda>h. if h = 1 then Some raw else None) \<rparr>) h =
     (if h = 1 then Some sample_coinbase else None)"
proof -
  obtain raw where chk: "check_body sample_ed sample_block_header raw chain_params_default Untrusted =
    Inr (sample_body, [Coinbase sample_coinbase, Transfer sample_transfer], sample_coinbase, 200001)"
    using sample_check .
  then have p: "body_parse raw = Inr sample_body"
    and d: "decode_body sample_body = Inr [Coinbase sample_coinbase, Transfer sample_transfer]"
    by (auto simp: check_body_def result_simps split: if_splits)
  have "list_all2 (\<lambda>raw tx. decode_tx raw = Inr tx) (body_txs sample_body) [Coinbase sample_coinbase, Transfer sample_transfer]"
    using d by (simp add: decode_body_Inr)
  then have "decode_tx (body_txs sample_body ! 0) = Inr (Coinbase sample_coinbase)" "0 < body_len sample_body"
    using list_all2_lengthD [of _ "body_txs sample_body"] by (auto simp: list_all2_conv_all_nth)
  then have "body_decode_tx sample_body 0 = Some (Inr (Coinbase sample_coinbase))"
    by (simp add: body_decode_tx_def tx_bytes_body_txs)
  then show ?thesis using p by (intro exI [of _ raw]) (simp add: coinbase_at_def)
qed

section \<open>Properties\<close>

lemma validate_branch_ok:
  assumes "validate_branch ed store ov ledger branch cw params = Some (Inr acc, conds)"
  shows "map ck_hash (br_out acc) = map (hr_hash \<circ> fst) branch" "map ck_height (br_out acc) = map (hr_height \<circ> fst) branch"
    "map ck_chainwork (br_out acc) = map cw [0..<length branch]"
    "branch_steps (br_out acc) (ov_view store ov) (ov_view store (br_overlay acc))"
  using validate_branch_from_ok [OF assms [unfolded validate_branch_def]] by auto

text \<open>
  C37.  The blocks of a validated branch, one per header and in its order, conserve money: over any
  finite set of addresses that contains all addresses they write, the balances after the branch
  are the balances at the fork and the sum of the issued rewards; and writing their deltas in order
  over the state at the fork gives the state after the branch.
\<close>
theorem branch_conserves_money:
  assumes "validate_branch ed store ov ledger branch cw params = Some (Inr acc, conds)"
    "finite S" "\<forall>c \<in> set (br_out acc). \<forall>d \<in> set (ck_deltas c). sd_addr d \<in> S"
  shows "map ck_hash (br_out acc) = map (hr_hash \<circ> fst) branch \<and>
    commit_all (br_out acc) (ov_view store ov) = ov_view store (br_overlay acc) \<and>
    total_balance S (commit_all (br_out acc) (ov_view store ov)) =
      total_balance S (ov_view store ov) + sum_list (map (unat \<circ> ck_issued_delta) (br_out acc))"
proof -
  note ok = validate_branch_ok [OF assms(1)]
  have "(\<Union>c \<in> set (br_out acc). block_addrs c) \<subseteq> S" using assms(3) by (auto simp: block_addrs_def)
  from branch_steps_money [OF ok(4) assms(2) this] show ?thesis using ok(1) branch_steps_commit [OF ok(4)] by simp
qed

theorem branch_conserves_money_witness:
  "\<exists>raw acc conds. validate_branch sample_ed sample_store (ov_new 10) [] [(sample_branch_rec, raw)] (\<lambda>_. work_ZERO)
       chain_params_default = Some (Inr acc, conds) \<and>
     commit_all (br_out acc) (ov_view sample_store (ov_new 10)) = ov_view sample_store (br_overlay acc)"
proof -
  obtain raw acc conds where v: "validate_branch sample_ed sample_store (ov_new 10) [] [(sample_branch_rec, raw)]
      (\<lambda>_. work_ZERO) chain_params_default = Some (Inr acc, conds)" using sample_branch by blast
  let ?S = "\<Union>c \<in> set (br_out acc). sd_addr ` set (ck_deltas c)"
  have "finite ?S" "\<forall>c \<in> set (br_out acc). \<forall>d \<in> set (ck_deltas c). sd_addr d \<in> ?S" by auto
  from branch_conserves_money [OF v this] v show ?thesis by blast
qed

text \<open>
  C38.  Committing a branch and rewinding it is a round trip.  Let a store hold the accounts after a
  validated branch and, at the heights above the fork, the undo rows of its blocks.  Rewinding that
  store from the new tip to the fork uses the undo window, reports nothing, and gives exactly the
  state at the fork; only rebuilding the reward ledger can still fail.
\<close>
theorem branch_rewind_round_trip:
  assumes "validate_branch ed store ov ledger branch cw params = Some (Inr acc, conds)"
    and "st_account st = commit_all (br_out acc) (ov_view store ov)"
    and "\<forall>i < length branch. st_undo_at st (of_nat (unat f + 1 + i)) = Some (ck_undo (br_out acc ! i))"
    and "unat f + length branch < 2 ^ 64 - 1"
  shows "\<exists>ov'. rewind_to_fork ed st (ov_new n) (of_nat (unat f + length branch)) f params cw' =
      Some (bindE (build_ledger st f) (\<lambda>l. Inr (UndoWindow, ov', l, [])), []) \<and>
    ov_view (st_account st) ov' = ov_view store ov"
proof -
  let ?cs = "br_out acc" and ?t = "of_nat (unat f + length branch) :: u64"
  define hist where "hist = (\<lambda>h. commit_all (take (h - unat f) ?cs) (ov_view store ov))"
  note ok = validate_branch_ok [OF assms(1)]
  have len: "length ?cs = length branch" using arg_cong [OF ok(1), of length] by simp
  have t: "unat ?t = unat f + length branch" by (rule unat_of_nat_small) (use assms(4) in simp)
  have "undo_history st hist (unat f) (unat ?t)"
    unfolding undo_history_def
  proof (intro allI impI)
    fix h assume "unat f < h" "h \<le> unat ?t"
    then obtain i where i: "h = unat f + 1 + i" "i < length branch" using t by (metis add.assoc add.commute add_less_cancel_left le_Suc_ex less_iff_Suc_add plus_1_eq_Suc Suc_le_eq)
    have "write_undo (ck_undo (?cs ! i)) (hist h) = hist (h - 1)"
      using branch_steps_undo [OF ok(4), of i] i len by (simp add: hist_def Suc_diff_le)
    then show "\<exists>us. st_undo_at st (of_nat h) = Some us \<and> write_undo us (hist h) = hist (h - 1)"
      using assms(3) i by auto
  qed
  moreover have "f \<le> ?t" using t by (simp add: word_le_nat_alt)
  moreover have "?t \<noteq> - 1" using t assms(4) by (auto simp: word_unat_eq_iff unat_max_word)
  moreover have "ov_view (st_account st) (ov_new n) = hist (unat ?t)"
    using assms(2) t len by (simp add: hist_def ov_view_def ov_new_def fun_eq_iff)
  moreover have "hist (unat f) = ov_view store ov" by (simp add: hist_def commit_all_def)
  ultimately show ?thesis using rewind_by_undo [of st hist f ?t "ov_new n" ed params cw'] by simp
qed

theorem branch_rewind_round_trip_witness:
  "\<exists>raw acc conds st ov' r. validate_branch sample_ed sample_store (ov_new 10) [] [(sample_branch_rec, raw)] (\<lambda>_. work_ZERO)
       chain_params_default = Some (Inr acc, conds) \<and>
     rewind_to_fork sample_ed st (ov_new 10) 1 0 chain_params_default (\<lambda>_. work_ZERO) = Some (r, []) \<and>
     ov_view (st_account st) ov' = ov_view sample_store (ov_new 10)"
proof -
  obtain raw acc conds where v: "validate_branch sample_ed sample_store (ov_new 10) [] [(sample_branch_rec, raw)]
      (\<lambda>_. work_ZERO) chain_params_default = Some (Inr acc, conds)" using sample_branch by blast
  define st where "st = empty_store \<lparr> st_account := commit_all (br_out acc) (ov_view sample_store (ov_new 10)),
    st_undo_at := (\<lambda>h. if h = 1 then Some (ck_undo (br_out acc ! 0)) else None) \<rparr>"
  have "\<forall>i < length [(sample_branch_rec, raw)]. st_undo_at st (of_nat (unat (0 :: u64) + 1 + i)) = Some (ck_undo (br_out acc ! i))"
    "st_account st = commit_all (br_out acc) (ov_view sample_store (ov_new 10))" by (simp_all add: st_def)
  from branch_rewind_round_trip [OF v this(2, 1), of 10 "\<lambda>_. work_ZERO"] v show ?thesis by auto
qed

text \<open>
  C39.  The maturity window is enough: the ledger rebuilt from the last blocks up to a height gives
  every address the same immature amount, at every later spending height, as a ledger built from
  all blocks since genesis.
\<close>
theorem ledger_window_suffices:
  assumes "build_ledger_from st (height_range 0 t) ledger_new = Inr full"
  shows "\<exists>w. build_ledger st t = Inr w \<and> (\<forall>a h. t < h \<longrightarrow> immature_at w a h = immature_at full a h)"
proof -
  let ?m = "saturating_sub t (COINBASE_MATURITY - 1)"
  have m: "unat ?m = unat t - 59" by (simp add: unat_saturating_sub)
  then have "height_range 0 t = map of_nat [0..<unat ?m] @ height_range ?m t" by (intro height_range_split) simp
  with assms obtain old where old: "build_ledger_from st (map of_nat [0..<unat ?m]) [] = Inr old"
    and rest: "build_ledger_from st (height_range ?m t) old = Inr full"
    by (auto simp: build_ledger_append ledger_new_def result_simps)
  have "bindE (build_ledger_from st (height_range ?m t) []) (\<lambda>r. Inr (old @ r)) = Inr full"
    using rest build_ledger_shift [of st "height_range ?m t" old] by (rule trans [OF sym, rotated])
  then obtain w where w: "build_ledger_from st (height_range ?m t) [] = Inr w" "full = old @ w"
    unfolding bindE_def by (cases "build_ledger_from st (height_range ?m t) []") auto
  have "mature (fst e) h" if "e \<in> set old" "t < h" for e h
  proof -
    have "fst e \<in> set (map of_nat [0..<unat ?m])" using build_ledger_heights [OF old] that(1) by auto
    then obtain k where k: "fst e = of_nat k" "k < unat ?m" by auto
    moreover have "k < 2 ^ 64" using k(2) unat_u64_lt [of ?m] by simp
    ultimately have "unat (fst e) = k" by (simp add: unat_of_nat_small)
    then show ?thesis using k(2) that(2) m by (simp add: mature_iff word_less_nat_alt)
  qed
  then have "immature_at full a h = immature_at w a h" if "t < h" for a h
    unfolding w(2) by (intro immature_append_mature) (use that in auto)
  then show ?thesis using w(1) by (auto simp: build_ledger_def ledger_new_def)
qed

theorem ledger_window_suffices_witness:
  "\<exists>st w. coinbase_at st 1 = Some sample_coinbase \<and> build_ledger st 1 = Inr w \<and>
     immature_at w sample_src 2 = immature_at [(1, sample_src, 200001)] sample_src 2"
proof -
  obtain raw where raw: "\<And>h. coinbase_at (empty_store \<lparr> st_body_at := (\<lambda>h. if h = 1 then Some raw else None) \<rparr>) h =
     (if h = 1 then Some sample_coinbase else None)" (is "\<And>h. coinbase_at ?st h = _") using sample_coinbase_at by blast
  have "coinbase_credit sample_coinbase = Inr 200001" by (simp add: coinbase_credit_Inr sample_coinbase_def)
  then have "build_ledger_from ?st (height_range 0 1) ledger_new = Inr [(1, sample_src, 200001)]"
    by (simp add: height_range_def upt_rec build_ledger_Cons raw ledger_new_def sample_coinbase_def)
  from ledger_window_suffices [OF this] raw [of 1] show ?thesis by auto
qed

end
