(* ===== verification/Checkpoints.thy ===== *)
theory Checkpoints
  imports Branch "HOL-Library.Product_Lexorder"
begin

text \<open>
  The checkpoints a node enforces and the recovery anchor it holds:
  \<open>lib/chain/src/checkpoints.rs\<close>.  Reported conditions are returned as a list; the outer
  option is a panic of the chain view.
\<close>

section \<open>Operations\<close>

datatype checkpoint_outcome =
    CkUnverified | CkGenesisImmutable | CkNotHeldYet | CkAdmitted | CkStoredAsAnchor | CkAnchorNotSuperseded

record checkpoint_report =
  cr_outcome :: checkpoint_outcome
  cr_anchor_advanced :: bool

record checkpoints =
  cps_enforced :: "(u64 \<times> hash32) list"
  cps_anchor :: "anchor option"
  cps_anchor_record :: "signed_checkpoint option"

definition cps_new :: checkpoints where
  "cps_new = \<lparr> cps_enforced = [], cps_anchor = None, cps_anchor_record = None \<rparr>"

definition install_anchor :: "checkpoints \<Rightarrow> signed_checkpoint \<Rightarrow> bool \<times> checkpoints" where
  "install_anchor cps cp =
     (let cand = \<lparr> anchor_height = ckp_height cp, anchor_hash = ckp_hash cp \<rparr> in
      if anchor_supersedes (cps_anchor cps) cand
      then (True, cps \<lparr> cps_anchor := Some cand, cps_anchor_record := Some cp \<rparr>)
      else (False, cps))"

definition load_anchor :: "'vk ed25519 \<Rightarrow> chain_params \<Rightarrow> checkpoints \<Rightarrow> signed_checkpoint \<Rightarrow> bool \<times> checkpoints" where
  "load_anchor ed params cps cp =
     (if \<not> verify_checkpoint ed cp (cp_authority_keys params) (cp_checkpoint_threshold params) then (False, cps)
      else install_anchor cps cp)"

definition anchor_report :: "checkpoint_outcome \<Rightarrow> bool \<times> checkpoints \<Rightarrow> checkpoint_report \<times> checkpoints" where
  "anchor_report outcome r =
     (if fst r then (\<lparr> cr_outcome = outcome, cr_anchor_advanced = True \<rparr>, snd r)
      else (\<lparr> cr_outcome = CkAnchorNotSuperseded, cr_anchor_advanced = False \<rparr>, snd r))"

definition cps_submit ::
  "'vk ed25519 \<Rightarrow> chain_params \<Rightarrow> chain_view \<Rightarrow> checkpoints \<Rightarrow> signed_checkpoint \<Rightarrow>
   (checkpoint_report \<times> checkpoints \<times> condition list) option" where
  "cps_submit ed params view cps cp =
     (if \<not> verify_checkpoint ed cp (cp_authority_keys params) (cp_checkpoint_threshold params)
      then Some (\<lparr> cr_outcome = CkUnverified, cr_anchor_advanced = False \<rparr>, cps, [])
      else case checkpoint_admission_for view (ckp_height cp) (ckp_hash cp) of
        None \<Rightarrow> None
      | Some GenesisImmutable \<Rightarrow> Some (\<lparr> cr_outcome = CkGenesisImmutable, cr_anchor_advanced = False \<rparr>, cps, [])
      | Some NotHeldYet \<Rightarrow> (let (r, cps) = anchor_report CkNotHeldYet (install_anchor cps cp) in Some (r, cps, []))
      | Some Admit \<Rightarrow>
          (let enforced = cps_enforced cps;
               enforced = (if list_ex (\<lambda>(h, _). h = ckp_height cp) enforced then enforced
                           else sort (enforced @ [(ckp_height cp, ckp_hash cp)]));
               (advanced, cps) = install_anchor (cps \<lparr> cps_enforced := enforced \<rparr>) cp
           in Some (\<lparr> cr_outcome = CkAdmitted, cr_anchor_advanced = advanced \<rparr>, cps, []))
      | Some HashConflict \<Rightarrow>
          (let (r, cps) = anchor_report CkStoredAsAnchor (install_anchor cps cp)
           in Some (r, cps, [AnchorContradiction (ckp_height cp) (ckp_hash cp)])))"

section \<open>The invariant\<close>

definition view_hash :: "chain_view \<Rightarrow> u64 \<Rightarrow> hash32 option" where
  "view_hash v h = map_option hi_hash (cv_header_at v h)"

definition enforced_ok :: "chain_view \<Rightarrow> (u64 \<times> hash32) list \<Rightarrow> bool" where
  "enforced_ok v cps \<longleftrightarrow> sorted cps \<and> distinct (map fst cps) \<and>
     (\<forall>(h, c) \<in> set cps. 0 < h \<and> h < cv_len v \<and> view_hash v h = Some c)"

definition anchor_ok :: "checkpoints \<Rightarrow> bool" where
  "anchor_ok cps \<longleftrightarrow>
     (case cps_anchor cps of
        None \<Rightarrow> cps_anchor_record cps = None
      | Some a \<Rightarrow> (\<exists>cp. cps_anchor_record cps = Some cp \<and> ckp_height cp = anchor_height a \<and> ckp_hash cp = anchor_hash a) \<and>
          anchor_height a \<noteq> 0 \<and> anchor_hash a \<noteq> ZERO_HASH)"

text \<open>How the anchor may move.\<close>

definition anchor_moves :: "checkpoints \<Rightarrow> checkpoints \<Rightarrow> bool \<Rightarrow> bool" where
  "anchor_moves cps cps' advanced \<longleftrightarrow>
     (if advanced
      then \<exists>a. cps_anchor cps' = Some a \<and> (\<forall>b. cps_anchor cps = Some b \<longrightarrow> anchor_height b < anchor_height a)
      else cps_anchor cps' = cps_anchor cps \<and> cps_anchor_record cps' = cps_anchor_record cps)"

lemma install_anchor_facts:
  assumes "install_anchor cps cp = (adv, cps')"
  shows "cps_enforced cps' = cps_enforced cps" "anchor_moves cps cps' adv" "anchor_ok cps \<Longrightarrow> anchor_ok cps'"
  using assms
  by (auto simp: install_anchor_def anchor_supersedes_def anchor_moves_def anchor_ok_def Let_def split: if_splits option.splits)

lemma anchor_enforced_update [simp]:
  "anchor_ok (cps \<lparr> cps_enforced := e \<rparr>) = anchor_ok cps"
  "anchor_moves (cps \<lparr> cps_enforced := e \<rparr>) cps' adv = anchor_moves cps cps' adv"
  by (simp_all add: anchor_ok_def anchor_moves_def split: option.split)

lemma admit_enforced:
  assumes "enforced_ok v cps" "h < cv_len v" "0 < h" "view_hash v h = Some c"
  shows "enforced_ok v (if list_ex (\<lambda>(k, _). k = h) cps then cps else sort (cps @ [(h, c)]))"
proof (cases "list_ex (\<lambda>(k, _). k = h) cps")
  case True
  then show ?thesis using assms by simp
next
  case False
  then have new: "h \<notin> fst ` set cps" by (auto simp: list_ex_iff)
  have "distinct (map fst (cps @ [(h, c)]))" using assms(1) new by (simp add: enforced_ok_def)
  then have "distinct (map fst (sort (cps @ [(h, c)])))"
    using new by (auto simp: distinct_map intro: rev_image_eqI)
  then show ?thesis using assms False by (auto simp: enforced_ok_def)
qed

text \<open>What a submission can do: nothing, move the anchor, or add an admitted height as well.\<close>

lemma cps_submit_cases:
  assumes "cps_submit ed params v cps cp = Some (r, cps', conds)"
  obtains "cps' = cps" "\<not> cr_anchor_advanced r"
  | "verify_checkpoint ed cp (cp_authority_keys params) (cp_checkpoint_threshold params)"
      "install_anchor cps cp = (cr_anchor_advanced r, cps')"
  | enforced where "verify_checkpoint ed cp (cp_authority_keys params) (cp_checkpoint_threshold params)"
      "checkpoint_admission_for v (ckp_height cp) (ckp_hash cp) = Some Admit"
      "enforced = (if list_ex (\<lambda>(h, _). h = ckp_height cp) (cps_enforced cps) then cps_enforced cps
         else sort (cps_enforced cps @ [(ckp_height cp, ckp_hash cp)]))"
      "install_anchor (cps \<lparr> cps_enforced := enforced \<rparr>) cp = (cr_anchor_advanced r, cps')"
proof (cases "verify_checkpoint ed cp (cp_authority_keys params) (cp_checkpoint_threshold params)")
  case False
  then show thesis using assms that(1) by (auto simp: cps_submit_def)
next
  case ver: True
  then obtain a where a: "checkpoint_admission_for v (ckp_height cp) (ckp_hash cp) = Some a"
    using assms by (auto simp: cps_submit_def split: option.splits)
  obtain adv c1 where i: "install_anchor cps cp = (adv, c1)" by fastforce
  show thesis
  proof (cases a)
    case Admit
    then show thesis
      using assms that(3) ver a by (auto simp: cps_submit_def Let_def split: prod.splits)
  next
    case GenesisImmutable
    then show thesis using assms that(1) ver a by (auto simp: cps_submit_def)
  next
    case NotHeldYet
    then show thesis using assms that(2) ver a i by (auto simp: cps_submit_def anchor_report_def split: if_splits)
  next
    case HashConflict
    then show thesis using assms that(2) ver a i by (auto simp: cps_submit_def anchor_report_def split: if_splits)
  qed
qed

lemma cps_submit_facts:
  assumes "cps_submit ed params v cps cp = Some (r, cps', conds)"
  shows "anchor_moves cps cps' (cr_anchor_advanced r)" "anchor_ok cps \<Longrightarrow> anchor_ok cps'"
    "set (cps_enforced cps) \<subseteq> set (cps_enforced cps')"
    "cps' \<noteq> cps \<Longrightarrow> verify_checkpoint ed cp (cp_authority_keys params) (cp_checkpoint_threshold params)"
    "enforced_ok v (cps_enforced cps) \<Longrightarrow> enforced_ok v (cps_enforced cps')"
proof -
  have "anchor_moves cps cps' (cr_anchor_advanced r) \<and> (anchor_ok cps \<longrightarrow> anchor_ok cps') \<and>
    set (cps_enforced cps) \<subseteq> set (cps_enforced cps') \<and>
    (cps' \<noteq> cps \<longrightarrow> verify_checkpoint ed cp (cp_authority_keys params) (cp_checkpoint_threshold params)) \<and>
    (enforced_ok v (cps_enforced cps) \<longrightarrow> enforced_ok v (cps_enforced cps'))"
    using assms
  proof (cases rule: cps_submit_cases)
    case 1
    then show ?thesis by (simp add: anchor_moves_def)
  next
    case 2
    then show ?thesis using install_anchor_facts [OF 2(2)] by simp
  next
    case (3 enforced)
    note f = install_anchor_facts [OF 3(4)]
    have "0 < ckp_height cp" "ckp_height cp < cv_len v" "view_hash v (ckp_height cp) = Some (ckp_hash cp)"
      using 3(2) word_neq_0_conv by (auto simp: checkpoint_admission_for_def view_hash_def split: if_splits option.splits)
    then have "enforced_ok v (cps_enforced cps) \<longrightarrow> enforced_ok v enforced" using admit_enforced 3(3) by simp
    moreover have "set (cps_enforced cps) \<subseteq> set enforced" using 3(3) by auto
    ultimately show ?thesis using f 3(1) by simp
  qed
  then show "anchor_moves cps cps' (cr_anchor_advanced r)" "anchor_ok cps \<Longrightarrow> anchor_ok cps'"
    "set (cps_enforced cps) \<subseteq> set (cps_enforced cps')"
    "cps' \<noteq> cps \<Longrightarrow> verify_checkpoint ed cp (cp_authority_keys params) (cp_checkpoint_threshold params)"
    "enforced_ok v (cps_enforced cps) \<Longrightarrow> enforced_ok v (cps_enforced cps')" by blast+
qed

section \<open>Accepted reorganisations keep the checkpoints\<close>

lemma view_headers_nth:
  assumes "view_ok v" "a + i < b" "b \<le> unat (cv_len v)"
  shows "cv_header_at v (of_nat (a + i)) = Some (view_headers v a b ! i)"
proof -
  obtain h where "cv_header_at v (of_nat (a + i)) = Some h" using view_header [OF assms(1), of "a + i"] assms by force
  moreover have "view_headers v a b ! i = the (cv_header_at v (of_nat (a + i)))"
    using assms(2) nth_upt [of a i b] by (simp only: view_headers_def nth_map length_upt less_diff_conv add.commute)
  ultimately show ?thesis by simp
qed

lemma reorged_below:
  assumes "view_ok v" "view_ok v'" "reorged v start cand v'" "h < start" "start \<le> cv_len v"
  shows "view_hash v' h = view_hash v h" "h < cv_len v'"
proof -
  have u: "unat h < unat start" "unat start \<le> unat (cv_len v)" "unat start \<le> unat (cv_len v')"
    using assms(3-5) by (auto simp: word_less_nat_alt word_le_nat_alt reorged_def)
  have "view_headers v' 0 (unat start) = view_headers v 0 (unat start)" using assms(3) by (simp add: reorged_def)
  then show "view_hash v' h = view_hash v h"
    using view_headers_nth [OF assms(1), of 0 "unat h" "unat start"] view_headers_nth [OF assms(2), of 0 "unat h" "unat start"] u
    by (simp add: view_hash_def)
  show "h < cv_len v'" using u by (simp add: word_less_nat_alt)
qed

lemma reorged_above:
  assumes "view_ok v'" "reorged v start cand v'" "start \<le> h" "unat h < unat start + length cand"
  shows "view_hash v' h = Some (hi_hash (cand ! unat (h - start)))" "h < cv_len v'"
proof -
  let ?n = "unat (cv_len v')"
  have n: "?n = unat start + length cand" and c: "view_headers v' (unat start) ?n = cand"
    using assms(2) unfolding reorged_def by blast+
  have i: "unat (h - start) = unat h - unat start" using assms(3) by (simp add: unat_sub_le word_le_nat_alt)
  have h: "unat start + unat (h - start) = unat h" using i assms(3) by (simp add: word_le_nat_alt)
  have "cv_header_at v' (of_nat (unat start + unat (h - start))) = Some (view_headers v' (unat start) ?n ! unat (h - start))"
    by (rule view_headers_nth [OF assms(1)]) (use h assms(4) n in simp_all)
  then show "view_hash v' h = Some (hi_hash (cand ! unat (h - start)))" unfolding h c by (simp add: view_hash_def)
  show "h < cv_len v'" using assms(4) n by (simp add: word_less_nat_alt)
qed

lemma enforced_survive_reorg:
  assumes ok: "view_ok v" "view_ok v'" and r: "reorged v start cand v'"
    and ev: "evaluate_reorg_with_cap v start cand params cap = Some (Inr verdict)"
    and cps: "enforced_ok v (rp_checkpoints params)"
  shows "enforced_ok v' (rp_checkpoints params)"
proof -
  let ?n = "unat (cv_len v')"
  have n: "?n = unat start + length cand" and cand: "view_headers v' (unat start) ?n = cand" using r unfolding reorged_def by blast+
  have wf: "\<forall>h \<in> set cand. wf_header_info h" using view_headers_wf [OF ok(2), of ?n "unat start"] cand by simp
  have len: "unat start + length cand < 2 ^ 64" using n unat_u64_lt [of "cv_len v'"] by simp
  from evaluate_reorg_cases [OF ok(1) wf len, of params cap] ev
  have perm: "reorg_permitted v start cand params cap" by auto
  have "0 < h \<and> h < cv_len v' \<and> view_hash v' h = Some c" if "(h, c) \<in> set (rp_checkpoints params)" for h c
  proof -
    have held: "0 < h" "h < cv_len v" "view_hash v h = Some c" using cps that by (auto simp: enforced_ok_def)
    show ?thesis
    proof (cases "start \<le> h")
      case False
      then show ?thesis
        using reorged_below [OF ok r, of h] perm held by (simp add: reorg_permitted_def)
    next
      case True
      then have "unat h < unat start + length cand" "hi_hash (cand ! unat (h - start)) = c"
        using perm that held(2) by (auto simp: reorg_permitted_def split: if_splits)
      then show ?thesis using reorged_above [OF ok(2) r True] held by simp
    qed
  qed
  then show ?thesis using cps by (auto simp: enforced_ok_def)
qed

section \<open>Runs\<close>

text \<open>A run submits checkpoints and adopts branches that the rule accepts under the enforced ones.\<close>

inductive cps_run :: "'vk ed25519 \<Rightarrow> chain_params \<Rightarrow> chain_view \<Rightarrow> checkpoints \<Rightarrow> bool" for ed params where
  run_start: "view_ok v \<Longrightarrow> cps_run ed params v cps_new"
| run_load: "cps_run ed params v cps \<Longrightarrow> load_anchor ed params cps cp = (b, cps') \<Longrightarrow> cps_run ed params v cps'"
| run_submit: "cps_run ed params v cps \<Longrightarrow> cps_submit ed params v cps cp = Some (r, cps', conds) \<Longrightarrow> cps_run ed params v cps'"
| run_reorg: "cps_run ed params v cps \<Longrightarrow>
    evaluate_reorg_with_cap v start cand \<lparr> rp_anchor = cps_anchor cps, rp_checkpoints = cps_enforced cps, rp_local_time = now \<rparr>
      cap = Some (Inr verdict) \<Longrightarrow>
    reorged v start cand v' \<Longrightarrow> view_ok v' \<Longrightarrow> cps_run ed params v' cps"

lemma cps_run_ok:
  assumes "cps_run ed params v cps"
  shows "view_ok v \<and> enforced_ok v (cps_enforced cps) \<and> anchor_ok cps"
  using assms
proof (induction rule: cps_run.induct)
  case (run_start v)
  then show ?case by (simp add: cps_new_def enforced_ok_def anchor_ok_def)
next
  case (run_load v cps cp b cps')
  then show ?case using install_anchor_facts [of cps cp b cps'] by (auto simp: load_anchor_def split: if_splits)
next
  case (run_submit v cps cp r cps' conds)
  then show ?case using cps_submit_facts [OF run_submit.hyps(2)] by blast
next
  case (run_reorg v cps start cand now cap verdict v')
  then show ?case using enforced_survive_reorg [OF _ run_reorg.hyps(4, 3, 2)] by simp
qed

lemma cps_submit_total:
  assumes "view_ok v"
  shows "\<exists>r cps' conds. cps_submit ed params v cps cp = Some (r, cps', conds)"
proof -
  have "checkpoint_admission_for v (ckp_height cp) (ckp_hash cp) \<noteq> None"
  proof (cases "ckp_height cp = 0 \<or> cv_len v \<le> ckp_height cp")
    case False
    then have "unat (ckp_height cp) < unat (cv_len v)" by (simp add: word_less_nat_alt linorder_not_le)
    then show ?thesis using view_header [OF assms, of "unat (ckp_height cp)"] False by (force simp: checkpoint_admission_for_def)
  qed (auto simp: checkpoint_admission_for_def)
  then obtain a where a: "checkpoint_admission_for v (ckp_height cp) (ckp_hash cp) = Some a" by blast
  show ?thesis
    by (cases "verify_checkpoint ed cp (cp_authority_keys params) (cp_checkpoint_threshold params)"; cases a)
      (simp_all add: cps_submit_def a Let_def split_beta)
qed

section \<open>Properties\<close>

text \<open>
  C40.  Enforced checkpoints are final.  In every run of submissions, restored anchors and branches
  that the reorganisation rule accepts under the enforced checkpoints, the list is sorted with one
  entry per height and every entry is the hash the chain holds at its height; the anchor is the
  stored record's.  From there every submission returns, keeps all entries, and moves the anchor
  only to a greater height, never without saying so.
\<close>
theorem enforced_checkpoints_final:
  assumes "cps_run ed params v cps"
  shows "enforced_ok v (cps_enforced cps) \<and> anchor_ok cps \<and>
    (\<exists>r cps' conds. cps_submit ed params v cps cp = Some (r, cps', conds) \<and>
       set (cps_enforced cps) \<subseteq> set (cps_enforced cps') \<and> anchor_moves cps cps' (cr_anchor_advanced r))"
proof -
  have ok: "view_ok v" "enforced_ok v (cps_enforced cps)" "anchor_ok cps" using cps_run_ok [OF assms] by simp_all
  obtain r cps' conds where s: "cps_submit ed params v cps cp = Some (r, cps', conds)" using cps_submit_total [OF ok(1)] by blast
  show ?thesis using ok cps_submit_facts(1, 3) [OF s] s by blast
qed

definition sample_cp_params :: chain_params where
  "sample_cp_params = chain_params_default \<lparr> cp_authority_keys := [[1]] \<rparr>"

definition sample_cp :: signed_checkpoint where
  "sample_cp = \<lparr> ckp_height = 1, ckp_hash = replicate 32 7, ckp_sigs = [\<lparr> cks_pubkey = [1], cks_sig = [] \<rparr>] \<rparr>"

theorem enforced_checkpoints_final_witness:
  "\<exists>cps. cps_run sample_ed sample_cp_params (sample_view 7) cps \<and> cps_enforced cps = [(1, replicate 32 7)] \<and>
     enforced_ok (sample_view 7) [(1, replicate 32 7)]"
proof -
  have ver: "verify_checkpoint sample_ed sample_cp [[1]] 1"
    by (simp add: verify_checkpoint_def sample_cp_def sample_ed_def key_position_def ZERO_HASH_def word_le_nat_alt)
  have adm: "checkpoint_admission_for (sample_view 7) 1 (replicate 32 7) = Some Admit"
    by (simp add: checkpoint_admission_for_def sample_view_def list_view_def sample_header_def word_le_nat_alt)
  obtain r cps conds where s: "cps_submit sample_ed sample_cp_params (sample_view 7) cps_new sample_cp = Some (r, cps, conds)"
    using cps_submit_total [OF sample_view_ok] by blast
  then have "cps_enforced cps = [(1, replicate 32 7)]"
    using ver adm by (auto simp: cps_submit_def sample_cp_params_def sample_cp_def chain_params_default_def cps_new_def
        install_anchor_def Let_def split: if_splits)
  moreover have "cps_run sample_ed sample_cp_params (sample_view 7) cps"
    by (rule run_submit [OF run_start [OF sample_view_ok] s])
  ultimately show ?thesis using enforced_checkpoints_final [of sample_ed sample_cp_params "sample_view 7" cps] by auto
qed

end
