(* ===== verification/Fin_Maps.thy ===== *)
theory Fin_Maps
  imports Prelude "HOL-Library.Finite_Map"
begin

text \<open>
  Finite maps read in ascending order of their keys: the iteration order of a B-tree map, and the
  order in which the model visits a hash map where the result does not depend on it.
\<close>

text \<open>The entries of a map in ascending order of the keys.\<close>

definition fm_entries :: "('k::linorder, 'v) fmap \<Rightarrow> ('k \<times> 'v) list" where
  "fm_entries m = map (\<lambda>k. (k, the (fmlookup m k))) (sorted_list_of_fset (fmdom m))"

lemma fm_entries_set: "set (fm_entries m) = {(k, v). fmlookup m k = Some v}"
proof -
  have "set (fm_entries m) = (\<lambda>k. (k, the (fmlookup m k))) ` fmdom' m"
    by (simp add: fm_entries_def sorted_list_of_fset.rep_eq fmdom'_alt_def)
  also have "\<dots> = {(k, v). fmlookup m k = Some v}" by (force simp: image_iff fmlookup_dom'_iff)
  finally show ?thesis .
qed

lemma fm_entries_fst: "map fst (fm_entries m) = sorted_list_of_fset (fmdom m)"
  by (simp add: fm_entries_def comp_def)

lemma fm_entries_sorted: "sorted (map fst (fm_entries m))" "distinct (map fst (fm_entries m))"
  by (simp_all add: fm_entries_fst sorted_list_of_fset.rep_eq)

lemma fm_entries_Nil [simp]: "fm_entries m = [] \<longleftrightarrow> m = fmempty"
proof
  assume "fm_entries m = []"
  then have "fmlookup m k = None" for k using fm_entries_set [of m] by (cases "fmlookup m k") auto
  then show "m = fmempty" by (intro fmap_ext) simp
qed (simp add: fm_entries_def sorted_list_of_fset.rep_eq)

lemma fmdom'_Some: "k \<in> fmdom' m \<longleftrightarrow> (\<exists>v. fmlookup m k = Some v)"
  by (auto simp: fmlookup_dom'_iff)

lemma fmdom'_drop: "fmdom' (fmdrop k m) = fmdom' m - {k}"
  by auto

lemma fcard_fmdom: "fcard (fmdom m) = card (fmdom' m)"
  by (simp add: fcard.rep_eq fmdom'_alt_def)

lemma fmupd_nonempty: "fmupd k v m \<noteq> fmempty"
proof
  assume eq: "fmupd k v m = fmempty"
  have "fmlookup (fmupd k v m) k = fmlookup fmempty k" by (simp only: eq)
  then show False by simp
qed

end
