(* ===== verification/Mempool.thy ===== *)
theory Mempool
  imports Branch Fin_Maps "HOL-Library.Product_Lexorder"
begin

text \<open>
  The transaction pool of \<open>lib/chain/src/mempool.rs\<close>.  A hash map is a finite map; where the code
  iterates over one, the model goes through its keys in ascending order, and no result but the
  order of a returned vector depends on that.  A B-tree map is a finite map read in ascending
  order.  Panics (an index without its entry, the unchecked decrement of the byte count, the
  increment of a nonce) are \<open>None\<close>, and so is an eviction loop that does not end.  Functions that
  fail after changing the pool return it with the error.
\<close>

section \<open>Data\<close>

datatype provenance = ProvVerified | ProvValidatedBlock

definition is_freshly_verified :: "provenance \<Rightarrow> bool" where
  "is_freshly_verified p \<longleftrightarrow> p = ProvVerified"

definition sig_proof_verify :: "'vk ed25519 \<Rightarrow> network \<Rightarrow> tx \<Rightarrow> bytes \<Rightarrow> reject + provenance" where
  "sig_proof_verify ed net tx author_pubkey =
     (case tx of
        Transfer t \<Rightarrow>
          bindE (mapE (\<lambda>_. BadTransferSignature 0) (verify_transfer_signature ed net t)) (\<lambda>_. Inr ProvVerified)
      | Announcement a \<Rightarrow>
          bindE (mapE (RejTx 0) (check_announcement_stateless ed net a author_pubkey)) (\<lambda>_. Inr ProvVerified)
      | Coinbase _ \<Rightarrow> Inl (TxTypeNotRelayable 0))"

datatype author_rule = Enforce bytes | AlreadyHeld

record prepared =
  pr_raw :: bytes
  pr_tx :: tx
  pr_txid :: hash32
  pr_sender :: address
  pr_nonce :: u64
  pr_fee :: u128
  pr_amount :: u128
  pr_next :: u64
  pr_replaces :: "hash32 option"

record pool_tx =
  pt_txid :: hash32
  pt_sender :: address
  pt_nonce :: u64
  pt_fee :: u128
  pt_amount :: u128
  pt_bytes :: bytes
  pt_arrived :: u64
  pt_sig_verified :: bool
  pt_executable :: bool

definition fee_per_byte :: "pool_tx \<Rightarrow> u128" where
  "fee_per_byte t = pt_fee t div of_nat (max (length (pt_bytes t)) 1)"

record mempool =
  mem_params :: mempool_params
  mem_txs :: "(hash32, pool_tx) fmap"
  mem_by_sender :: "(address, (u64, hash32) fmap) fmap"
  mem_next_nonce :: "(address, u64) fmap"
  mem_arrival :: "hash32 list"
  mem_total_bytes :: nat

record admitted =
  ad_txid :: hash32
  ad_executable :: bool
  ad_promoted :: "hash32 list"
  ad_removed :: "hash32 list"

section \<open>Reading the pool\<close>

definition pool_values :: "mempool \<Rightarrow> pool_tx list" where
  "pool_values p = map snd (fm_entries (mem_txs p))"

definition mempool_new :: "mempool_params \<Rightarrow> mempool" where
  "mempool_new params =
     \<lparr> mem_params = params, mem_txs = fmempty, mem_by_sender = fmempty, mem_next_nonce = fmempty,
       mem_arrival = [], mem_total_bytes = 0 \<rparr>"

definition mempool_len :: "mempool \<Rightarrow> nat" where
  "mempool_len p = fcard (fmdom (mem_txs p))"

definition mempool_get :: "mempool \<Rightarrow> hash32 \<Rightarrow> pool_tx option" where
  "mempool_get p tid = fmlookup (mem_txs p) tid"

definition sender_map :: "mempool \<Rightarrow> address \<Rightarrow> (u64, hash32) fmap" where
  "sender_map p s = (case fmlookup (mem_by_sender p) s of Some m \<Rightarrow> m | None \<Rightarrow> fmempty)"

definition sender_len :: "mempool \<Rightarrow> address \<Rightarrow> nat" where
  "sender_len p s = fcard (fmdom (sender_map p s))"

definition sender_txs :: "mempool \<Rightarrow> address \<Rightarrow> pool_tx list" where
  "sender_txs p s = List.map_filter (\<lambda>(_, tid). fmlookup (mem_txs p) tid) (fm_entries (sender_map p s))"

definition executable_len :: "mempool \<Rightarrow> nat" where
  "executable_len p = length (filter pt_executable (pool_values p))"

definition executable_ids :: "mempool \<Rightarrow> hash32 list" where
  "executable_ids p =
     map pt_txid (sort_key (\<lambda>t. (- int (unat (fee_per_byte t)), pt_sender t, pt_nonce t))
       (filter pt_executable (pool_values p)))"

definition tracked_senders :: "mempool \<Rightarrow> nat" where
  "tracked_senders p = fcard (fmdom (mem_next_nonce p))"

definition pending_outlay :: "mempool \<Rightarrow> address \<Rightarrow> u128" where
  "pending_outlay p s = foldl saturating_add 0 (map (\<lambda>t. saturating_add (pt_amount t) (pt_fee t)) (sender_txs p s))"

section \<open>The indices\<close>

definition pool_insert :: "mempool \<Rightarrow> pool_tx \<Rightarrow> mempool" where
  "pool_insert p t = p
     \<lparr> mem_total_bytes := mem_total_bytes p + length (pt_bytes t),
       mem_arrival := mem_arrival p @ [pt_txid t],
       mem_by_sender := fmupd (pt_sender t) (fmupd (pt_nonce t) (pt_txid t) (sender_map p (pt_sender t))) (mem_by_sender p),
       mem_txs := fmupd (pt_txid t) t (mem_txs p) \<rparr>"

definition pool_unlink :: "mempool \<Rightarrow> pool_tx \<Rightarrow> mempool" where
  "pool_unlink p t =
     (case fmlookup (mem_by_sender p) (pt_sender t) of
        None \<Rightarrow> p
      | Some m \<Rightarrow>
          let m = fmdrop (pt_nonce t) m in
          if m = fmempty
          then p \<lparr> mem_by_sender := fmdrop (pt_sender t) (mem_by_sender p),
                   mem_next_nonce := fmdrop (pt_sender t) (mem_next_nonce p) \<rparr>
          else p \<lparr> mem_by_sender := fmupd (pt_sender t) m (mem_by_sender p) \<rparr>)"

definition pool_remove :: "mempool \<Rightarrow> hash32 \<Rightarrow> (pool_tx option \<times> mempool) option" where
  "pool_remove p tid =
     (case fmlookup (mem_txs p) tid of
        None \<Rightarrow> Some (None, p)
      | Some t \<Rightarrow>
          if mem_total_bytes p < length (pt_bytes t) then None
          else
            let p = p \<lparr> mem_txs := fmdrop tid (mem_txs p), mem_total_bytes := mem_total_bytes p - length (pt_bytes t) \<rparr>;
                p = pool_unlink p t
            in Some (Some t, p \<lparr> mem_arrival := filter (\<lambda>x. x \<noteq> tid) (mem_arrival p) \<rparr>))"

fun remove_all :: "hash32 list \<Rightarrow> mempool \<Rightarrow> mempool option" where
  "remove_all [] p = Some p"
| "remove_all (tid # ids) p = do { (_, p) \<leftarrow> pool_remove p tid; remove_all ids p }"

definition drop_below_nonce :: "mempool \<Rightarrow> address \<Rightarrow> u64 \<Rightarrow> mempool option" where
  "drop_below_nonce p s next_n =
     remove_all (map snd (filter (\<lambda>(n, _). n < next_n) (fm_entries (sender_map p s)))) p"

fun resplit_loop :: "(u64 \<times> hash32) list \<Rightarrow> u64 \<Rightarrow> hash32 list \<Rightarrow> mempool \<Rightarrow> (hash32 list \<times> mempool) option" where
  "resplit_loop [] want promoted p = Some (promoted, p)"
| "resplit_loop ((n, tid) # ids) want promoted p =
     (let exec = (n = want) in
      do { want \<leftarrow> (if exec then checked_add want 1 else Some want);
           t \<leftarrow> fmlookup (mem_txs p) tid;
           resplit_loop ids want (if exec \<and> \<not> pt_executable t then promoted @ [tid] else promoted)
             (p \<lparr> mem_txs := fmupd tid (t \<lparr> pt_executable := exec \<rparr>) (mem_txs p) \<rparr>) })"

definition resplit :: "mempool \<Rightarrow> address \<Rightarrow> u64 \<Rightarrow> (hash32 list \<times> mempool) option" where
  "resplit p s next_n =
     (case fmlookup (mem_by_sender p) s of
        None \<Rightarrow> Some ([], p)
      | Some m \<Rightarrow> resplit_loop (fm_entries m) next_n [] p)"

section \<open>Eviction\<close>

text \<open>\<open>Iterator::min_by\<close>: the first of the smallest elements.\<close>

fun min_by :: "('a \<Rightarrow> 'a \<Rightarrow> bool) \<Rightarrow> 'a list \<Rightarrow> 'a option" where
  "min_by lt [] = None"
| "min_by lt (x # xs) = Some (foldl (\<lambda>m y. if lt y m then y else m) x xs)"

definition queued_less :: "pool_tx \<Rightarrow> pool_tx \<Rightarrow> bool" where
  "queued_less a b \<longleftrightarrow> fee_per_byte a < fee_per_byte b \<or>
     fee_per_byte a = fee_per_byte b \<and>
       (pt_arrived b < pt_arrived a \<or> pt_arrived a = pt_arrived b \<and> pt_txid b < pt_txid a)"

definition head_less :: "pool_tx \<Rightarrow> pool_tx \<Rightarrow> bool" where
  "head_less a b \<longleftrightarrow> fee_per_byte a < fee_per_byte b \<or>
     fee_per_byte a = fee_per_byte b \<and> pt_sender a < pt_sender b"

definition eviction_candidate :: "mempool \<Rightarrow> (hash32 \<times> evict_reason) option" where
  "eviction_candidate p =
     (case min_by queued_less (filter (\<lambda>t. \<not> pt_executable t) (pool_values p)) of
        Some t \<Rightarrow> Some (pt_txid t, QueuedLowFee)
      | None \<Rightarrow>
          do { hd_tx \<leftarrow> min_by head_less (filter pt_executable (pool_values p));
               m \<leftarrow> fmlookup (mem_by_sender p) (pt_sender hd_tx);
               if fm_entries m = [] then None else Some (snd (last (fm_entries m)), ExecutableTail) })"

text \<open>The eviction loop of \<open>commit\<close>: whether the newcomer is refused, the pool, the victims and the
  reports.\<close>

partial_function (option) evict_loop ::
  "nat \<Rightarrow> u128 \<Rightarrow> mempool \<Rightarrow> hash32 list \<Rightarrow> condition list \<Rightarrow> (bool \<times> mempool \<times> hash32 list \<times> condition list) option" where
  "evict_loop raw_len incoming_fpb p removed conds =
     (if mp_max_txs (mem_params p) \<le> mempool_len p \<or> mp_max_bytes (mem_params p) < mem_total_bytes p + raw_len
      then case eviction_candidate p of
          None \<Rightarrow> Some (True, p, removed, conds)
        | Some c \<Rightarrow>
            (case fmlookup (mem_txs p) (fst c) of
               None \<Rightarrow> None
             | Some v \<Rightarrow>
                 if incoming_fpb < fee_per_byte v then Some (True, p, removed, conds)
                 else
                   (case pool_remove p (fst c) of
                      None \<Rightarrow> None
                    | Some r \<Rightarrow>
                        evict_loop raw_len incoming_fpb (snd r) (removed @ [fst c]) (conds @ [MempoolEvicted 1 (snd c)])))
      else Some (False, p, removed, conds))"

section \<open>Admission\<close>

definition tx_parts :: "tx \<Rightarrow> u8 \<Rightarrow> reject + bytes \<times> u64 \<times> u128 \<times> u128 \<times> hash32" where
  "tx_parts tx tb =
     (case tx of
        Transfer t \<Rightarrow> Inr (tr_from_pub t, tr_nonce t, tr_fee t, tr_amount t, transfer_txid t)
      | Announcement a \<Rightarrow>
          bindE (mapE (\<lambda>_. TxDecode) (announcement_txid a)) (\<lambda>tid. Inr (an_from_pub a, an_nonce a, an_fee a, 0, tid))
      | Coinbase _ \<Rightarrow> Inl (TxTypeNotRelayable tb))"

text \<open>The replacement rule: the outlay of the displaced transaction.\<close>

definition check_replacement :: "mempool \<Rightarrow> hash32 option \<Rightarrow> u128 \<Rightarrow> (reject + u128) option" where
  "check_replacement p replaces fee =
     (case replaces of
        None \<Rightarrow> Some (Inr 0)
      | Some old_id \<Rightarrow>
          do { old \<leftarrow> fmlookup (mem_txs p) old_id;
               Some (bindE (ok_or (checked_add (pt_fee old) (max (pt_fee old div 4) 1)) ArithmeticOverflow) (\<lambda>need.
                 if fee < need then Inl (ReplacementUnderpriced need fee)
                 else Inr (saturating_add (pt_amount old) (pt_fee old)))) })"

text \<open>The rules of \<open>check\<close> against the account of the sender.\<close>

definition check_account ::
  "mempool \<Rightarrow> bytes \<Rightarrow> tx \<Rightarrow> hash32 \<Rightarrow> address \<Rightarrow> u64 \<Rightarrow> u128 \<Rightarrow> u128 \<Rightarrow> account \<Rightarrow> u128 \<Rightarrow> (reject + prepared) option" where
  "check_account p raw tx tid sender nonce fee amount acct spendable =
     (let next_n = ac_nonce acct in
      if nonce < next_n then Some (Inl (TxStale next_n nonce))
      else if saturating_add next_n (mp_max_nonce_gap (mem_params p)) < nonce then Some (Inl (NonceGapTooLarge next_n nonce))
      else
      let replaces = fmlookup (sender_map p sender) nonce in
      bindP (check_replacement p replaces fee) (\<lambda>displaced_outlay.
      bindP (Some (ok_or (checked_add amount fee) ArithmeticOverflow)) (\<lambda>outlay.
      let pending = saturating_sub (pending_outlay p sender) displaced_outlay in
      bindP (Some (ok_or (checked_add pending outlay) ArithmeticOverflow)) (\<lambda>need.
      if spendable < need then Some (Inl (RejInsufficientBalance 0 need spendable))
      else
      let k = (if replaces = None then 0 else 1) in
      if sender_len p sender < k then None
      else if effective_per_sender (mem_params p) \<le> sender_len p sender - k
      then Some (Inl (SenderCap (effective_per_sender (mem_params p))))
      else Some (Inr
        \<lparr> pr_raw = raw, pr_tx = tx, pr_txid = tid, pr_sender = sender, pr_nonce = nonce, pr_fee = fee,
          pr_amount = amount, pr_next = next_n, pr_replaces = replaces \<rparr>)))))"

definition pool_check ::
  "mempool \<Rightarrow> bytes \<Rightarrow> author_rule \<Rightarrow> (address \<Rightarrow> account \<times> u128) \<Rightarrow> (reject + prepared) option" where
  "pool_check p raw author lookup =
     (if MAX_TX_BYTES < length raw then Some (Inl (TxTooLarge (length raw)))
      else if raw = [] then Some (Inl TxDecode)
      else if hd raw = TX_TYPE_COINBASE then Some (Inl (TxTypeNotRelayable (hd raw)))
      else
      bindP (Some (mapE (\<lambda>_. TxDecode) (decode_tx raw))) (\<lambda>tx.
      bindP (Some (tx_parts tx (hd raw))) (\<lambda>(sender_pub, nonce, fee, amount, tid).
      let sender = address_payload sender_pub in
      if (case (tx, author) of (Announcement a, Enforce key) \<Rightarrow> an_from_pub a \<noteq> key | _ \<Rightarrow> False)
      then Some (Inl (RejTx 0 NotAuthorKey))
      else if fee < FEE_FLOOR_MILE then Some (Inl (BelowRelayFloor fee FEE_FLOOR_MILE))
      else if fee < mp_relay_fee_floor (mem_params p) then Some (Inl (BelowRelayFloor fee (mp_relay_fee_floor (mem_params p))))
      else if fmlookup (mem_txs p) tid \<noteq> None then Some (Inl TxKnown)
      else
      let (acct, spendable) = lookup sender in
      check_account p raw tx tid sender nonce fee amount acct spendable)))"

fun sweep_remove :: "hash32 list \<Rightarrow> address list \<Rightarrow> mempool \<Rightarrow> (address list \<times> mempool) option" where
  "sweep_remove [] senders p = Some (senders, p)"
| "sweep_remove (tid # ids) senders p =
     (let senders = (case fmlookup (mem_txs p) tid of None \<Rightarrow> senders | Some t \<Rightarrow> senders @ [pt_sender t])
      in do { (_, p) \<leftarrow> pool_remove p tid; sweep_remove ids senders p })"

fun sweep_resplit :: "address list \<Rightarrow> mempool \<Rightarrow> mempool option" where
  "sweep_resplit [] p = Some p"
| "sweep_resplit (s # ss) p =
     (let next_n = (case fmlookup (mem_next_nonce p) s of Some n \<Rightarrow> n | None \<Rightarrow> 0)
      in do { (_, p) \<leftarrow> resplit p s next_n; sweep_resplit ss p })"

definition sweep_expired :: "mempool \<Rightarrow> u64 \<Rightarrow> (hash32 list \<times> mempool) option" where
  "sweep_expired p now =
     (let ttl = mp_ttl_secs (mem_params p);
          dead = map pt_txid (filter (\<lambda>t. ttl < saturating_sub now (pt_arrived t)) (pool_values p))
      in do { (senders, p) \<leftarrow> sweep_remove dead [] p;
              p \<leftarrow> sweep_resplit (remdups_adj (sort senders)) p;
              Some (dead, p) })"

text \<open>The end of \<open>commit\<close> when there is room.\<close>

definition commit_insert :: "prepared \<Rightarrow> u64 \<Rightarrow> hash32 list \<Rightarrow> mempool \<Rightarrow> (admitted \<times> mempool) option" where
  "commit_insert pr now removed p =
     (let removed = (case pr_replaces pr of Some old_id \<Rightarrow> old_id # removed | None \<Rightarrow> removed);
          p = p \<lparr> mem_next_nonce := fmupd (pr_sender pr) (pr_next pr) (mem_next_nonce p) \<rparr>;
          pt = \<lparr> pt_txid = pr_txid pr, pt_sender = pr_sender pr, pt_nonce = pr_nonce pr, pt_fee = pr_fee pr,
                 pt_amount = pr_amount pr, pt_bytes = pr_raw pr, pt_arrived = now, pt_sig_verified = True,
                 pt_executable = False \<rparr>
      in do { (promoted, p) \<leftarrow> resplit (pool_insert p pt) (pr_sender pr) (pr_next pr);
              t \<leftarrow> fmlookup (mem_txs p) (pr_txid pr);
              Some (\<lparr> ad_txid = pr_txid pr, ad_executable = pt_executable t,
                      ad_promoted = filter (\<lambda>tid. tid \<noteq> pr_txid pr) promoted, ad_removed = removed \<rparr>, p) })"

definition pool_commit :: "mempool \<Rightarrow> prepared \<Rightarrow> u64 \<Rightarrow> ((reject + admitted) \<times> mempool \<times> condition list) option" where
  "pool_commit p pr now =
     do { (expired, p) \<leftarrow> sweep_expired p now;
          let conds = (if expired = [] then [] else [MempoolEvicted (length expired) Expired]);
          (displaced, p) \<leftarrow> (case pr_replaces pr of None \<Rightarrow> Some (None, p) | Some old_id \<Rightarrow> pool_remove p old_id);
          let incoming_fpb = pr_fee pr div of_nat (max (length (pr_raw pr)) 1);
          (refused, p, removed, conds) \<leftarrow> evict_loop (length (pr_raw pr)) incoming_fpb p [] conds;
          if refused
          then (case displaced of
                  None \<Rightarrow> Some (Inl PoolFull, p, conds)
                | Some old \<Rightarrow>
                    do { (_, p) \<leftarrow> resplit (pool_insert p old) (pr_sender pr) (pr_next pr);
                         Some (Inl PoolFull, p, conds) })
          else do { (ad, p) \<leftarrow> commit_insert pr now removed p; Some (Inr ad, p, conds) } }"

definition pool_submit ::
  "mempool \<Rightarrow> bytes \<Rightarrow> account \<Rightarrow> u128 \<Rightarrow> u64 \<Rightarrow> ((reject + admitted) \<times> mempool \<times> condition list) option" where
  "pool_submit p raw acct spendable now =
     do { r \<leftarrow> pool_check p raw AlreadyHeld (\<lambda>_. (acct, spendable));
          (case r of Inl e \<Rightarrow> Some (Inl e, p, []) | Inr pr \<Rightarrow> pool_commit p pr now) }"

definition submit_verified ::
  "'vk ed25519 \<Rightarrow> mempool \<Rightarrow> network \<Rightarrow> bytes \<Rightarrow> (address \<Rightarrow> account \<times> u128) \<Rightarrow> u64 \<Rightarrow> bytes \<Rightarrow>
   ((reject + admitted) \<times> mempool \<times> condition list) option" where
  "submit_verified ed p net raw lookup now author_pubkey =
     do { r \<leftarrow> pool_check p raw (Enforce author_pubkey) lookup;
          (case r of
             Inl e \<Rightarrow> Some (Inl e, p, [])
           | Inr pr \<Rightarrow>
               (case sig_proof_verify ed net (pr_tx pr) author_pubkey of
                  Inl e \<Rightarrow> Some (Inl e, p, [])
                | Inr _ \<Rightarrow> pool_commit p pr now)) }"

section \<open>Blocks and reorganisations\<close>

fun remove_spent :: "(address \<times> u64) list \<Rightarrow> nat \<Rightarrow> mempool \<Rightarrow> (nat \<times> mempool) option" where
  "remove_spent [] n p = Some (n, p)"
| "remove_spent ((s, nonce) # spent) n p =
     (case fmlookup (sender_map p s) nonce of
        None \<Rightarrow> remove_spent spent n p
      | Some tid \<Rightarrow> do { (_, p) \<leftarrow> pool_remove p tid; remove_spent spent (n + 1) p })"

fun renonce :: "address list \<Rightarrow> (address \<Rightarrow> account) \<Rightarrow> mempool \<Rightarrow> mempool option" where
  "renonce [] account_of p = Some p"
| "renonce (s # ss) account_of p =
     (let next_n = ac_nonce (account_of s);
          p = p \<lparr> mem_next_nonce := fmupd s next_n (mem_next_nonce p) \<rparr>
      in do { p \<leftarrow> drop_below_nonce p s next_n;
              (_, p) \<leftarrow> resplit p s next_n;
              renonce ss account_of p })"

definition on_block_connected ::
  "mempool \<Rightarrow> (address \<times> u64) list \<Rightarrow> (address \<Rightarrow> account) \<Rightarrow> (nat \<times> mempool) option" where
  "on_block_connected p spent account_of =
     do { (n, p) \<leftarrow> remove_spent spent 0 p;
          p \<leftarrow> renonce (remdups_adj (sort (map fst spent))) account_of p;
          Some (n, p) }"

definition resplit_all :: "mempool \<Rightarrow> (address \<Rightarrow> account) \<Rightarrow> mempool option" where
  "resplit_all p account_of = renonce (map fst (fm_entries (mem_by_sender p))) account_of p"

text \<open>The two loops of \<open>on_reorg_reinject\<close> over the transactions in their order.\<close>

fun reinject ::
  "bytes list \<Rightarrow> u64 \<Rightarrow> (address \<Rightarrow> account \<times> u128) \<Rightarrow> mempool \<Rightarrow> nat \<Rightarrow> nat \<Rightarrow> condition list \<Rightarrow>
   (mempool \<times> nat \<times> nat \<times> condition list) option" where
  "reinject [] now lookup p taken dropped conds = Some (p, taken, dropped, conds)"
| "reinject (raw # raws) now lookup p taken dropped conds =
     (if mp_reorg_reinject_cap (mem_params p) \<le> taken then reinject raws now lookup p taken (dropped + 1) conds
      else case decode_tx raw of
        Inl _ \<Rightarrow> reinject raws now lookup p taken (dropped + 1) conds
      | Inr tx \<Rightarrow>
          (case (case tx of Transfer t \<Rightarrow> Some (tr_from_pub t) | Announcement a \<Rightarrow> Some (an_from_pub a) | Coinbase _ \<Rightarrow> None) of
             None \<Rightarrow> reinject raws now lookup p taken dropped conds
           | Some from_pub \<Rightarrow>
               let (acct, spendable) = lookup (address_payload from_pub) in
               do { (r, p, cs) \<leftarrow> pool_submit p raw acct spendable now;
                    (case r of
                       Inr _ \<Rightarrow> reinject raws now lookup p (taken + 1) dropped (conds @ cs)
                     | Inl _ \<Rightarrow> reinject raws now lookup p taken (dropped + 1) (conds @ cs)) }))"

definition on_reorg_reinject ::
  "mempool \<Rightarrow> (u64 \<times> bytes list) list \<Rightarrow> u64 \<Rightarrow> (address \<Rightarrow> account \<times> u128) \<Rightarrow>
   ((nat \<times> nat) \<times> mempool \<times> condition list) option" where
  "on_reorg_reinject p disconnected now lookup =
     (let ordered = sort_key (\<lambda>(h, _). - int (unat h)) disconnected in
      do { (p, taken, dropped, conds) \<leftarrow> reinject (concat (map snd ordered)) now lookup p 0 0 [];
           Some ((taken, dropped), p,
                 conds @ (if 0 < dropped then [MempoolEvicted dropped ReorgOverflow] else [])) })"

section \<open>Block templates\<close>

fun template_loop :: "nat \<Rightarrow> nat \<Rightarrow> pool_tx list \<Rightarrow> bytes list \<Rightarrow> nat \<Rightarrow> bytes list" where
  "template_loop max_txs max_bytes [] out bytes_so_far = out"
| "template_loop max_txs max_bytes (t # ts) out bytes_so_far =
     (if max_txs \<le> length out \<or> max_bytes < bytes_so_far + length (pt_bytes t) then out
      else template_loop max_txs max_bytes ts (out @ [pt_bytes t]) (bytes_so_far + length (pt_bytes t)))"

definition sender_chain :: "mempool \<Rightarrow> address \<Rightarrow> pool_tx list" where
  "sender_chain p s = sort_key pt_nonce (filter (\<lambda>t. pt_executable t \<and> pt_sender t = s) (pool_values p))"

definition template_chains :: "mempool \<Rightarrow> pool_tx list list" where
  "template_chains p =
     sort_key (\<lambda>c. (- int (unat (fee_per_byte (hd c))), pt_sender (hd c)))
       (map (sender_chain p) (remdups (map pt_sender (filter pt_executable (pool_values p)))))"

definition template :: "mempool \<Rightarrow> nat \<Rightarrow> nat \<Rightarrow> bytes list" where
  "template p max_txs max_bytes = template_loop max_txs max_bytes (concat (template_chains p)) [] 0"

end
