(* ===== verification/Mempool_Index.thy ===== *)
theory Mempool_Index
  imports Mempool
begin

text \<open>
  The indices of the transaction pool agree: the table of transactions, the nonce map of every
  sender, the arrival queue and the byte count describe the same transactions.  Insertion, removal
  and the recomputation of the executable run keep them so, and the eviction loop ends.
\<close>

section \<open>Agreement of the indices\<close>

definition pool_bytes :: "(hash32, pool_tx) fmap \<Rightarrow> nat" where
  "pool_bytes txs = (\<Sum>tid \<in> fmdom' txs. length (pt_bytes (the (fmlookup txs tid))))"

definition linked :: "mempool \<Rightarrow> bool" where
  "linked p \<longleftrightarrow>
     (\<forall>tid t. fmlookup (mem_txs p) tid = Some t \<longrightarrow>
        pt_txid t = tid \<and> fmlookup (sender_map p (pt_sender t)) (pt_nonce t) = Some tid) \<and>
     (\<forall>s n tid. fmlookup (sender_map p s) n = Some tid \<longrightarrow>
        (\<exists>t. fmlookup (mem_txs p) tid = Some t \<and> pt_sender t = s \<and> pt_nonce t = n)) \<and>
     (\<forall>s. fmlookup (mem_by_sender p) s \<noteq> Some fmempty) \<and>
     mem_total_bytes p = pool_bytes (mem_txs p) \<and>
     distinct (mem_arrival p) \<and> set (mem_arrival p) = fmdom' (mem_txs p)"

text \<open>The second pool holds transactions of the first only, up to the executable flag.\<close>

definition shrinks :: "mempool \<Rightarrow> mempool \<Rightarrow> bool" where
  "shrinks p q \<longleftrightarrow> linked q \<and> mem_params q = mem_params p \<and>
     (\<forall>tid t'. fmlookup (mem_txs q) tid = Some t' \<longrightarrow>
        (\<exists>t b. fmlookup (mem_txs p) tid = Some t \<and> t' = t \<lparr> pt_executable := b \<rparr>))"

text \<open>The nonces that continue the run from a start within a set.\<close>

definition in_run :: "u64 \<Rightarrow> u64 set \<Rightarrow> u64 \<Rightarrow> bool" where
  "in_run start D n \<longleftrightarrow> start \<le> n \<and> (\<forall>k. start \<le> k \<and> k \<le> n \<longrightarrow> k \<in> D)"

definition run_from :: "mempool \<Rightarrow> address \<Rightarrow> u64 \<Rightarrow> bool" where
  "run_from p s start \<longleftrightarrow> (\<forall>tid t. fmlookup (mem_txs p) tid = Some t \<and> pt_sender t = s \<longrightarrow>
     (pt_executable t \<longleftrightarrow> in_run start (fmdom' (sender_map p s)) (pt_nonce t)))"

definition run_ok :: "mempool \<Rightarrow> address \<Rightarrow> bool" where
  "run_ok p s \<longleftrightarrow> (\<exists>start. run_from p s start)"

definition nonces_small :: "mempool \<Rightarrow> bool" where
  "nonces_small p \<longleftrightarrow> (\<forall>tid t. fmlookup (mem_txs p) tid = Some t \<longrightarrow> pt_nonce t \<noteq> -1)"

section \<open>Maps\<close>

lemma pool_values_set: "set (pool_values p) = {t. \<exists>tid. fmlookup (mem_txs p) tid = Some t}"
  unfolding pool_values_def set_map fm_entries_set by (force simp: image_def)

lemma pool_bytes_drop:
  assumes "fmlookup txs tid = Some t"
  shows "pool_bytes txs = length (pt_bytes t) + pool_bytes (fmdrop tid txs)"
proof -
  have "(\<Sum>i \<in> fmdom' txs - {tid}. length (pt_bytes (the (fmlookup txs i)))) = pool_bytes (fmdrop tid txs)"
    unfolding pool_bytes_def fmdom'_drop by (intro sum.cong) auto
  then show ?thesis
    using assms sum.remove [of "fmdom' txs" tid "\<lambda>i. length (pt_bytes (the (fmlookup txs i)))"]
    by (auto simp: pool_bytes_def fmdom'_Some)
qed

lemma pool_bytes_upd:
  assumes "fmlookup txs tid = None"
  shows "pool_bytes (fmupd tid t txs) = length (pt_bytes t) + pool_bytes txs"
proof -
  have "fmdrop tid (fmupd tid t txs) = txs" using assms by (intro fmap_ext) auto
  then show ?thesis using pool_bytes_drop [of "fmupd tid t txs" tid t] by simp
qed

lemma pool_bytes_mono:
  assumes "\<And>tid t'. fmlookup txs' tid = Some t' \<Longrightarrow> \<exists>t. fmlookup txs tid = Some t \<and> pt_bytes t' = pt_bytes t"
  shows "pool_bytes txs' \<le> pool_bytes txs"
proof -
  have d: "fmdom' txs' \<subseteq> fmdom' txs" unfolding subset_iff fmdom'_Some using assms by blast
  have "pt_bytes (the (fmlookup txs' i)) = pt_bytes (the (fmlookup txs i))" if "i \<in> fmdom' txs'" for i
    using that assms unfolding fmdom'_Some by force
  then have "pool_bytes txs' = (\<Sum>i \<in> fmdom' txs'. length (pt_bytes (the (fmlookup txs i))))"
    unfolding pool_bytes_def by (intro sum.cong) simp_all
  also have "\<dots> \<le> pool_bytes txs" unfolding pool_bytes_def using d by (intro sum_mono2) simp_all
  finally show ?thesis .
qed

section \<open>Reading a linked pool\<close>

lemma linkedD:
  assumes "linked p"
  shows "fmlookup (mem_txs p) tid = Some t \<Longrightarrow> pt_txid t = tid"
    and "fmlookup (mem_txs p) tid = Some t \<Longrightarrow> fmlookup (sender_map p (pt_sender t)) (pt_nonce t) = Some tid"
    and "fmlookup (sender_map p s) n = Some tid \<Longrightarrow> \<exists>t. fmlookup (mem_txs p) tid = Some t \<and> pt_sender t = s \<and> pt_nonce t = n"
    and "mem_total_bytes p = pool_bytes (mem_txs p)"
  using assms unfolding linked_def by blast+

lemma sender_map_upd [simp]:
  "sender_map (p \<lparr> mem_by_sender := fmupd s m bs \<rparr>) s' = (if s' = s then m else sender_map (p \<lparr> mem_by_sender := bs \<rparr>) s')"
  "sender_map (p \<lparr> mem_by_sender := fmdrop s bs \<rparr>) s' = (if s' = s then fmempty else sender_map (p \<lparr> mem_by_sender := bs \<rparr>) s')"
  "sender_map (p \<lparr> mem_txs := x \<rparr>) s' = sender_map p s'"
  "sender_map (p \<lparr> mem_total_bytes := b \<rparr>) s' = sender_map p s'"
  "sender_map (p \<lparr> mem_arrival := a \<rparr>) s' = sender_map p s'"
  "sender_map (p \<lparr> mem_next_nonce := n \<rparr>) s' = sender_map p s'"
  "sender_map (p \<lparr> mem_by_sender := mem_by_sender p \<rparr>) s' = sender_map p s'"
  by (simp_all add: sender_map_def)

lemma sender_dom:
  assumes "linked p"
  shows "fmdom' (sender_map p s) = {n. \<exists>tid t. fmlookup (mem_txs p) tid = Some t \<and> pt_sender t = s \<and> pt_nonce t = n}"
proof (intro set_eqI iffI)
  fix n assume "n \<in> fmdom' (sender_map p s)"
  then show "n \<in> {n. \<exists>tid t. fmlookup (mem_txs p) tid = Some t \<and> pt_sender t = s \<and> pt_nonce t = n}"
    using linkedD(3) [OF assms] unfolding fmdom'_Some by blast
next
  fix n assume "n \<in> {n. \<exists>tid t. fmlookup (mem_txs p) tid = Some t \<and> pt_sender t = s \<and> pt_nonce t = n}"
  then show "n \<in> fmdom' (sender_map p s)"
    using linkedD(2) [OF assms] unfolding fmdom'_Some by blast
qed

lemma linked_next_nonce [simp]: "linked (p \<lparr> mem_next_nonce := n \<rparr>) \<longleftrightarrow> linked p"
  by (simp add: linked_def)

lemma mempool_new_linked [simp]: "linked (mempool_new params)"
  by (auto simp: linked_def mempool_new_def sender_map_def pool_bytes_def)

section \<open>Insertion and removal\<close>

lemma linkedI:
  assumes "\<And>tid t. fmlookup (mem_txs p) tid = Some t \<Longrightarrow>
      pt_txid t = tid \<and> fmlookup (sender_map p (pt_sender t)) (pt_nonce t) = Some tid"
    and "\<And>s n tid. fmlookup (sender_map p s) n = Some tid \<Longrightarrow>
      \<exists>t. fmlookup (mem_txs p) tid = Some t \<and> pt_sender t = s \<and> pt_nonce t = n"
    and "\<And>s. fmlookup (mem_by_sender p) s \<noteq> Some fmempty"
    and "mem_total_bytes p = pool_bytes (mem_txs p)"
    and "distinct (mem_arrival p)" "set (mem_arrival p) = fmdom' (mem_txs p)"
  shows "linked p"
  using assms unfolding linked_def by blast

lemma pool_insert_simps [simp]:
  "mem_txs (pool_insert p t) = fmupd (pt_txid t) t (mem_txs p)"
  "mem_params (pool_insert p t) = mem_params p"
  "sender_map (pool_insert p t) s =
     (if s = pt_sender t then fmupd (pt_nonce t) (pt_txid t) (sender_map p s) else sender_map p s)"
  by (simp_all add: pool_insert_def sender_map_def)

lemma pool_insert_linked:
  assumes p: "linked p" and new: "fmlookup (mem_txs p) (pt_txid t) = None"
    "fmlookup (sender_map p (pt_sender t)) (pt_nonce t) = None"
  shows "linked (pool_insert p t)"
proof (rule linkedI)
  fix tid u assume u: "fmlookup (mem_txs (pool_insert p t)) tid = Some u"
  show "pt_txid u = tid \<and> fmlookup (sender_map (pool_insert p t) (pt_sender u)) (pt_nonce u) = Some tid"
  proof (cases "tid = pt_txid t")
    case True
    then show ?thesis using u by simp
  next
    case False
    then have *: "fmlookup (mem_txs p) tid = Some u" using u by simp
    have "\<not> (pt_sender u = pt_sender t \<and> pt_nonce u = pt_nonce t)" using linkedD(2) [OF p *] new(2) by auto
    then show ?thesis using linkedD(1,2) [OF p *] by (cases "pt_sender u = pt_sender t") simp_all
  qed
next
  fix s n tid assume *: "fmlookup (sender_map (pool_insert p t) s) n = Some tid"
  show "\<exists>u. fmlookup (mem_txs (pool_insert p t)) tid = Some u \<and> pt_sender u = s \<and> pt_nonce u = n"
  proof (cases "s = pt_sender t \<and> n = pt_nonce t")
    case True
    then show ?thesis using * by simp
  next
    case False
    then have "fmlookup (sender_map p s) n = Some tid" using * by (cases "s = pt_sender t") simp_all
    then obtain u where u: "fmlookup (mem_txs p) tid = Some u" "pt_sender u = s" "pt_nonce u = n"
      using linkedD(3) [OF p] by blast
    then show ?thesis using new(1) by (cases "tid = pt_txid t") simp_all
  qed
next
  fix s
  show "fmlookup (mem_by_sender (pool_insert p t)) s \<noteq> Some fmempty"
    using p unfolding linked_def pool_insert_def by (simp add: fmupd_nonempty)
next
  show "mem_total_bytes (pool_insert p t) = pool_bytes (mem_txs (pool_insert p t))"
    by (simp add: pool_insert_def pool_bytes_upd [OF new(1)] linkedD(4) [OF p])
next
  have "distinct (mem_arrival p)" "set (mem_arrival p) = fmdom' (mem_txs p)" using p unfolding linked_def by simp_all
  moreover have "pt_txid t \<notin> fmdom' (mem_txs p)" using new(1) by (simp add: fmlookup_dom'_iff)
  ultimately show "distinct (mem_arrival (pool_insert p t))"
    "set (mem_arrival (pool_insert p t)) = fmdom' (mem_txs (pool_insert p t))"
    by (simp_all add: pool_insert_def)
qed

lemma pool_unlink_simps [simp]:
  "mem_txs (pool_unlink p t) = mem_txs p"
  "mem_params (pool_unlink p t) = mem_params p"
  "mem_total_bytes (pool_unlink p t) = mem_total_bytes p"
  "mem_arrival (pool_unlink p t) = mem_arrival p"
  by (simp_all add: pool_unlink_def Let_def split: option.splits)

lemma pool_unlink_map [simp]:
  "sender_map (pool_unlink p t) s = (if s = pt_sender t then fmdrop (pt_nonce t) (sender_map p s) else sender_map p s)"
  by (auto simp: pool_unlink_def Let_def sender_map_def split: option.splits)

lemma pool_unlink_nonempty:
  "(\<And>s. fmlookup (mem_by_sender p) s \<noteq> Some fmempty) \<Longrightarrow> fmlookup (mem_by_sender (pool_unlink p t)) s \<noteq> Some fmempty"
  by (auto simp: pool_unlink_def Let_def split: option.splits)

lemma pool_remove_absent [simp]: "fmlookup (mem_txs p) tid = None \<Longrightarrow> pool_remove p tid = Some (None, p)"
  by (simp add: pool_remove_def)

lemma pool_remove_linked:
  assumes p: "linked p" and t: "fmlookup (mem_txs p) tid = Some t"
  obtains q where "pool_remove p tid = Some (Some t, q)" "linked q" "mem_params q = mem_params p"
    "mem_txs q = fmdrop tid (mem_txs p)"
proof -
  define p1 where "p1 = p \<lparr> mem_txs := fmdrop tid (mem_txs p), mem_total_bytes := mem_total_bytes p - length (pt_bytes t) \<rparr>"
  define q where "q = pool_unlink p1 t \<lparr> mem_arrival := filter (\<lambda>x. x \<noteq> tid) (mem_arrival (pool_unlink p1 t)) \<rparr>"
  have b: "mem_total_bytes p = length (pt_bytes t) + pool_bytes (fmdrop tid (mem_txs p))"
    using linkedD(4) [OF p] pool_bytes_drop [OF t] by simp
  then have eq: "pool_remove p tid = Some (Some t, q)" by (simp add: pool_remove_def t q_def p1_def Let_def)
  have maps: "sender_map q s = (if s = pt_sender t then fmdrop (pt_nonce t) (sender_map p s) else sender_map p s)" for s
    by (simp add: q_def p1_def)
  have txs: "mem_txs q = fmdrop tid (mem_txs p)" by (simp add: q_def p1_def)
  have tid: "fmlookup (sender_map p (pt_sender t)) (pt_nonce t) = Some tid" using linkedD(2) [OF p t] .
  have "linked q"
  proof (rule linkedI)
    fix i u assume "fmlookup (mem_txs q) i = Some u"
    then have u: "fmlookup (mem_txs p) i = Some u" "i \<noteq> tid" by (simp_all add: txs split: if_splits)
    then have "\<not> (pt_sender u = pt_sender t \<and> pt_nonce u = pt_nonce t)" using linkedD(2) [OF p u(1)] tid by force
    then show "pt_txid u = i \<and> fmlookup (sender_map q (pt_sender u)) (pt_nonce u) = Some i"
      using linkedD(1,2) [OF p u(1)] by (cases "pt_sender u = pt_sender t") (simp_all add: maps)
  next
    fix s n i assume *: "fmlookup (sender_map q s) n = Some i"
    then have "fmlookup (sender_map p s) n = Some i" by (simp add: maps split: if_splits)
    then obtain u where u: "fmlookup (mem_txs p) i = Some u" "pt_sender u = s" "pt_nonce u = n"
      using linkedD(3) [OF p] by blast
    then have "i \<noteq> tid" using * t by (auto simp: maps)
    then show "\<exists>u. fmlookup (mem_txs q) i = Some u \<and> pt_sender u = s \<and> pt_nonce u = n" using u by (simp add: txs)
  next
    fix s show "fmlookup (mem_by_sender q) s \<noteq> Some fmempty"
      using p pool_unlink_nonempty [of p1] by (simp add: linked_def q_def p1_def)
  next
    show "mem_total_bytes q = pool_bytes (mem_txs q)" using b by (simp add: q_def p1_def)
  next
    have "distinct (mem_arrival p)" "set (mem_arrival p) = fmdom' (mem_txs p)" using p unfolding linked_def by simp_all
    then show "distinct (mem_arrival q)" "set (mem_arrival q) = fmdom' (mem_txs q)"
      unfolding txs fmdom'_drop by (simp_all add: q_def p1_def set_diff_eq)
  qed
  then show ?thesis using that eq txs by (simp add: q_def p1_def)
qed

section \<open>Pools that only lose transactions\<close>

lemma shrinks_refl: "linked p \<Longrightarrow> shrinks p p"
  unfolding shrinks_def by (metis pool_tx.surjective pool_tx.update_convs(9))

lemma shrinks_trans:
  assumes "shrinks p q" "shrinks q r"
  shows "shrinks p r"
proof -
  have "\<exists>t b. fmlookup (mem_txs p) tid = Some t \<and> t' = t \<lparr> pt_executable := b \<rparr>"
    if r: "fmlookup (mem_txs r) tid = Some t'" for tid t'
  proof -
    obtain u b where u: "fmlookup (mem_txs q) tid = Some u" "t' = u \<lparr> pt_executable := b \<rparr>"
      using assms(2) r unfolding shrinks_def by blast
    obtain t c where "fmlookup (mem_txs p) tid = Some t" "u = t \<lparr> pt_executable := c \<rparr>"
      using assms(1) u(1) unfolding shrinks_def by blast
    then show ?thesis using u(2) by auto
  qed
  then show ?thesis using assms unfolding shrinks_def by simp
qed

lemma shrinksD:
  assumes "shrinks p q"
  shows "linked q" "mem_params q = mem_params p"
    and "fmlookup (mem_txs q) tid = Some t' \<Longrightarrow> \<exists>t b. fmlookup (mem_txs p) tid = Some t \<and> t' = t \<lparr> pt_executable := b \<rparr>"
  using assms unfolding shrinks_def by blast+

lemma shrinks_dom: "shrinks p q \<Longrightarrow> fmdom' (mem_txs q) \<subseteq> fmdom' (mem_txs p)"
  using shrinksD(3) unfolding subset_iff fmdom'_Some by blast

lemma shrinks_sender_map:
  assumes "linked p" "shrinks p q" "fmlookup (sender_map q s) n = Some tid"
  shows "fmlookup (sender_map p s) n = Some tid"
proof -
  obtain t' where t': "fmlookup (mem_txs q) tid = Some t'" "pt_sender t' = s" "pt_nonce t' = n"
    using linkedD(3) [OF shrinksD(1) [OF assms(2)] assms(3)] by blast
  obtain t b where "fmlookup (mem_txs p) tid = Some t" "t' = t \<lparr> pt_executable := b \<rparr>"
    using shrinksD(3) [OF assms(2) t'(1)] by blast
  then show ?thesis using linkedD(2) [OF assms(1), of tid t] t'(2,3) by simp
qed

lemma shrinks_sizes:
  assumes "linked p" "shrinks p q"
  shows "mempool_len q \<le> mempool_len p" "mem_total_bytes q \<le> mem_total_bytes p" "sender_len q s \<le> sender_len p s"
proof -
  show "mempool_len q \<le> mempool_len p"
    unfolding mempool_len_def fcard_fmdom by (intro card_mono shrinks_dom assms) simp
  have "fmdom' (sender_map q s) \<subseteq> fmdom' (sender_map p s)"
    using shrinks_sender_map [OF assms] unfolding subset_iff fmdom'_Some by blast
  then show "sender_len q s \<le> sender_len p s" unfolding sender_len_def fcard_fmdom by (intro card_mono) simp_all
  show "mem_total_bytes q \<le> mem_total_bytes p"
    unfolding linkedD(4) [OF assms(1)] linkedD(4) [OF shrinksD(1) [OF assms(2)]]
    by (intro pool_bytes_mono) (use shrinksD(3) [OF assms(2)] in fastforce)
qed

lemma shrinks_drop:
  assumes "linked q" "mem_params q = mem_params p" "mem_txs q = fmdrop tid (mem_txs p)"
  shows "shrinks p q"
  unfolding shrinks_def
proof (intro conjI allI impI assms)
  fix i t' assume "fmlookup (mem_txs q) i = Some t'"
  then have "fmlookup (mem_txs p) i = Some t'" by (auto simp: assms split: if_splits)
  then show "\<exists>t b. fmlookup (mem_txs p) i = Some t \<and> t' = t \<lparr> pt_executable := b \<rparr>"
    by (intro exI [of _ t'] exI [of _ "pt_executable t'"]) simp
qed

lemma pool_remove_shrinks:
  assumes "linked p"
  obtains q where "pool_remove p tid = Some (fmlookup (mem_txs p) tid, q)" "shrinks p q"
    "mem_txs q = fmdrop tid (mem_txs p)"
proof (cases "fmlookup (mem_txs p) tid")
  case None
  then have "fmdrop tid (mem_txs p) = mem_txs p" by (intro fmap_ext) auto
  then show ?thesis using that None shrinks_refl [OF assms] by simp
next
  case (Some t)
  show ?thesis using pool_remove_linked [OF assms Some] that Some shrinks_drop by metis
qed

section \<open>What a sender has pooled\<close>

definition tx_outlay :: "pool_tx \<Rightarrow> nat" where
  "tx_outlay t = unat (pt_amount t) + unat (pt_fee t)"

definition outlay_of :: "mempool \<Rightarrow> address \<Rightarrow> nat" where
  "outlay_of p s = (\<Sum>tid \<in> {tid \<in> fmdom' (mem_txs p). pt_sender (the (fmlookup (mem_txs p) tid)) = s}.
     tx_outlay (the (fmlookup (mem_txs p) tid)))"

lemma tx_outlay_flag [simp]: "tx_outlay (t \<lparr> pt_executable := b \<rparr>) = tx_outlay t"
  by (simp add: tx_outlay_def)

lemma shrinks_lookup:
  assumes "shrinks p q" "tid \<in> fmdom' (mem_txs q)"
  shows "tid \<in> fmdom' (mem_txs p)" "pt_sender (the (fmlookup (mem_txs q) tid)) = pt_sender (the (fmlookup (mem_txs p) tid))"
    "tx_outlay (the (fmlookup (mem_txs q) tid)) = tx_outlay (the (fmlookup (mem_txs p) tid))"
proof -
  obtain t' where "fmlookup (mem_txs q) tid = Some t'" using assms(2) unfolding fmdom'_Some by blast
  moreover from this obtain t b where "fmlookup (mem_txs p) tid = Some t" "t' = t \<lparr> pt_executable := b \<rparr>"
    using shrinksD(3) [OF assms(1)] by blast
  ultimately show "tid \<in> fmdom' (mem_txs p)" "pt_sender (the (fmlookup (mem_txs q) tid)) = pt_sender (the (fmlookup (mem_txs p) tid))"
    "tx_outlay (the (fmlookup (mem_txs q) tid)) = tx_outlay (the (fmlookup (mem_txs p) tid))"
    by (simp_all add: fmdom'_Some)
qed

lemma shrinks_outlay_eq:
  assumes "shrinks p q"
  shows "outlay_of q s = (\<Sum>tid \<in> {tid \<in> fmdom' (mem_txs q). pt_sender (the (fmlookup (mem_txs p) tid)) = s}.
     tx_outlay (the (fmlookup (mem_txs p) tid)))"
  unfolding outlay_of_def using shrinks_lookup [OF assms] by (intro sum.cong) auto

lemma shrinks_outlay: "shrinks p q \<Longrightarrow> outlay_of q s \<le> outlay_of p s"
  unfolding shrinks_outlay_eq outlay_of_def [of p] by (intro sum_mono2) (use shrinks_lookup(1) in auto)

lemma shrinks_outlay_drop:
  assumes "shrinks p q" "fmlookup (mem_txs p) tid = Some t" "pt_sender t = s" "fmlookup (mem_txs q) tid = None"
  shows "outlay_of q s + tx_outlay t \<le> outlay_of p s"
proof -
  let ?A = "\<lambda>r. {i \<in> fmdom' (mem_txs r). pt_sender (the (fmlookup (mem_txs p) i)) = s}"
  have "tid \<notin> ?A q" using assms(4) by (simp add: fmlookup_dom'_iff)
  then have "outlay_of q s + tx_outlay t = (\<Sum>i \<in> insert tid (?A q). tx_outlay (the (fmlookup (mem_txs p) i)))"
    unfolding shrinks_outlay_eq [OF assms(1)] using assms(2) by simp
  also have "insert tid (?A q) \<subseteq> ?A p"
    using shrinks_lookup(1) [OF assms(1)] assms(2,3) by (auto simp: fmlookup_dom'_iff)
  then have "(\<Sum>i \<in> insert tid (?A q). tx_outlay (the (fmlookup (mem_txs p) i))) \<le> outlay_of p s"
    unfolding outlay_of_def by (intro sum_mono2) simp_all
  finally show ?thesis .
qed

lemma outlay_insert:
  assumes "fmlookup (mem_txs p) (pt_txid t) = None"
  shows "outlay_of (pool_insert p t) s = outlay_of p s + (if s = pt_sender t then tx_outlay t else 0)"
proof -
  let ?f = "\<lambda>i. tx_outlay (the (fmlookup (fmupd (pt_txid t) t (mem_txs p)) i))"
  let ?A = "{i \<in> fmdom' (mem_txs p). pt_sender (the (fmlookup (mem_txs p) i)) = s}"
  have n: "pt_txid t \<notin> fmdom' (mem_txs p)" using assms by (simp add: fmlookup_dom'_iff)
  have "{i \<in> fmdom' (mem_txs (pool_insert p t)). pt_sender (the (fmlookup (mem_txs (pool_insert p t)) i)) = s} =
      (if s = pt_sender t then insert (pt_txid t) ?A else ?A)" using n by (auto split: if_splits)
  moreover have "sum ?f ?A = outlay_of p s" unfolding outlay_of_def using n by (intro sum.cong) auto
  ultimately show ?thesis using n unfolding outlay_of_def [of "pool_insert p t"] by (cases "s = pt_sender t") simp_all
qed

lemma foldl_saturating: "unat (foldl saturating_add a xs) = min (2 ^ 128 - 1) (unat a + sum_list (map unat xs))" for a :: u128
proof (induction xs arbitrary: a)
  case Nil
  have "unat a < 2 ^ 128" using unsigned_less [of a] by simp
  then show ?case by simp
next
  case (Cons x xs)
  show ?case unfolding foldl_Cons Cons.IH by (simp add: unat_saturating_add)
qed

lemma sender_txs_eq:
  assumes "linked p"
  shows "sender_txs p s = map (\<lambda>(_, tid). the (fmlookup (mem_txs p) tid)) (fm_entries (sender_map p s))"
proof -
  have "\<exists>t. fmlookup (mem_txs p) (snd x) = Some t" if "x \<in> set (fm_entries (sender_map p s))" for x
    using that linkedD(3) [OF assms, of s "fst x" "snd x"] unfolding fm_entries_set by force
  then have "List.map_filter (\<lambda>(_, tid). fmlookup (mem_txs p) tid) xs = map (\<lambda>(_, tid). the (fmlookup (mem_txs p) tid)) xs"
    if "set xs \<subseteq> set (fm_entries (sender_map p s))" for xs
    using that by (induction xs) (fastforce simp: List.map_filter_def)+
  then show ?thesis by (simp add: sender_txs_def)
qed

lemma outlay_of_entries:
  assumes "linked p"
  shows "outlay_of p s = sum_list (map tx_outlay (sender_txs p s))"
proof -
  let ?xs = "fm_entries (sender_map p s)"
  have entry: "\<exists>t. fmlookup (mem_txs p) (snd x) = Some t \<and> pt_sender t = s \<and> pt_nonce t = fst x" if "x \<in> set ?xs" for x
    using that linkedD(3) [OF assms, of s "fst x" "snd x"] unfolding fm_entries_set by force
  have d: "distinct ?xs" using fm_entries_sorted(2) distinct_map by blast
  have inj: "inj_on snd (set ?xs)"
  proof (rule inj_onI)
    fix x y assume "x \<in> set ?xs" "y \<in> set ?xs" "snd x = snd y"
    then show "x = y" using entry [of x] entry [of y] by (simp add: prod_eq_iff) auto
  qed
  have img: "snd ` set ?xs = {tid \<in> fmdom' (mem_txs p). pt_sender (the (fmlookup (mem_txs p) tid)) = s}"
  proof (intro set_eqI iffI)
    fix tid assume "tid \<in> snd ` set ?xs"
    then show "tid \<in> {tid \<in> fmdom' (mem_txs p). pt_sender (the (fmlookup (mem_txs p) tid)) = s}"
      using entry by (force simp: fmdom'_Some)
  next
    fix tid assume "tid \<in> {tid \<in> fmdom' (mem_txs p). pt_sender (the (fmlookup (mem_txs p) tid)) = s}"
    then obtain t where t: "fmlookup (mem_txs p) tid = Some t" "pt_sender t = s" by (auto simp: fmdom'_Some)
    then have "(pt_nonce t, tid) \<in> set ?xs" using linkedD(2) [OF assms t(1)] by (simp add: fm_entries_set)
    then show "tid \<in> snd ` set ?xs" by force
  qed
  have "sum_list (map tx_outlay (sender_txs p s)) = (\<Sum>x \<in> set ?xs. tx_outlay (the (fmlookup (mem_txs p) (snd x))))"
    unfolding sender_txs_eq [OF assms] map_map comp_def case_prod_beta by (rule sum_list_distinct_conv_sum_set [OF d])
  also have "\<dots> = outlay_of p s" unfolding outlay_of_def img [symmetric] by (simp add: sum.reindex [OF inj])
  finally show ?thesis by simp
qed

lemma sum_list_min: "min (c::nat) (sum_list (map (\<lambda>x. min c (f x)) xs)) = min c (sum_list (map f xs))"
  by (induction xs) auto

lemma pending_outlay_val:
  assumes "linked p"
  shows "unat (pending_outlay p s) = min (2 ^ 128 - 1) (outlay_of p s)"
proof -
  have "unat (saturating_add (pt_amount t) (pt_fee t)) = min (2 ^ 128 - 1) (tx_outlay t)" for t
    by (simp add: unat_saturating_add tx_outlay_def)
  then show ?thesis
    unfolding pending_outlay_def foldl_saturating outlay_of_entries [OF assms]
    using sum_list_min [of "2 ^ 128 - 1" tx_outlay "sender_txs p s"] by (simp add: comp_def)
qed

end
