(* ===== verification/Mempool_Runs.thy ===== *)
theory Mempool_Runs
  imports Mempool_Index
begin

text \<open>
  The executable run of every sender, the end of the eviction loop, and the invariant of the
  transaction pool under every sequence of its operations.
\<close>

section \<open>Recomputing a run\<close>

lemma in_run_mono: "in_run a D n \<Longrightarrow> a \<le> m \<Longrightarrow> m \<le> n \<Longrightarrow> in_run a D m"
  by (auto simp: in_run_def)

lemma in_run_remove:
  assumes "in_run a D n" "\<not> in_run a D m \<or> n < m"
  shows "in_run a (D - {m}) n"
  using assms in_run_mono [OF assms(1), of m] unfolding in_run_def by auto

lemma in_run_subset: "in_run a D n \<Longrightarrow> D \<subseteq> E \<Longrightarrow> in_run a E n"
  by (auto simp: in_run_def)

lemma in_run_hit:
  assumes "n \<noteq> -1" "\<And>k. k \<in> D \<Longrightarrow> n < k" "m \<in> D"
  shows "in_run n (insert n D) m \<longleftrightarrow> in_run (n + 1) D m"
proof -
  have "1 + n \<noteq> 0" using assms(1) by (metis add_eq_0_iff)
  then have le: "n + 1 \<le> k \<longleftrightarrow> n < k" for k
    using unatSuc [of n] by (simp add: word_le_nat_alt word_less_nat_alt add.commute Suc_le_eq)
  show ?thesis using assms(2) [OF assms(3)] unfolding in_run_def le by (auto simp: order.strict_iff_order)
qed

lemma in_run_gap:
  assumes "n \<noteq> a" "\<And>k. k \<in> D \<Longrightarrow> n < k" "a \<le> n"
  shows "\<not> in_run a (insert n D) m"
proof
  assume "in_run a (insert n D) m"
  then have "a \<in> insert n D" unfolding in_run_def by blast
  then show False using assms(1) assms(2) [of a] assms(3) by auto
qed

lemma in_run_miss:
  assumes "n \<noteq> a" "\<And>k. k \<in> D \<Longrightarrow> n < k"
  shows "in_run a (insert n D) m \<longleftrightarrow> in_run a D m"
proof (cases "a \<le> n")
  case True
  then show ?thesis using in_run_gap [OF assms True] in_run_subset [of a D m "insert n D"] by blast
next
  case False
  then show ?thesis unfolding in_run_def by auto
qed

lemma in_run_head:
  assumes "\<And>k. k \<in> D \<Longrightarrow> n < k"
  shows "in_run a (insert n D) n \<longleftrightarrow> n = a"
  using in_run_gap [of n a D n] assms unfolding in_run_def by auto

lemma checked_add_one: "n \<noteq> -1 \<Longrightarrow> checked_add n 1 = Some (n + 1)" for n :: u64
proof -
  assume "n \<noteq> -1"
  then have "1 + n \<noteq> 0" by (metis add_eq_0_iff)
  then have "unat n < 18446744073709551615" using unatSuc [of n] unat_u64_lt [of "1 + n"] by simp
  then show ?thesis by (simp add: checked_add_def)
qed

lemma resplit_loop_spec:
  assumes "sorted (map fst xs)" "distinct (map fst xs)" "distinct (map snd xs)"
    and "\<And>n tid. (n, tid) \<in> set xs \<Longrightarrow> n \<noteq> -1 \<and> fmlookup (mem_txs p) tid \<noteq> None"
  shows "\<exists>pr txs. resplit_loop xs want promoted p = Some (pr, p \<lparr> mem_txs := txs \<rparr>) \<and>
    (\<forall>n tid. (n, tid) \<in> set xs \<longrightarrow>
       fmlookup txs tid = map_option (\<lambda>t. t \<lparr> pt_executable := in_run want (fst ` set xs) n \<rparr>) (fmlookup (mem_txs p) tid)) \<and>
    (\<forall>tid. tid \<notin> snd ` set xs \<longrightarrow> fmlookup txs tid = fmlookup (mem_txs p) tid)"
  using assms
proof (induction xs arbitrary: want promoted p)
  case Nil
  then show ?case by (intro exI [of _ promoted] exI [of _ "mem_txs p"]) simp
next
  case (Cons x xs)
  obtain n tid where x: "x = (n, tid)" by fastforce
  obtain t where t: "fmlookup (mem_txs p) tid = Some t" using Cons.prems(4) [of n tid] x by auto
  define p' where "p' = p \<lparr> mem_txs := fmupd tid (t \<lparr> pt_executable := n = want \<rparr>) (mem_txs p) \<rparr>"
  define want' where "want' = (if n = want then want + 1 else want)"
  have max: "n \<noteq> -1" using Cons.prems(4) x by auto
  have "\<forall>k \<in> fst ` set xs. n \<le> k" "n \<notin> fst ` set xs" using Cons.prems(1,2) x by simp_all
  then have above: "n < k" if "k \<in> fst ` set xs" for k using that by (metis order.strict_iff_order)
  have step: "resplit_loop (x # xs) want promoted p =
      resplit_loop xs want' (if n = want \<and> \<not> pt_executable t then promoted @ [tid] else promoted) p'"
    using t checked_add_one [OF max] by (cases "n = want") (simp_all add: x p'_def want'_def Let_def)
  have "\<exists>pr txs. resplit_loop xs want' (if n = want \<and> \<not> pt_executable t then promoted @ [tid] else promoted) p'
        = Some (pr, p' \<lparr> mem_txs := txs \<rparr>) \<and>
      (\<forall>n tid. (n, tid) \<in> set xs \<longrightarrow>
         fmlookup txs tid = map_option (\<lambda>t. t \<lparr> pt_executable := in_run want' (fst ` set xs) n \<rparr>) (fmlookup (mem_txs p') tid)) \<and>
      (\<forall>tid. tid \<notin> snd ` set xs \<longrightarrow> fmlookup txs tid = fmlookup (mem_txs p') tid)"
    using Cons.prems by (intro Cons.IH) (auto simp: p'_def)
  then obtain pr txs where r: "resplit_loop (x # xs) want promoted p = Some (pr, p \<lparr> mem_txs := txs \<rparr>)"
    and in_xs: "\<And>m i. (m, i) \<in> set xs \<Longrightarrow>
         fmlookup txs i = map_option (\<lambda>t. t \<lparr> pt_executable := in_run want' (fst ` set xs) m \<rparr>) (fmlookup (mem_txs p') i)"
    and not_in: "\<And>i. i \<notin> snd ` set xs \<Longrightarrow> fmlookup txs i = fmlookup (mem_txs p') i"
    unfolding step by (auto simp: p'_def)
  have tid: "tid \<notin> snd ` set xs" using Cons.prems(3) x by auto
  have flag: "in_run want' (fst ` set xs) m \<longleftrightarrow> in_run want (insert n (fst ` set xs)) m" if "m \<in> fst ` set xs" for m
    using in_run_hit [OF max above that] in_run_miss [of n want "fst ` set xs" m] above by (auto simp: want'_def)
  have head: "in_run want (insert n (fst ` set xs)) n \<longleftrightarrow> n = want" using in_run_head above by blast
  have "fmlookup txs i = map_option (\<lambda>t. t \<lparr> pt_executable := in_run want (fst ` set (x # xs)) m \<rparr>) (fmlookup (mem_txs p) i)"
    if "(m, i) \<in> set (x # xs)" for m i
  proof (cases "(m, i) = x")
    case True
    then show ?thesis using not_in [OF tid] t head by (simp add: x p'_def)
  next
    case False
    then have mi: "(m, i) \<in> set xs" using that by simp
    then have "i \<noteq> tid" using tid by force
    moreover have "m \<in> fst ` set xs" using mi by force
    ultimately show ?thesis using in_xs [OF mi] flag by (simp add: x p'_def)
  qed
  moreover have "fmlookup txs i = fmlookup (mem_txs p) i" if "i \<notin> snd ` set (x # xs)" for i
    using that not_in [of i] by (auto simp: x p'_def)
  ultimately show ?case using r by blast
qed

text \<open>The two pools hold the same transactions of a sender.\<close>

definition same_for :: "mempool \<Rightarrow> mempool \<Rightarrow> address \<Rightarrow> bool" where
  "same_for p q s \<longleftrightarrow> (\<forall>tid t. pt_sender t = s \<longrightarrow>
     (fmlookup (mem_txs q) tid = Some t \<longleftrightarrow> fmlookup (mem_txs p) tid = Some t))"

lemma same_for_refl [simp]: "same_for p p s" by (simp add: same_for_def)

lemma same_for_trans: "same_for p q s \<Longrightarrow> same_for q r s \<Longrightarrow> same_for p r s"
  unfolding same_for_def by blast

lemma same_for_sender_dom:
  assumes "linked p" "linked q" "same_for p q s"
  shows "fmdom' (sender_map q s) = fmdom' (sender_map p s)"
  unfolding sender_dom [OF assms(1)] sender_dom [OF assms(2)] using assms(3) unfolding same_for_def by blast

lemma same_for_run_ok:
  assumes "linked p" "linked q" "same_for p q s" "run_ok p s"
  shows "run_ok q s"
  using assms(3,4) unfolding run_ok_def run_from_def same_for_sender_dom [OF assms(1-3)] same_for_def by blast

lemma shrinks_nonces_small: "shrinks p q \<Longrightarrow> nonces_small p \<Longrightarrow> nonces_small q"
  unfolding nonces_small_def using shrinksD(3) by fastforce

lemma linked_same_index:
  assumes "linked p" "fmdom' txs = fmdom' (mem_txs p)"
    "\<And>tid t'. fmlookup txs tid = Some t' \<Longrightarrow> \<exists>t b. fmlookup (mem_txs p) tid = Some t \<and> t' = t \<lparr> pt_executable := b \<rparr>"
  shows "linked (p \<lparr> mem_txs := txs \<rparr>)" (is "linked ?q")
proof (rule linkedI)
  fix tid t' assume "fmlookup (mem_txs ?q) tid = Some t'"
  then have "fmlookup txs tid = Some t'" by simp
  then obtain t b where t: "fmlookup (mem_txs p) tid = Some t" "t' = t \<lparr> pt_executable := b \<rparr>" using assms(3) by blast
  then show "pt_txid t' = tid \<and> fmlookup (sender_map ?q (pt_sender t')) (pt_nonce t') = Some tid"
    using linkedD(1,2) [OF assms(1) t(1)] by simp
next
  fix s n tid assume "fmlookup (sender_map ?q s) n = Some tid"
  then have "fmlookup (sender_map p s) n = Some tid" by simp
  then obtain t where t: "fmlookup (mem_txs p) tid = Some t" "pt_sender t = s" "pt_nonce t = n"
    using linkedD(3) [OF assms(1)] by blast
  then obtain t' where t': "fmlookup txs tid = Some t'" using assms(2) by (metis fmdom'_Some)
  then show "\<exists>t. fmlookup (mem_txs ?q) tid = Some t \<and> pt_sender t = s \<and> pt_nonce t = n" using assms(3) [OF t'] t by auto
next
  have "pool_bytes txs \<le> pool_bytes (mem_txs p)" by (intro pool_bytes_mono) (use assms(3) in fastforce)
  moreover have "pool_bytes (mem_txs p) \<le> pool_bytes txs"
  proof (intro pool_bytes_mono)
    fix tid t assume t: "fmlookup (mem_txs p) tid = Some t"
    then obtain t' where t': "fmlookup txs tid = Some t'" using assms(2) by (metis fmdom'_Some)
    then show "\<exists>t'. fmlookup txs tid = Some t' \<and> pt_bytes t = pt_bytes t'" using assms(3) [OF t'] t by auto
  qed
  ultimately show "mem_total_bytes ?q = pool_bytes (mem_txs ?q)" using linkedD(4) [OF assms(1)] by simp
qed (use assms(1,2) in \<open>simp_all add: linked_def\<close>)

lemma resplit_ok:
  assumes p: "linked p" and small: "nonces_small p"
  obtains pr q where "resplit p s start = Some (pr, q)" "shrinks p q" "run_from q s start"
    "fmdom' (mem_txs q) = fmdom' (mem_txs p)" "\<forall>s'. s' \<noteq> s \<longrightarrow> same_for p q s'"
    "mem_by_sender q = mem_by_sender p"
proof (cases "fmlookup (mem_by_sender p) s")
  case None
  then have "sender_map p s = fmempty" by (simp add: sender_map_def)
  then have "run_from p s start" using linkedD(2) [OF p] by (fastforce simp: run_from_def)
  moreover have "resplit p s start = Some ([], p)" by (simp add: resplit_def None)
  ultimately show ?thesis using that shrinks_refl [OF p] by simp
next
  case (Some m)
  then have m: "sender_map p s = m" by (simp add: sender_map_def)
  let ?xs = "fm_entries m"
  have entry: "\<exists>t. fmlookup (mem_txs p) (snd x) = Some t \<and> pt_sender t = s \<and> pt_nonce t = fst x" if "x \<in> set ?xs" for x
    using that linkedD(3) [OF p, of s "fst x" "snd x"] unfolding fm_entries_set m by force
  have inj: "inj_on snd (set ?xs)"
  proof (rule inj_onI)
    fix x y assume "x \<in> set ?xs" "y \<in> set ?xs" "snd x = snd y"
    then show "x = y" using entry [of x] entry [of y] by (simp add: prod_eq_iff) auto
  qed
  then have "distinct (map snd ?xs)" using fm_entries_sorted(2) [of m] by (simp add: distinct_map)
  moreover have "n \<noteq> -1 \<and> fmlookup (mem_txs p) tid \<noteq> None" if "(n, tid) \<in> set ?xs" for n tid
    using entry [OF that] small unfolding nonces_small_def by auto
  ultimately obtain pr txs where r: "resplit_loop ?xs start [] p = Some (pr, p \<lparr> mem_txs := txs \<rparr>)"
    and hit: "\<And>n tid. (n, tid) \<in> set ?xs \<Longrightarrow>
      fmlookup txs tid = map_option (\<lambda>t. t \<lparr> pt_executable := in_run start (fst ` set ?xs) n \<rparr>) (fmlookup (mem_txs p) tid)"
    and miss: "\<And>tid. tid \<notin> snd ` set ?xs \<Longrightarrow> fmlookup txs tid = fmlookup (mem_txs p) tid"
    using resplit_loop_spec [OF fm_entries_sorted, of m p start "[]"] by blast
  have keys: "fst ` set ?xs = fmdom' m" by (force simp: fm_entries_set image_iff fmdom'_Some)
  have look: "fmlookup txs tid = map_option (\<lambda>t. if pt_sender t = s
      then t \<lparr> pt_executable := in_run start (fmdom' m) (pt_nonce t) \<rparr> else t) (fmlookup (mem_txs p) tid)" for tid
  proof (cases "fmlookup (mem_txs p) tid")
    case None
    then have "tid \<notin> snd ` set ?xs" using entry by force
    then show ?thesis using None miss by simp
  next
    case (Some t)
    show ?thesis
    proof (cases "pt_sender t = s")
      case True
      then have "(pt_nonce t, tid) \<in> set ?xs" using linkedD(2) [OF p Some] by (simp add: fm_entries_set m)
      then show ?thesis using hit Some True by (simp add: keys)
    next
      case False
      then have "tid \<notin> snd ` set ?xs" using entry Some by force
      then show ?thesis using miss Some False by simp
    qed
  qed
  have shape: "\<exists>t. fmlookup (mem_txs p) tid = Some t \<and> pt_sender t' = pt_sender t \<and>
      (if pt_sender t = s then t' = t \<lparr> pt_executable := in_run start (fmdom' m) (pt_nonce t) \<rparr> else t' = t)"
    if "fmlookup txs tid = Some t'" for tid t'
    using that look [of tid] by auto
  have sub: "\<exists>t b. fmlookup (mem_txs p) tid = Some t \<and> t' = t \<lparr> pt_executable := b \<rparr>" if "fmlookup txs tid = Some t'" for tid t'
    using shape [OF that] by (metis pool_tx.surjective pool_tx.update_convs(9))
  have dom: "fmdom' txs = fmdom' (mem_txs p)" by (auto simp: fmdom'_Some look)
  show ?thesis
  proof (rule that)
    show "resplit p s start = Some (pr, p \<lparr> mem_txs := txs \<rparr>)" by (simp add: resplit_def Some r)
    show "shrinks p (p \<lparr> mem_txs := txs \<rparr>)" unfolding shrinks_def using linked_same_index [OF p dom sub] sub by simp
    show "run_from (p \<lparr> mem_txs := txs \<rparr>) s start" using shape by (fastforce simp: run_from_def m)
    show "\<forall>s'. s' \<noteq> s \<longrightarrow> same_for p (p \<lparr> mem_txs := txs \<rparr>) s'"
      unfolding same_for_def
    proof (intro allI impI)
      fix s' tid and t :: pool_tx assume "s' \<noteq> s" "pt_sender t = s'"
      then show "fmlookup (mem_txs (p \<lparr> mem_txs := txs \<rparr>)) tid = Some t \<longleftrightarrow> fmlookup (mem_txs p) tid = Some t"
        using shape [of tid t] look [of tid] by auto
    qed
  qed (simp_all add: dom)
qed

section \<open>Removal and the runs\<close>

lemma drop_same_for:
  assumes "mem_txs q = fmdrop tid (mem_txs p)" "\<And>t. fmlookup (mem_txs p) tid = Some t \<Longrightarrow> pt_sender t \<noteq> s"
  shows "same_for p q s"
  using assms unfolding same_for_def by auto

lemma drop_run_ok:
  assumes p: "linked p" and q: "linked q" "mem_txs q = fmdrop tid (mem_txs p)" and run: "run_ok p s"
    and t: "fmlookup (mem_txs p) tid = Some t" "\<not> pt_executable t \<or> (\<forall>n \<in> fmdom' (sender_map p (pt_sender t)). n \<le> pt_nonce t)"
  shows "run_ok q s"
proof (cases "pt_sender t = s")
  case False
  then show ?thesis using same_for_run_ok [OF p q(1) drop_same_for [OF q(2)] run] t(1) by auto
next
  case True
  obtain start where run: "run_from p s start" using run unfolding run_ok_def by blast
  have txq: "fmlookup (mem_txs q) i = Some u \<longleftrightarrow> i \<noteq> tid \<and> fmlookup (mem_txs p) i = Some u" for i u by (simp add: q(2))
  have dom: "fmdom' (sender_map q s) \<subseteq> fmdom' (sender_map p s)"
    unfolding sender_dom [OF p] sender_dom [OF q(1)] txq by blast
  have keep: "fmdom' (sender_map p s) - {pt_nonce t} \<subseteq> fmdom' (sender_map q s)"
    unfolding sender_dom [OF p] sender_dom [OF q(1)] txq
  proof
    fix n assume "n \<in> {n. \<exists>i u. fmlookup (mem_txs p) i = Some u \<and> pt_sender u = s \<and> pt_nonce u = n} - {pt_nonce t}"
    then obtain i u where "fmlookup (mem_txs p) i = Some u" "pt_sender u = s" "pt_nonce u = n" "n \<noteq> pt_nonce t" by blast
    moreover from this have "i \<noteq> tid" using t(1) by auto
    ultimately show "n \<in> {n. \<exists>i u. (i \<noteq> tid \<and> fmlookup (mem_txs p) i = Some u) \<and> pt_sender u = s \<and> pt_nonce u = n}" by blast
  qed
  have "pt_executable u \<longleftrightarrow> in_run start (fmdom' (sender_map q s)) (pt_nonce u)"
    if u: "fmlookup (mem_txs q) i = Some u" "pt_sender u = s" for i u
  proof -
    have i: "i \<noteq> tid" "fmlookup (mem_txs p) i = Some u" using u(1) by (simp_all add: q(2) split: if_splits)
    then have ne: "pt_nonce u \<noteq> pt_nonce t"
      using linkedD(2) [OF p i(2)] linkedD(2) [OF p t(1)] True u(2) by auto
    have eu: "pt_executable u \<longleftrightarrow> in_run start (fmdom' (sender_map p s)) (pt_nonce u)"
      and et: "pt_executable t \<longleftrightarrow> in_run start (fmdom' (sender_map p s)) (pt_nonce t)"
      using run i(2) u(2) t(1) True unfolding run_from_def by blast+
    have "pt_nonce u \<in> fmdom' (sender_map p s)" using linkedD(2) [OF p i(2)] u(2) by (auto simp: fmdom'_Some)
    then have "\<not> in_run start (fmdom' (sender_map p s)) (pt_nonce t) \<or> pt_nonce u < pt_nonce t"
      using t(2) et True ne by (auto simp: order.strict_iff_order)
    then show ?thesis unfolding eu using in_run_remove in_run_subset [OF _ keep] in_run_subset [OF _ dom] by blast
  qed
  then show ?thesis unfolding run_ok_def run_from_def by blast
qed

section \<open>Eviction\<close>

lemma min_by_in: "min_by lt xs = Some x \<Longrightarrow> x \<in> set xs"
proof (cases xs)
  case (Cons y ys)
  have "foldl (\<lambda>m y. if lt y m then y else m) y ys \<in> set (y # ys)" by (induction ys arbitrary: y) auto
  then show "min_by lt xs = Some x \<Longrightarrow> x \<in> set xs" using Cons by auto
qed simp

lemma sorted_le_last: "sorted xs \<Longrightarrow> k \<in> set xs \<Longrightarrow> k \<le> last xs"
  by (induction xs) (auto simp: last_in_set)

lemma last_entry:
  assumes "m \<noteq> fmempty" "last (fm_entries m) = (n, tid)"
  shows "fmlookup m n = Some tid" "k \<in> fmdom' m \<Longrightarrow> k \<le> n"
proof -
  have ne: "fm_entries m \<noteq> []" using assms(1) by simp
  then show "fmlookup m n = Some tid" using last_in_set [OF ne] unfolding assms(2) fm_entries_set by simp
  assume "k \<in> fmdom' m"
  then have "k \<in> set (map fst (fm_entries m))" by (force simp: fm_entries_set image_iff fmdom'_Some)
  moreover have "last (map fst (fm_entries m)) = n" using ne assms(2) by (simp add: last_map)
  ultimately show "k \<le> n" using sorted_le_last [OF fm_entries_sorted(1) [of m]] by blast
qed

lemma eviction_candidate_ok:
  assumes p: "linked p" and c: "eviction_candidate p = Some (v, why)"
  obtains t where "fmlookup (mem_txs p) v = Some t"
    "\<not> pt_executable t \<or> (\<forall>n \<in> fmdom' (sender_map p (pt_sender t)). n \<le> pt_nonce t)"
proof (cases "min_by queued_less (filter (\<lambda>t. \<not> pt_executable t) (pool_values p))")
  case (Some t)
  then have "t \<in> set (pool_values p)" "\<not> pt_executable t" using min_by_in [OF Some] by auto
  moreover have "v = pt_txid t" using c Some by (simp add: eviction_candidate_def)
  ultimately show ?thesis using that linkedD(1) [OF p] unfolding pool_values_set by auto
next
  case None
  then obtain h :: pool_tx and m where h: "fmlookup (mem_by_sender p) (pt_sender h) = Some m" "fm_entries m \<noteq> []" "v = snd (last (fm_entries m))"
    using c by (auto simp: eviction_candidate_def bind_eq_Some_conv split: if_splits)
  then have m: "sender_map p (pt_sender h) = m" by (simp add: sender_map_def)
  obtain n where n: "last (fm_entries m) = (n, v)" using h(3) by (metis prod.collapse)
  obtain t where t: "fmlookup (mem_txs p) v = Some t" "pt_sender t = pt_sender h" "pt_nonce t = n"
    using linkedD(3) [OF p, of "pt_sender h" n v] last_entry(1) [OF _ n] h(2) m by auto
  then show ?thesis using that last_entry(2) [OF _ n] h(2) m by auto
qed

text \<open>What a run of the eviction loop leaves: the victims paid at most the newcomer's rate, nothing
  else left, and without a refusal there is room.\<close>

definition evicted :: "nat \<Rightarrow> u128 \<Rightarrow> mempool \<Rightarrow> bool \<Rightarrow> mempool \<Rightarrow> hash32 list \<Rightarrow> bool" where
  "evicted len fpb p refused q rem \<longleftrightarrow> shrinks p q \<and> (\<forall>s. run_ok p s \<longrightarrow> run_ok q s) \<and>
     (\<forall>tid. fmlookup (mem_txs q) tid = (if tid \<in> set rem then None else fmlookup (mem_txs p) tid)) \<and>
     (\<forall>tid \<in> set rem. \<exists>t. fmlookup (mem_txs p) tid = Some t \<and> fee_per_byte t \<le> fpb) \<and>
     (\<not> refused \<longrightarrow> mempool_len q < mp_max_txs (mem_params p) \<and> mem_total_bytes q + len \<le> mp_max_bytes (mem_params p))"

lemma evicted_step:
  assumes p: "linked p" and q: "linked q" "mem_params q = mem_params p" "mem_txs q = fmdrop v (mem_txs p)"
    and t: "fmlookup (mem_txs p) v = Some t" "\<not> pt_executable t \<or> (\<forall>n \<in> fmdom' (sender_map p (pt_sender t)). n \<le> pt_nonce t)"
    and fee: "fee_per_byte t \<le> fpb" and r: "evicted len fpb q refused r rem"
  shows "evicted len fpb p refused r (v # rem)"
proof -
  note r = r [unfolded evicted_def q(2)]
  have "shrinks p r" using shrinks_trans [OF shrinks_drop [OF q]] r by blast
  moreover have "\<forall>s. run_ok p s \<longrightarrow> run_ok r s" using r drop_run_ok [OF p q(1,3) _ t] by blast
  moreover have "\<forall>tid. fmlookup (mem_txs r) tid = (if tid \<in> set (v # rem) then None else fmlookup (mem_txs p) tid)"
    using r by (simp add: q(3))
  moreover have "\<exists>t. fmlookup (mem_txs p) tid = Some t \<and> fee_per_byte t \<le> fpb" if "tid \<in> set (v # rem)" for tid
  proof (cases "tid = v")
    case True
    then show ?thesis using t(1) fee by simp
  next
    case False
    then show ?thesis using that r q(3) by fastforce
  qed
  ultimately show ?thesis using r unfolding evicted_def by blast
qed

lemma evicted_none: "linked p \<Longrightarrow> refused \<or> mempool_len p < mp_max_txs (mem_params p) \<and>
    mem_total_bytes p + len \<le> mp_max_bytes (mem_params p) \<Longrightarrow> evicted len fpb p refused p []"
  using shrinks_refl by (auto simp: evicted_def)

lemma evict_loop_ok:
  assumes "linked p"
  shows "\<exists>refused q rem cs. evict_loop len fpb p removed conds = Some (refused, q, removed @ rem, conds @ cs) \<and>
    evicted len fpb p refused q rem"
  using assms
proof (induction "mempool_len p" arbitrary: p removed conds rule: less_induct)
  case less
  note p = less.prems
  show ?case
  proof (cases "mp_max_txs (mem_params p) \<le> mempool_len p \<or> mp_max_bytes (mem_params p) < mem_total_bytes p + len")
    case False
    then show ?thesis using evicted_none [OF p, of False]
      by (subst evict_loop.simps) (intro exI [of _ False] exI [of _ p] exI [of _ "[]"], auto)
  next
    case full: True
    have stop: ?thesis if "evict_loop len fpb p removed conds = Some (True, p, removed, conds)"
      using that evicted_none [OF p, of True] by (intro exI [of _ True] exI [of _ p] exI [of _ "[]"]) auto
    show ?thesis
    proof (cases "eviction_candidate p")
      case None
      then show ?thesis using full by (intro stop) (subst evict_loop.simps, simp)
    next
      case (Some c)
      obtain v why where c: "c = (v, why)" by fastforce
      obtain t where t: "fmlookup (mem_txs p) v = Some t"
        "\<not> pt_executable t \<or> (\<forall>n \<in> fmdom' (sender_map p (pt_sender t)). n \<le> pt_nonce t)"
        using eviction_candidate_ok [OF p] Some c by metis
      show ?thesis
      proof (cases "fpb < fee_per_byte t")
        case True
        then show ?thesis using full Some c t(1) by (intro stop) (subst evict_loop.simps, simp)
      next
        case False
        obtain q where q: "pool_remove p v = Some (Some t, q)" "linked q" "mem_params q = mem_params p"
          "mem_txs q = fmdrop v (mem_txs p)" using pool_remove_linked [OF p t(1)] .
        have step: "evict_loop len fpb p removed conds = evict_loop len fpb q (removed @ [v]) (conds @ [MempoolEvicted 1 why])"
          using full Some c t(1) False q(1) by (subst evict_loop.simps) simp
        have "mempool_len q < mempool_len p"
          unfolding mempool_len_def fcard_fmdom q(4) fmdom'_drop
          using t(1) by (intro card_Diff1_less) (simp_all add: fmdom'_Some)
        from less.hyps [OF this q(2), of "removed @ [v]" "conds @ [MempoolEvicted 1 why]"]
        obtain refused r rem cs where IH: "evict_loop len fpb q (removed @ [v]) (conds @ [MempoolEvicted 1 why]) =
            Some (refused, r, (removed @ [v]) @ rem, (conds @ [MempoolEvicted 1 why]) @ cs)"
          "evicted len fpb q refused r rem" by blast
        have "evicted len fpb p refused r (v # rem)"
          using evicted_step [OF p q(2-4) t _ IH(2)] False by simp
        moreover have "evict_loop len fpb p removed conds = Some (refused, r, removed @ v # rem, conds @ MempoolEvicted 1 why # cs)"
          using IH(1) step by simp
        ultimately show ?thesis by blast
      qed
    qed
  qed
qed

end
