(* ===== verification/Mempool_Safety.thy ===== *)
theory Mempool_Safety
  imports Mempool_Runs
begin

text \<open>
  Every operation of the transaction pool returns and keeps the invariant: the indices agree, the
  limits on transactions, bytes and transactions per sender hold, and the executable transactions
  of every sender form an unbroken run of nonces.
\<close>

section \<open>Operations on some senders\<close>

definition touches :: "address set \<Rightarrow> mempool \<Rightarrow> mempool \<Rightarrow> bool" where
  "touches A p q \<longleftrightarrow> shrinks p q \<and> (\<forall>s. s \<notin> A \<longrightarrow> same_for p q s)"

lemma touches_refl: "linked p \<Longrightarrow> touches A p p"
  by (simp add: touches_def shrinks_refl)

lemma touches_trans: "touches A p q \<Longrightarrow> touches B q r \<Longrightarrow> touches (A \<union> B) p r"
  unfolding touches_def using shrinks_trans same_for_trans by blast

lemma touches_mono: "touches A p q \<Longrightarrow> A \<subseteq> B \<Longrightarrow> touches B p q"
  unfolding touches_def by blast

lemma touches_linked: "touches A p q \<Longrightarrow> linked q"
  unfolding touches_def shrinks_def by blast

lemma touches_small: "touches A p q \<Longrightarrow> nonces_small p \<Longrightarrow> nonces_small q"
  unfolding touches_def using shrinks_nonces_small by blast

lemma touches_run_ok: "linked p \<Longrightarrow> touches A p q \<Longrightarrow> s \<notin> A \<Longrightarrow> run_ok p s \<Longrightarrow> run_ok q s"
  unfolding touches_def using same_for_run_ok shrinksD(1) by blast

lemma touches_next_nonce: "linked p \<Longrightarrow> touches A p (p \<lparr> mem_next_nonce := m \<rparr>)"
  using shrinks_refl [of p] by (simp add: touches_def shrinks_def same_for_def)

lemma touches_remove:
  assumes "linked p" "\<And>t. fmlookup (mem_txs p) tid = Some t \<Longrightarrow> pt_sender t \<in> A"
  obtains q where "pool_remove p tid = Some (fmlookup (mem_txs p) tid, q)" "touches A p q"
    "mem_txs q = fmdrop tid (mem_txs p)"
proof -
  obtain q where q: "pool_remove p tid = Some (fmlookup (mem_txs p) tid, q)" "shrinks p q"
    "mem_txs q = fmdrop tid (mem_txs p)" using pool_remove_shrinks [OF assms(1)] .
  have "same_for p q s" if "s \<notin> A" for s using assms(2) that by (intro drop_same_for [OF q(3)]) auto
  then have "touches A p q" using q(2) by (simp add: touches_def)
  then show ?thesis using that q(1,3) by blast
qed

lemma touches_resplit:
  assumes "linked p" "nonces_small p"
  obtains pr q where "resplit p s start = Some (pr, q)" "touches {s} p q" "run_ok q s"
    "fmdom' (mem_txs q) = fmdom' (mem_txs p)"
proof -
  obtain pr q where q: "resplit p s start = Some (pr, q)" "shrinks p q" "run_from q s start"
    "fmdom' (mem_txs q) = fmdom' (mem_txs p)" "\<forall>s'. s' \<noteq> s \<longrightarrow> same_for p q s'"
    "mem_by_sender q = mem_by_sender p"
    by (rule resplit_ok [OF assms, of s start])
  then have "touches {s} p q" "run_ok q s" by (auto simp: touches_def run_ok_def)
  then show ?thesis using that q(1,4) by blast
qed

section \<open>The loops\<close>

lemma remove_all_ok:
  assumes "linked p" "\<And>tid t. tid \<in> set ids \<Longrightarrow> fmlookup (mem_txs p) tid = Some t \<Longrightarrow> pt_sender t \<in> A"
  shows "\<exists>q. remove_all ids p = Some q \<and> touches A p q"
  using assms
proof (induction ids arbitrary: p)
  case Nil
  then show ?case by (simp add: touches_refl)
next
  case (Cons tid ids)
  obtain q where q: "pool_remove p tid = Some (fmlookup (mem_txs p) tid, q)" "touches A p q"
    "mem_txs q = fmdrop tid (mem_txs p)" using touches_remove [OF Cons.prems(1), of tid A] Cons.prems(2) by auto
  have "\<exists>r. remove_all ids q = Some r \<and> touches A q r"
    using Cons.prems(2) q(3) by (intro Cons.IH touches_linked [OF q(2)]) (auto split: if_splits)
  then show ?case using q(1) touches_trans [OF q(2)] by fastforce
qed

lemma drop_below_nonce_ok:
  assumes "linked p"
  obtains q where "drop_below_nonce p s start = Some q" "touches {s} p q"
proof -
  have "\<exists>q. remove_all (map snd (filter (\<lambda>(n, _). n < start) (fm_entries (sender_map p s)))) p = Some q \<and> touches {s} p q"
  proof (rule remove_all_ok [OF assms])
    fix tid t assume "tid \<in> set (map snd (filter (\<lambda>(n, _). n < start) (fm_entries (sender_map p s))))"
      and t: "fmlookup (mem_txs p) tid = Some t"
    then obtain n where "fmlookup (sender_map p s) n = Some tid" by (auto simp: fm_entries_set)
    then show "pt_sender t \<in> {s}" using linkedD(3) [OF assms] t by fastforce
  qed
  then show ?thesis using that unfolding drop_below_nonce_def by blast
qed

lemma sweep_remove_ok:
  assumes "linked p"
  shows "\<exists>ss q. sweep_remove ids senders p = Some (senders @ ss, q) \<and> touches (set ss) p q \<and>
    (\<forall>tid. fmlookup (mem_txs q) tid = (if tid \<in> set ids then None else fmlookup (mem_txs p) tid))"
  using assms
proof (induction ids arbitrary: p senders)
  case Nil
  then show ?case using touches_refl by auto
next
  case (Cons tid ids)
  define new where "new = (case fmlookup (mem_txs p) tid of None \<Rightarrow> [] | Some t \<Rightarrow> [pt_sender t])"
  obtain q where q: "pool_remove p tid = Some (fmlookup (mem_txs p) tid, q)" "touches (set new) p q"
    "mem_txs q = fmdrop tid (mem_txs p)"
    using touches_remove [OF Cons.prems, of tid "set new"] by (auto simp: new_def)
  obtain ss r where r: "sweep_remove ids (senders @ new) q = Some ((senders @ new) @ ss, r)" "touches (set ss) q r"
    "\<forall>i. fmlookup (mem_txs r) i = (if i \<in> set ids then None else fmlookup (mem_txs q) i)"
    using Cons.IH [OF touches_linked [OF q(2)], of "senders @ new"] by blast
  have "sweep_remove (tid # ids) senders p = sweep_remove ids (senders @ new) q"
    using q(1) by (simp add: new_def split: option.splits)
  moreover have "touches (set (new @ ss)) p r" using touches_trans [OF q(2) r(2)] by simp
  moreover have "\<forall>i. fmlookup (mem_txs r) i = (if i \<in> set (tid # ids) then None else fmlookup (mem_txs p) i)"
    using r(3) by (simp add: q(3))
  ultimately show ?case using r(1) by (metis append.assoc)
qed

lemma sweep_resplit_ok:
  assumes "linked p" "nonces_small p"
  shows "\<exists>q. sweep_resplit ss p = Some q \<and> touches (set ss) p q \<and> (\<forall>s \<in> set ss. run_ok q s) \<and>
    fmdom' (mem_txs q) = fmdom' (mem_txs p)"
  using assms
proof (induction ss arbitrary: p)
  case Nil
  then show ?case by (simp add: touches_refl)
next
  case (Cons s ss)
  define start where "start = (case fmlookup (mem_next_nonce p) s of Some n \<Rightarrow> n | None \<Rightarrow> 0)"
  obtain pr q where q: "resplit p s start = Some (pr, q)" "touches {s} p q" "run_ok q s"
    "fmdom' (mem_txs q) = fmdom' (mem_txs p)" using touches_resplit [OF Cons.prems, of s start] .
  obtain r where r: "sweep_resplit ss q = Some r" "touches (set ss) q r" "\<forall>s \<in> set ss. run_ok r s"
    "fmdom' (mem_txs r) = fmdom' (mem_txs q)"
    using Cons.IH [OF touches_linked [OF q(2)] touches_small [OF q(2) Cons.prems(2)]] by blast
  have "run_ok r s" using touches_run_ok [OF touches_linked [OF q(2)] r(2) _ q(3)] r(3) by blast
  moreover have "sweep_resplit (s # ss) p = Some r" using q(1) r(1) unfolding start_def by (simp add: Let_def)
  ultimately show ?case using touches_trans [OF q(2) r(2)] r(3,4) q(4) by simp
qed

lemma renonce_ok:
  assumes "linked p" "nonces_small p"
  shows "\<exists>q. renonce ss account_of p = Some q \<and> touches (set ss) p q \<and> (\<forall>s \<in> set ss. run_ok q s)"
  using assms
proof (induction ss arbitrary: p)
  case Nil
  then show ?case by (simp add: touches_refl)
next
  case (Cons s ss)
  define start where "start = ac_nonce (account_of s)"
  define p0 where "p0 = p \<lparr> mem_next_nonce := fmupd s start (mem_next_nonce p) \<rparr>"
  have t0: "touches {s} p p0" unfolding p0_def by (rule touches_next_nonce [OF Cons.prems(1)])
  obtain p1 where p1: "drop_below_nonce p0 s start = Some p1" "touches {s} p0 p1"
    using drop_below_nonce_ok [OF touches_linked [OF t0]] .
  have t1: "touches {s} p p1" using touches_trans [OF t0 p1(2)] by simp
  obtain pr q where q: "resplit p1 s start = Some (pr, q)" "touches {s} p1 q" "run_ok q s"
    using touches_resplit [OF touches_linked [OF t1] touches_small [OF t1 Cons.prems(2)], of s start] .
  have t2: "touches {s} p q" using touches_trans [OF t1 q(2)] by simp
  obtain r where r: "renonce ss account_of q = Some r" "touches (set ss) q r" "\<forall>s \<in> set ss. run_ok r s"
    using Cons.IH [OF touches_linked [OF t2] touches_small [OF t2 Cons.prems(2)]] by blast
  have "run_ok r s" using touches_run_ok [OF touches_linked [OF t2] r(2) _ q(3)] r(3) by blast
  moreover have "renonce (s # ss) account_of p = Some r"
    using p1(1) q(1) r(1) by (simp add: Let_def p0_def start_def)
  ultimately show ?case using touches_trans [OF t2 r(2)] r(3) by simp
qed

lemma remove_spent_ok:
  assumes "linked p"
  shows "\<exists>k q. remove_spent spent n p = Some (k, q) \<and> touches (fst ` set spent) p q"
  using assms
proof (induction spent arbitrary: n p)
  case Nil
  then show ?case by (simp add: touches_refl)
next
  case (Cons x spent)
  obtain s nonce where x: "x = (s, nonce)" by fastforce
  show ?case
  proof (cases "fmlookup (sender_map p s) nonce")
    case None
    obtain k q where "remove_spent spent n p = Some (k, q)" "touches (fst ` set spent) p q"
      using Cons.IH [OF Cons.prems, of n] by blast
    then show ?thesis using None touches_mono [of "fst ` set spent" p q "fst ` set (x # spent)"] by (auto simp: x)
  next
    case (Some tid)
    have "pt_sender t \<in> {s}" if "fmlookup (mem_txs p) tid = Some t" for t
      using linkedD(3) [OF Cons.prems Some] that by auto
    then obtain q where q: "pool_remove p tid = Some (fmlookup (mem_txs p) tid, q)" "touches {s} p q"
      using touches_remove [OF Cons.prems, of tid "{s}"] by metis
    obtain k r where r: "remove_spent spent (n + 1) q = Some (k, r)" "touches (fst ` set spent) q r"
      using Cons.IH [OF touches_linked [OF q(2)], of "n + 1"] by blast
    show ?thesis using Some q(1) r touches_trans [OF q(2) r(2)] by (auto simp: x)
  qed
qed

section \<open>The invariant\<close>

definition pool_bounded :: "mempool \<Rightarrow> bool" where
  "pool_bounded p \<longleftrightarrow> mempool_len p \<le> mp_max_txs (mem_params p) \<and>
     mem_total_bytes p \<le> mp_max_bytes (mem_params p) \<and>
     (\<forall>s. sender_len p s \<le> effective_per_sender (mem_params p)) \<and> (\<forall>s. outlay_of p s < 2 ^ 128)"

definition pool_ok :: "mempool \<Rightarrow> bool" where
  "pool_ok p \<longleftrightarrow> linked p \<and> nonces_small p \<and> (\<forall>s. run_ok p s) \<and> pool_bounded p"

lemma pool_okD: "pool_ok p \<Longrightarrow> linked p" "pool_ok p \<Longrightarrow> nonces_small p" "pool_ok p \<Longrightarrow> run_ok p s"
    "pool_ok p \<Longrightarrow> pool_bounded p"
  by (simp_all add: pool_ok_def)

lemma shrinks_bounded: "linked p \<Longrightarrow> shrinks p q \<Longrightarrow> pool_bounded p \<Longrightarrow> pool_bounded q"
  unfolding pool_bounded_def shrinksD(2)
  using shrinks_sizes [of p q] shrinks_outlay [of p q] order_trans order.strict_trans1 by meson

lemma touches_pool_ok:
  assumes "pool_ok p" "touches A p q" "\<And>s. s \<in> A \<Longrightarrow> run_ok q s"
  shows "pool_ok q"
proof -
  have "shrinks p q" using assms(2) unfolding touches_def by blast
  then show ?thesis
    using assms touches_run_ok [OF pool_okD(1) [OF assms(1)] assms(2)] shrinks_bounded shrinks_nonces_small shrinksD(1)
    unfolding pool_ok_def by blast
qed

lemma mempool_new_ok: "pool_ok (mempool_new params)"
proof -
  have "run_ok (mempool_new params) s" for s by (simp add: run_ok_def run_from_def mempool_new_def)
  moreover have "pool_bounded (mempool_new params)"
    by (simp add: pool_bounded_def mempool_new_def mempool_len_def sender_len_def sender_map_def outlay_of_def fcard.rep_eq)
  moreover have "nonces_small (mempool_new params)" by (simp add: nonces_small_def mempool_new_def)
  ultimately show ?thesis unfolding pool_ok_def using mempool_new_linked by blast
qed

lemma sweep_expired_ok:
  assumes "pool_ok p"
  obtains dead q A where "sweep_expired p now = Some (dead, q)" "pool_ok q" "touches A p q"
    "fmdom' (mem_txs q) = {tid. \<exists>t. fmlookup (mem_txs p) tid = Some t \<and>
       saturating_sub now (pt_arrived t) \<le> mp_ttl_secs (mem_params p)}"
proof -
  note p = pool_okD [OF assms]
  define dead where "dead = map pt_txid (filter (\<lambda>t. mp_ttl_secs (mem_params p) < saturating_sub now (pt_arrived t)) (pool_values p))"
  obtain ss q where q: "sweep_remove dead [] p = Some (ss, q)" "touches (set ss) p q"
    "\<forall>tid. fmlookup (mem_txs q) tid = (if tid \<in> set dead then None else fmlookup (mem_txs p) tid)"
    using sweep_remove_ok [OF p(1), of dead "[]"] by auto
  obtain r where r: "sweep_resplit (remdups_adj (sort ss)) q = Some r" "touches (set ss) q r" "\<forall>s \<in> set ss. run_ok r s"
    "fmdom' (mem_txs r) = fmdom' (mem_txs q)"
    using sweep_resplit_ok [OF touches_linked [OF q(2)] touches_small [OF q(2) p(2)], of "remdups_adj (sort ss)"] by auto
  have t: "touches (set ss) p r" using touches_trans [OF q(2) r(2)] by simp
  have dead: "tid \<in> set dead \<longleftrightarrow> mp_ttl_secs (mem_params p) < saturating_sub now (pt_arrived t)"
    if "fmlookup (mem_txs p) tid = Some t" for tid t
    using that linkedD(1) [OF p(1)] by (fastforce simp: dead_def pool_values_set)
  show ?thesis
  proof (rule that)
    show "sweep_expired p now = Some (dead, r)" using q(1) r(1) by (simp add: sweep_expired_def dead_def Let_def)
    show "pool_ok r" using touches_pool_ok [OF assms t] r(3) by blast
    show "fmdom' (mem_txs r) = {tid. \<exists>t. fmlookup (mem_txs p) tid = Some t \<and>
       saturating_sub now (pt_arrived t) \<le> mp_ttl_secs (mem_params p)}"
      (is "_ = ?alive")
    proof (rule set_eqI)
      fix tid show "tid \<in> fmdom' (mem_txs r) \<longleftrightarrow> tid \<in> ?alive"
        using dead [of tid] by (cases "fmlookup (mem_txs p) tid") (auto simp: r(4) fmdom'_Some q(3))
    qed
  qed (rule t)
qed

lemma touches_params: "touches A p q \<Longrightarrow> mem_params q = mem_params p"
  unfolding touches_def shrinks_def by blast

lemma on_block_connected_ok:
  assumes "pool_ok p"
  obtains n q where "on_block_connected p spent account_of = Some (n, q)" "pool_ok q" "mem_params q = mem_params p"
proof -
  note p = pool_okD [OF assms]
  obtain n q where q: "remove_spent spent 0 p = Some (n, q)" "touches (fst ` set spent) p q"
    using remove_spent_ok [OF p(1), of spent 0] by blast
  obtain r where r: "renonce (remdups_adj (sort (map fst spent))) account_of q = Some r" "touches (fst ` set spent) q r"
    "\<forall>s \<in> fst ` set spent. run_ok r s"
    using renonce_ok [OF touches_linked [OF q(2)] touches_small [OF q(2) p(2)], of "remdups_adj (sort (map fst spent))" account_of] by auto
  have t: "touches (fst ` set spent) p r" using touches_trans [OF q(2) r(2)] by simp
  then have "pool_ok r" using touches_pool_ok [OF assms] r(3) by blast
  then show ?thesis using that touches_params [OF t] q(1) r(1) by (simp add: on_block_connected_def)
qed

lemma resplit_all_ok:
  assumes "pool_ok p"
  obtains q where "resplit_all p account_of = Some q" "pool_ok q" "mem_params q = mem_params p"
proof -
  let ?ss = "map fst (fm_entries (mem_by_sender p))"
  obtain q where q: "renonce ?ss account_of p = Some q" "touches (set ?ss) p q" "\<forall>s \<in> set ?ss. run_ok q s"
    using renonce_ok [OF pool_okD(1) [OF assms] pool_okD(2) [OF assms], of ?ss account_of] by blast
  then have "pool_ok q" using touches_pool_ok [OF assms q(2)] by blast
  then show ?thesis using that q(1) touches_params [OF q(2)] by (simp add: resplit_all_def)
qed

section \<open>Admission\<close>

text \<open>What \<open>check\<close> establishes for \<open>commit\<close>.\<close>

definition displaced_outlay :: "mempool \<Rightarrow> prepared \<Rightarrow> nat" where
  "displaced_outlay p pr =
     (case pr_replaces pr of None \<Rightarrow> 0 | Some old \<Rightarrow> tx_outlay (the (fmlookup (mem_txs p) old)))"

definition needed_outlay :: "mempool \<Rightarrow> prepared \<Rightarrow> nat" where
  "needed_outlay p pr = outlay_of p (pr_sender pr) - displaced_outlay p pr + unat (pr_amount pr) + unat (pr_fee pr)"

definition prepared_ok :: "mempool \<Rightarrow> prepared \<Rightarrow> bool" where
  "prepared_ok p pr \<longleftrightarrow> fmlookup (mem_txs p) (pr_txid pr) = None \<and> pr_nonce pr \<noteq> -1 \<and>
     pr_replaces pr = fmlookup (sender_map p (pr_sender pr)) (pr_nonce pr) \<and>
     sender_len p (pr_sender pr) - (if pr_replaces pr = None then 0 else 1) < effective_per_sender (mem_params p) \<and>
     needed_outlay p pr < 2 ^ 128"

definition incoming_rate :: "prepared \<Rightarrow> u128" where
  "incoming_rate pr = pr_fee pr div of_nat (max (length (pr_raw pr)) 1)"

lemma insert_sizes:
  assumes "linked p" "fmlookup (mem_txs p) (pt_txid t) = None" "fmlookup (sender_map p (pt_sender t)) (pt_nonce t) = None"
  shows "mempool_len (pool_insert p t) = mempool_len p + 1"
    "mem_total_bytes (pool_insert p t) = mem_total_bytes p + length (pt_bytes t)"
    "sender_len (pool_insert p t) s = sender_len p s + (if s = pt_sender t then 1 else 0)"
proof -
  show "mem_total_bytes (pool_insert p t) = mem_total_bytes p + length (pt_bytes t)" by (simp add: pool_insert_def)
qed (use assms in \<open>simp_all add: mempool_len_def sender_len_def fcard_finsert_if fmlookup_dom_iff\<close>)

lemma insert_resplit_ok:
  assumes p: "linked p" "nonces_small p" "\<And>s. s \<noteq> pt_sender t \<Longrightarrow> run_ok p s" and t: "pt_nonce t \<noteq> -1"
    and new: "fmlookup (mem_txs p) (pt_txid t) = None" "fmlookup (sender_map p (pt_sender t)) (pt_nonce t) = None"
    and bnd: "pool_bounded (pool_insert p t)"
  obtains pr q where "resplit (pool_insert p t) (pt_sender t) start = Some (pr, q)" "pool_ok q"
    "shrinks (pool_insert p t) q" "fmdom' (mem_txs q) = insert (pt_txid t) (fmdom' (mem_txs p))"
proof -
  have l: "linked (pool_insert p t)" using pool_insert_linked [OF p(1) new] .
  have n: "nonces_small (pool_insert p t)" using p(2) t by (auto simp: nonces_small_def)
  have same: "same_for p (pool_insert p t) s" if "s \<noteq> pt_sender t" for s
    using that new(1) by (auto simp: same_for_def)
  obtain pr q where q: "resplit (pool_insert p t) (pt_sender t) start = Some (pr, q)" "touches {pt_sender t} (pool_insert p t) q"
    "run_ok q (pt_sender t)" "fmdom' (mem_txs q) = fmdom' (mem_txs (pool_insert p t))"
    using touches_resplit [OF l n] .
  have sh: "shrinks (pool_insert p t) q" using q(2) by (simp add: touches_def)
  have "run_ok q s" for s
  proof (cases "s = pt_sender t")
    case False
    then show ?thesis using same_for_run_ok [OF p(1) l same p(3)] touches_run_ok [OF l q(2), of s] by simp
  qed (use q(3) in simp)
  then have "pool_ok q"
    unfolding pool_ok_def using shrinksD(1) [OF sh] shrinks_nonces_small [OF sh n] shrinks_bounded [OF l sh bnd] by blast
  then show ?thesis using that q(1,4) sh by simp
qed

text \<open>The pool between the sweep and the eviction loop: the replaced transaction is out.\<close>

lemma displace_ok:
  assumes p: "pool_ok p" and pr: "prepared_ok p pr" and p1: "pool_ok p1" "touches A p p1"
  obtains displaced p2 where
    "(case pr_replaces pr of None \<Rightarrow> Some (None, p1) | Some old_id \<Rightarrow> pool_remove p1 old_id) = Some (displaced, p2)"
    "touches {pr_sender pr} p1 p2" "fmlookup (sender_map p2 (pr_sender pr)) (pr_nonce pr) = None"
    "\<forall>tid. fmlookup (mem_txs p2) tid = (if pr_replaces pr = Some tid then None else fmlookup (mem_txs p1) tid)"
    "\<forall>t. displaced = Some t \<longrightarrow> pr_replaces pr = Some (pt_txid t) \<and> fmlookup (mem_txs p1) (pt_txid t) = Some t \<and>
       pt_sender t = pr_sender pr \<and> pt_nonce t = pr_nonce pr"
    "displaced = None \<longrightarrow> (\<forall>tid. pr_replaces pr = Some tid \<longrightarrow> fmlookup (mem_txs p1) tid = None)"
proof -
  have lp: "linked p" and lp1: "linked p1" using p p1(1) by (simp_all add: pool_ok_def)
  have rep: "pr_replaces pr = fmlookup (sender_map p (pr_sender pr)) (pr_nonce pr)" using pr by (simp add: prepared_ok_def)
  have sh: "shrinks p p1" using p1(2) by (simp add: touches_def)
  have old: "pt_sender t = pr_sender pr \<and> pt_nonce t = pr_nonce pr"
    if tid: "pr_replaces pr = Some tid" "fmlookup (mem_txs p1) tid = Some t" for tid t
  proof -
    obtain u b where u: "fmlookup (mem_txs p) tid = Some u" "t = u \<lparr> pt_executable := b \<rparr>" using shrinksD(3) [OF sh tid(2)] by blast
    then show ?thesis using linkedD(3) [OF lp, of "pr_sender pr" "pr_nonce pr" tid] rep tid(1) by auto
  qed
  have free: "fmlookup (sender_map p2 (pr_sender pr)) (pr_nonce pr) = None"
    if t: "touches {pr_sender pr} p1 p2" and out: "\<And>tid. pr_replaces pr = Some tid \<Longrightarrow> fmlookup (mem_txs p2) tid = None" for p2
  proof (rule ccontr)
    assume "fmlookup (sender_map p2 (pr_sender pr)) (pr_nonce pr) \<noteq> None"
    then obtain tid where tid: "fmlookup (sender_map p2 (pr_sender pr)) (pr_nonce pr) = Some tid" by auto
    have "shrinks p p2" using shrinks_trans [OF sh] t by (simp add: touches_def)
    then have "pr_replaces pr = Some tid" using shrinks_sender_map [OF lp _ tid] rep by simp
    then show False using out [of tid] linkedD(3) [OF touches_linked [OF t] tid] by auto
  qed
  show ?thesis
  proof (cases "pr_replaces pr")
    case None
    show ?thesis using that [of None p1] None touches_refl [OF lp1] free [OF touches_refl [OF lp1]] by simp
  next
    case (Some old_id)
    obtain p2 where p2: "pool_remove p1 old_id = Some (fmlookup (mem_txs p1) old_id, p2)" "touches {pr_sender pr} p1 p2"
      "mem_txs p2 = fmdrop old_id (mem_txs p1)" using touches_remove [OF lp1, of old_id "{pr_sender pr}"] old [OF Some] by auto
    show ?thesis
      using that [of "fmlookup (mem_txs p1) old_id" p2] Some p2 free [OF p2(2)] old [OF Some] linkedD(1) [OF lp1] by simp
  qed
qed

text \<open>What \<open>commit\<close> does: a transaction leaves the pool only when it is expired, pays no more per byte
  than the newcomer, or is replaced by it; the newcomer is the only transaction that can enter.\<close>

definition commit_outcome :: "mempool \<Rightarrow> prepared \<Rightarrow> u64 \<Rightarrow> reject + admitted \<Rightarrow> mempool \<Rightarrow> bool" where
  "commit_outcome p pr now r q \<longleftrightarrow> pool_ok q \<and> mem_params q = mem_params p \<and>
     (\<forall>tid t. fmlookup (mem_txs p) tid = Some t \<and> fmlookup (mem_txs q) tid = None \<longrightarrow>
        mp_ttl_secs (mem_params p) < saturating_sub now (pt_arrived t) \<or> fee_per_byte t \<le> incoming_rate pr \<or>
        r \<noteq> Inl PoolFull \<and> pr_replaces pr = Some tid) \<and>
     (\<forall>tid. fmlookup (mem_txs q) tid \<noteq> None \<longrightarrow>
        fmlookup (mem_txs p) tid \<noteq> None \<or> r \<noteq> Inl PoolFull \<and> tid = pr_txid pr) \<and>
     (case r of
        Inl e \<Rightarrow> e = PoolFull
      | Inr ad \<Rightarrow> ad_txid ad = pr_txid pr \<and>
          fmlookup (mem_txs q) (pr_txid pr) = Some
            \<lparr> pt_txid = pr_txid pr, pt_sender = pr_sender pr, pt_nonce = pr_nonce pr, pt_fee = pr_fee pr,
              pt_amount = pr_amount pr, pt_bytes = pr_raw pr, pt_arrived = now, pt_sig_verified = True,
              pt_executable = ad_executable ad \<rparr> \<and>
          (\<forall>old. pr_replaces pr = Some old \<longrightarrow> fmlookup (mem_txs q) old = None) \<and>
          outlay_of q (pr_sender pr) \<le> needed_outlay p pr)"

lemma commit_insert_ok:
  assumes p: "linked p" "nonces_small p" "\<And>s. s \<noteq> pr_sender pr \<Longrightarrow> run_ok p s" and pr: "pr_nonce pr \<noteq> -1"
    and new: "fmlookup (mem_txs p) (pr_txid pr) = None" "fmlookup (sender_map p (pr_sender pr)) (pr_nonce pr) = None"
    and room: "mempool_len p < mp_max_txs (mem_params p)" "mem_total_bytes p + length (pr_raw pr) \<le> mp_max_bytes (mem_params p)"
      "sender_len p (pr_sender pr) < effective_per_sender (mem_params p)"
      "\<And>s. sender_len p s \<le> effective_per_sender (mem_params p)"
    and pay: "outlay_of p (pr_sender pr) + unat (pr_amount pr) + unat (pr_fee pr) < 2 ^ 128" "\<And>s. outlay_of p s < 2 ^ 128"
  obtains ad q where "commit_insert pr now removed p = Some (ad, q)" "pool_ok q" "mem_params q = mem_params p"
    "fmdom' (mem_txs q) = insert (pr_txid pr) (fmdom' (mem_txs p))" "ad_txid ad = pr_txid pr"
    "outlay_of q (pr_sender pr) \<le> outlay_of p (pr_sender pr) + unat (pr_amount pr) + unat (pr_fee pr)"
    "fmlookup (mem_txs q) (pr_txid pr) = Some
       \<lparr> pt_txid = pr_txid pr, pt_sender = pr_sender pr, pt_nonce = pr_nonce pr, pt_fee = pr_fee pr,
         pt_amount = pr_amount pr, pt_bytes = pr_raw pr, pt_arrived = now, pt_sig_verified = True,
         pt_executable = ad_executable ad \<rparr>"
proof -
  define pt where "pt = \<lparr> pt_txid = pr_txid pr, pt_sender = pr_sender pr, pt_nonce = pr_nonce pr, pt_fee = pr_fee pr,
      pt_amount = pr_amount pr, pt_bytes = pr_raw pr, pt_arrived = now, pt_sig_verified = True, pt_executable = False \<rparr>"
  define p' where "p' = p \<lparr> mem_next_nonce := fmupd (pr_sender pr) (pr_next pr) (mem_next_nonce p) \<rparr>"
  have t0: "touches {} p p'" unfolding p'_def by (rule touches_next_nonce [OF p(1)])
  have l: "linked p'" and n: "nonces_small p'" and r: "\<And>s. s \<noteq> pt_sender pt \<Longrightarrow> run_ok p' s"
    using touches_linked [OF t0] touches_small [OF t0 p(2)] touches_run_ok [OF p(1) t0] p(3) by (simp_all add: pt_def)
  have new': "fmlookup (mem_txs p') (pt_txid pt) = None" "fmlookup (sender_map p' (pt_sender pt)) (pt_nonce pt) = None"
    using new by (simp_all add: p'_def pt_def)
  have out: "outlay_of p' s = outlay_of p s" for s by (simp add: outlay_of_def p'_def)
  have "pool_bounded (pool_insert p' pt)"
    unfolding pool_bounded_def insert_sizes [OF l new'] outlay_insert [OF new'(1)] out using room pay
    by (auto simp: p'_def pt_def mempool_len_def sender_len_def tx_outlay_def)
  then obtain prm q where q: "resplit (pool_insert p' pt) (pt_sender pt) (pr_next pr) = Some (prm, q)" "pool_ok q"
    "shrinks (pool_insert p' pt) q" "fmdom' (mem_txs q) = insert (pt_txid pt) (fmdom' (mem_txs p'))"
    using insert_resplit_ok [OF l n r _ new', of "pr_next pr"] pr by (auto simp: pt_def)
  obtain u where u: "fmlookup (mem_txs q) (pr_txid pr) = Some u"
    using q(4) by (metis fmdom'_Some insertI1 pt_def pool_tx.select_convs(1))
  then obtain b where b: "u = pt \<lparr> pt_executable := b \<rparr>" using shrinksD(3) [OF q(3) u] by (auto simp: pt_def)
  show ?thesis
  proof (rule that [of "\<lparr> ad_txid = pr_txid pr, ad_executable = pt_executable u,
      ad_promoted = filter (\<lambda>tid. tid \<noteq> pr_txid pr) prm,
      ad_removed = (case pr_replaces pr of Some old_id \<Rightarrow> old_id # removed | None \<Rightarrow> removed) \<rparr>" q])
    show "commit_insert pr now removed p = Some (\<lparr> ad_txid = pr_txid pr, ad_executable = pt_executable u,
      ad_promoted = filter (\<lambda>tid. tid \<noteq> pr_txid pr) prm,
      ad_removed = (case pr_replaces pr of Some old_id \<Rightarrow> old_id # removed | None \<Rightarrow> removed) \<rparr>, q)"
      using q(1) u unfolding commit_insert_def Let_def pt_def p'_def by simp
    show "mem_params q = mem_params p" using shrinksD(2) [OF q(3)] by (simp add: p'_def)
    show "outlay_of q (pr_sender pr) \<le> outlay_of p (pr_sender pr) + unat (pr_amount pr) + unat (pr_fee pr)"
      using shrinks_outlay [OF q(3), of "pr_sender pr"] unfolding outlay_insert [OF new'(1)] out
      by (simp add: pt_def tx_outlay_def)
  qed (use q(2,4) u b in \<open>simp_all add: pt_def p'_def\<close>)
qed

lemma fee_per_byte_flag [simp]: "fee_per_byte (t \<lparr> pt_executable := b \<rparr>) = fee_per_byte t"
  by (simp add: fee_per_byte_def)

text \<open>The pool after the eviction loop of \<open>commit\<close>.\<close>

definition staged :: "mempool \<Rightarrow> prepared \<Rightarrow> u64 \<Rightarrow> mempool \<Rightarrow> bool" where
  "staged p pr now q \<longleftrightarrow> shrinks p q \<and> nonces_small q \<and> (\<forall>s. s \<noteq> pr_sender pr \<longrightarrow> run_ok q s) \<and>
     fmlookup (sender_map q (pr_sender pr)) (pr_nonce pr) = None \<and> fmlookup (mem_txs q) (pr_txid pr) = None \<and>
     (\<forall>tid t. fmlookup (mem_txs p) tid = Some t \<and> fmlookup (mem_txs q) tid = None \<longrightarrow>
        mp_ttl_secs (mem_params p) < saturating_sub now (pt_arrived t) \<or> fee_per_byte t \<le> incoming_rate pr \<or>
        pr_replaces pr = Some tid)"

lemma staged_sender_len:
  assumes p: "pool_ok p" and pr: "prepared_ok p pr" and q: "staged p pr now q"
  shows "sender_len q (pr_sender pr) < effective_per_sender (mem_params p)"
proof (cases "pr_replaces pr")
  case None
  then show ?thesis using shrinks_sizes(3) [of p q "pr_sender pr"] p pr q by (auto simp: prepared_ok_def staged_def pool_ok_def)
next
  case (Some old)
  have sub: "fmdom' (sender_map q (pr_sender pr)) \<subseteq> fmdom' (sender_map p (pr_sender pr)) - {pr_nonce pr}"
  proof
    fix n assume "n \<in> fmdom' (sender_map q (pr_sender pr))"
    then obtain tid where tid: "fmlookup (sender_map q (pr_sender pr)) n = Some tid" by (auto simp: fmdom'_Some)
    have "fmlookup (sender_map p (pr_sender pr)) n = Some tid"
      using shrinks_sender_map [OF _ _ tid] p q by (simp add: staged_def pool_ok_def)
    moreover have "n \<noteq> pr_nonce pr" using q tid by (auto simp: staged_def)
    ultimately show "n \<in> fmdom' (sender_map p (pr_sender pr)) - {pr_nonce pr}" by (auto simp: fmdom'_Some)
  qed
  have "fmlookup (sender_map p (pr_sender pr)) (pr_nonce pr) = Some old" using pr Some by (simp add: prepared_ok_def)
  then have "pr_nonce pr \<in> fmdom' (sender_map p (pr_sender pr))" by (simp add: fmdom'_Some)
  then have "card (fmdom' (sender_map q (pr_sender pr))) \<le> sender_len p (pr_sender pr) - 1"
    using card_mono [OF _ sub] by (simp add: sender_len_def fcard_fmdom)
  then show ?thesis using pr Some by (simp add: prepared_ok_def sender_len_def fcard_fmdom)
qed

lemma staged_outlay:
  assumes p: "pool_ok p" and pr: "prepared_ok p pr" and q: "staged p pr now q"
    and out: "\<And>old. pr_replaces pr = Some old \<Longrightarrow> fmlookup (mem_txs q) old = None"
  shows "outlay_of q (pr_sender pr) + unat (pr_amount pr) + unat (pr_fee pr) \<le> needed_outlay p pr"
proof -
  have sh: "shrinks p q" using q by (simp add: staged_def)
  show ?thesis
  proof (cases "pr_replaces pr")
    case None
    then show ?thesis using shrinks_outlay [OF sh, of "pr_sender pr"] by (simp add: needed_outlay_def displaced_outlay_def)
  next
    case (Some old)
    then have "fmlookup (sender_map p (pr_sender pr)) (pr_nonce pr) = Some old" using pr by (simp add: prepared_ok_def)
    then obtain t where "fmlookup (mem_txs p) old = Some t" "pt_sender t = pr_sender pr"
      using linkedD(3) [OF pool_okD(1) [OF p]] by blast
    then show ?thesis using shrinks_outlay_drop [OF sh _ _ out [OF Some], of t "pr_sender pr"] Some
      by (simp add: needed_outlay_def displaced_outlay_def)
  qed
qed

lemma commit_accept:
  assumes p: "pool_ok p" and pr: "prepared_ok p pr" and q: "staged p pr now q"
    and room: "mempool_len q < mp_max_txs (mem_params p)" "mem_total_bytes q + length (pr_raw pr) \<le> mp_max_bytes (mem_params p)"
    and out: "\<And>old. pr_replaces pr = Some old \<Longrightarrow> fmlookup (mem_txs q) old = None"
  obtains ad r where "commit_insert pr now removed q = Some (ad, r)" "commit_outcome p pr now (Inr ad) r"
proof -
  have sh: "shrinks p q" "linked p" using q p by (simp_all add: staged_def pool_ok_def)
  have par: "mem_params q = mem_params p" using shrinksD(2) [OF sh(1)] .
  have cap: "sender_len q s \<le> effective_per_sender (mem_params p)" for s
    using shrinks_sizes(3) [OF sh(2,1), of s] p by (auto simp: pool_ok_def pool_bounded_def intro: order_trans)
  have q': "linked q" "nonces_small q" "\<And>s. s \<noteq> pr_sender pr \<Longrightarrow> run_ok q s" "fmlookup (mem_txs q) (pr_txid pr) = None"
    "fmlookup (sender_map q (pr_sender pr)) (pr_nonce pr) = None"
    using q shrinksD(1) [OF sh(1)] by (simp_all add: staged_def)
  have nn: "pr_nonce pr \<noteq> -1" using pr by (simp add: prepared_ok_def)
  note pay = staged_outlay [OF p pr q out]
  then have pay1: "outlay_of q (pr_sender pr) + unat (pr_amount pr) + unat (pr_fee pr) < 2 ^ 128"
    using pr by (simp add: prepared_ok_def)
  have pay2: "outlay_of q s < 2 ^ 128" for s
    using shrinks_outlay [OF sh(1), of s] p by (auto simp: pool_ok_def pool_bounded_def intro: order.strict_trans1)
  obtain ad r where r: "commit_insert pr now removed q = Some (ad, r)" "pool_ok r" "mem_params r = mem_params p"
    "fmdom' (mem_txs r) = insert (pr_txid pr) (fmdom' (mem_txs q))" "ad_txid ad = pr_txid pr"
    "outlay_of r (pr_sender pr) \<le> outlay_of q (pr_sender pr) + unat (pr_amount pr) + unat (pr_fee pr)"
    "fmlookup (mem_txs r) (pr_txid pr) = Some
       \<lparr> pt_txid = pr_txid pr, pt_sender = pr_sender pr, pt_nonce = pr_nonce pr, pt_fee = pr_fee pr,
         pt_amount = pr_amount pr, pt_bytes = pr_raw pr, pt_arrived = now, pt_sig_verified = True,
         pt_executable = ad_executable ad \<rparr>"
    by (rule commit_insert_ok [OF q'(1-3) nn q'(4,5), unfolded par, OF _ room staged_sender_len [OF p pr q] cap pay1 pay2])
  have dom: "fmlookup (mem_txs r) tid = None \<longleftrightarrow> tid \<noteq> pr_txid pr \<and> fmlookup (mem_txs q) tid = None" for tid
    using r(4) by (metis (no_types) fmlookup_dom'_iff insert_iff not_None_eq)
  have "commit_outcome p pr now (Inr ad) r"
    unfolding commit_outcome_def
  proof (intro conjI)
    show "\<forall>tid t. fmlookup (mem_txs p) tid = Some t \<and> fmlookup (mem_txs r) tid = None \<longrightarrow>
        mp_ttl_secs (mem_params p) < saturating_sub now (pt_arrived t) \<or> fee_per_byte t \<le> incoming_rate pr \<or>
        Inr ad \<noteq> Inl PoolFull \<and> pr_replaces pr = Some tid"
      using q by (simp add: staged_def dom)
    show "\<forall>tid. fmlookup (mem_txs r) tid \<noteq> None \<longrightarrow>
        fmlookup (mem_txs p) tid \<noteq> None \<or> Inr ad \<noteq> Inl PoolFull \<and> tid = pr_txid pr"
      using shrinksD(3) [OF sh(1)] by (auto simp: dom)
    have "pr_replaces pr \<noteq> Some (pr_txid pr)"
      using pr linkedD(3) [OF sh(2), of "pr_sender pr" "pr_nonce pr" "pr_txid pr"] by (auto simp: prepared_ok_def)
    then show "case Inr ad of Inl e \<Rightarrow> e = PoolFull
      | Inr ad \<Rightarrow> ad_txid ad = pr_txid pr \<and>
          fmlookup (mem_txs r) (pr_txid pr) = Some
            \<lparr> pt_txid = pr_txid pr, pt_sender = pr_sender pr, pt_nonce = pr_nonce pr, pt_fee = pr_fee pr,
              pt_amount = pr_amount pr, pt_bytes = pr_raw pr, pt_arrived = now, pt_sig_verified = True,
              pt_executable = ad_executable ad \<rparr> \<and>
          (\<forall>old. pr_replaces pr = Some old \<longrightarrow> fmlookup (mem_txs r) old = None) \<and>
          outlay_of r (pr_sender pr) \<le> needed_outlay p pr"
      using r(5,7) out order_trans [OF r(6) pay] by (auto simp: dom)
  qed (use r(2,3) par in simp_all)
  then show ?thesis using that r(1) by blast
qed

lemma commit_refuse:
  assumes p: "pool_ok p" and q: "staged p pr now q" and r: "pool_ok r" "shrinks p r"
    and dom: "\<And>tid. fmlookup (mem_txs r) tid = None \<Longrightarrow> fmlookup (mem_txs q) tid = None"
    and keep: "\<And>tid t. pr_replaces pr = Some tid \<Longrightarrow> fmlookup (mem_txs p) tid = Some t \<Longrightarrow> fmlookup (mem_txs r) tid = None \<Longrightarrow>
      mp_ttl_secs (mem_params p) < saturating_sub now (pt_arrived t)"
  shows "commit_outcome p pr now (Inl PoolFull) r"
  unfolding commit_outcome_def
proof (intro conjI)
  show "\<forall>tid t. fmlookup (mem_txs p) tid = Some t \<and> fmlookup (mem_txs r) tid = None \<longrightarrow>
      mp_ttl_secs (mem_params p) < saturating_sub now (pt_arrived t) \<or> fee_per_byte t \<le> incoming_rate pr \<or>
      Inl PoolFull \<noteq> (Inl PoolFull :: reject + admitted) \<and> pr_replaces pr = Some tid"
    using q dom keep unfolding staged_def by blast
  show "\<forall>tid. fmlookup (mem_txs r) tid \<noteq> None \<longrightarrow>
      fmlookup (mem_txs p) tid \<noteq> None \<or> Inl PoolFull \<noteq> (Inl PoolFull :: reject + admitted) \<and> tid = pr_txid pr"
    using shrinksD(3) [OF r(2)] by auto
qed (use r(1) shrinksD(2) [OF r(2)] in simp_all)

text \<open>The sweep, the displacement and the eviction loop together.\<close>

lemma commit_stages:
  assumes p: "pool_ok p" and pr: "prepared_ok p pr"
  obtains p1 displaced p2 refused p3 rem conds cs A dead where
    "sweep_expired p now = Some (dead, p1)" "pool_ok p1" "touches A p p1"
    "conds = (if dead = [] then [] else [MempoolEvicted (length dead) Expired])"
    "(case pr_replaces pr of None \<Rightarrow> Some (None, p1) | Some old_id \<Rightarrow> pool_remove p1 old_id) = Some (displaced, p2)"
    "\<forall>tid. fmlookup (mem_txs p2) tid = (if pr_replaces pr = Some tid then None else fmlookup (mem_txs p1) tid)"
    "\<forall>t. displaced = Some t \<longrightarrow> pr_replaces pr = Some (pt_txid t) \<and> fmlookup (mem_txs p1) (pt_txid t) = Some t \<and>
       pt_sender t = pr_sender pr \<and> pt_nonce t = pr_nonce pr"
    "displaced = None \<longrightarrow> (\<forall>tid. pr_replaces pr = Some tid \<longrightarrow> fmlookup (mem_txs p1) tid = None)"
    "linked p2" "evict_loop (length (pr_raw pr)) (incoming_rate pr) p2 [] conds = Some (refused, p3, rem, cs)"
    "evicted (length (pr_raw pr)) (incoming_rate pr) p2 refused p3 rem" "staged p pr now p3"
    "\<forall>tid t. fmlookup (mem_txs p) tid = Some t \<and> fmlookup (mem_txs p1) tid = None \<longrightarrow>
       mp_ttl_secs (mem_params p) < saturating_sub now (pt_arrived t)"
proof -
  obtain dead p1 A where p1: "sweep_expired p now = Some (dead, p1)" "pool_ok p1" "touches A p p1"
    "fmdom' (mem_txs p1) = {tid. \<exists>t. fmlookup (mem_txs p) tid = Some t \<and>
       saturating_sub now (pt_arrived t) \<le> mp_ttl_secs (mem_params p)}"
    by (rule sweep_expired_ok [OF p])
  obtain displaced p2 where p2:
    "(case pr_replaces pr of None \<Rightarrow> Some (None, p1) | Some old_id \<Rightarrow> pool_remove p1 old_id) = Some (displaced, p2)"
    "touches {pr_sender pr} p1 p2" "fmlookup (sender_map p2 (pr_sender pr)) (pr_nonce pr) = None"
    "\<forall>tid. fmlookup (mem_txs p2) tid = (if pr_replaces pr = Some tid then None else fmlookup (mem_txs p1) tid)"
    "\<forall>t. displaced = Some t \<longrightarrow> pr_replaces pr = Some (pt_txid t) \<and> fmlookup (mem_txs p1) (pt_txid t) = Some t \<and>
       pt_sender t = pr_sender pr \<and> pt_nonce t = pr_nonce pr"
    "displaced = None \<longrightarrow> (\<forall>tid. pr_replaces pr = Some tid \<longrightarrow> fmlookup (mem_txs p1) tid = None)"
    by (rule displace_ok [OF p pr p1(2,3)])
  have l2: "linked p2" using touches_linked [OF p2(2)] .
  define conds where "conds = (if dead = [] then [] else [MempoolEvicted (length dead) Expired])"
  obtain refused p3 rem cs where p3: "evict_loop (length (pr_raw pr)) (incoming_rate pr) p2 [] conds = Some (refused, p3, rem, cs)"
    "evicted (length (pr_raw pr)) (incoming_rate pr) p2 refused p3 rem"
    using evict_loop_ok [OF l2, of "length (pr_raw pr)" "incoming_rate pr" "[]" conds] by auto
  have sh: "shrinks p p1" "shrinks p1 p2" "shrinks p2 p3" using p1(3) p2(2) p3(2) by (simp_all add: touches_def evicted_def)
  then have sh3: "shrinks p p3" using shrinks_trans by blast
  have old: "mp_ttl_secs (mem_params p) < saturating_sub now (pt_arrived t)"
    if "fmlookup (mem_txs p) tid = Some t" "fmlookup (mem_txs p1) tid = None" for tid t
  proof -
    have "tid \<notin> fmdom' (mem_txs p1)" using that(2) by (simp add: fmdom'_Some)
    then show ?thesis using that(1) unfolding p1(4) by auto
  qed
  have "staged p pr now p3"
    unfolding staged_def
  proof (intro conjI allI impI)
    show "nonces_small p3" using shrinks_nonces_small [OF sh3] p by (simp add: pool_ok_def)
    show "run_ok p3 s" if "s \<noteq> pr_sender pr" for s
      using touches_run_ok [OF pool_okD(1) [OF p1(2)] p2(2), of s] pool_okD(3) [OF p1(2)] p3(2) that by (simp add: evicted_def)
    show "fmlookup (sender_map p3 (pr_sender pr)) (pr_nonce pr) = None"
      using shrinks_sender_map [OF l2 sh(3), of "pr_sender pr" "pr_nonce pr"] p2(3)
      by (cases "fmlookup (sender_map p3 (pr_sender pr)) (pr_nonce pr)") simp_all
    show "fmlookup (mem_txs p3) (pr_txid pr) = None"
      using shrinksD(3) [OF sh3, of "pr_txid pr"] pr
      by (cases "fmlookup (mem_txs p3) (pr_txid pr)") (auto simp: prepared_ok_def)
    fix tid t assume t: "fmlookup (mem_txs p) tid = Some t \<and> fmlookup (mem_txs p3) tid = None"
    show "mp_ttl_secs (mem_params p) < saturating_sub now (pt_arrived t) \<or> fee_per_byte t \<le> incoming_rate pr \<or> pr_replaces pr = Some tid"
    proof (cases "fmlookup (mem_txs p1) tid")
      case None
      then show ?thesis using old t by blast
    next
      case (Some u)
      then have u: "fee_per_byte u = fee_per_byte t" using shrinksD(3) [OF sh(1) Some] t by auto
      show ?thesis
      proof (cases "pr_replaces pr = Some tid")
        case False
        then have "fmlookup (mem_txs p2) tid = Some u" using p2(4) Some by simp
        moreover from this have "tid \<in> set rem" using p3(2) t by (auto simp: evicted_def split: if_splits)
        ultimately show ?thesis using p3(2) u by (fastforce simp: evicted_def)
      qed simp
    qed
  qed (rule sh3)
  then show ?thesis using that p1(1,2,3) conds_def p2(1,4,5,6) l2 p3 old by blast
qed

lemma pool_commit_ok:
  assumes p: "pool_ok p" and pr: "prepared_ok p pr"
  obtains r q cs where "pool_commit p pr now = Some (r, q, cs)" "commit_outcome p pr now r q"
proof -
  obtain p1 displaced p2 refused p3 rem conds cs A dead where
    st: "sweep_expired p now = Some (dead, p1)" "pool_ok p1" "touches A p p1"
    "conds = (if dead = [] then [] else [MempoolEvicted (length dead) Expired])"
    "(case pr_replaces pr of None \<Rightarrow> Some (None, p1) | Some old_id \<Rightarrow> pool_remove p1 old_id) = Some (displaced, p2)"
    "\<forall>tid. fmlookup (mem_txs p2) tid = (if pr_replaces pr = Some tid then None else fmlookup (mem_txs p1) tid)"
    "\<forall>t. displaced = Some t \<longrightarrow> pr_replaces pr = Some (pt_txid t) \<and> fmlookup (mem_txs p1) (pt_txid t) = Some t \<and>
       pt_sender t = pr_sender pr \<and> pt_nonce t = pr_nonce pr"
    "displaced = None \<longrightarrow> (\<forall>tid. pr_replaces pr = Some tid \<longrightarrow> fmlookup (mem_txs p1) tid = None)"
    "linked p2" "evict_loop (length (pr_raw pr)) (incoming_rate pr) p2 [] conds = Some (refused, p3, rem, cs)"
    "evicted (length (pr_raw pr)) (incoming_rate pr) p2 refused p3 rem" "staged p pr now p3"
    "\<forall>tid t. fmlookup (mem_txs p) tid = Some t \<and> fmlookup (mem_txs p1) tid = None \<longrightarrow>
       mp_ttl_secs (mem_params p) < saturating_sub now (pt_arrived t)"
    by (rule commit_stages [OF p pr])
  note stage = st(1,5,10) [unfolded st(4) incoming_rate_def]
  have l1: "linked p1" using st(2) by (simp add: pool_ok_def)
  have sh: "shrinks p p1" "shrinks p2 p3" using st(3,11) by (simp_all add: touches_def evicted_def)
  have sub: "fmlookup (mem_txs p3) tid = Some t \<Longrightarrow> fmlookup (mem_txs p1) tid = Some t \<and> pr_replaces pr \<noteq> Some tid" for tid t
    using st(6,11) by (auto simp: evicted_def split: if_splits)
  show ?thesis
  proof (cases refused)
    case False
    have room: "mempool_len p3 < mp_max_txs (mem_params p)" "mem_total_bytes p3 + length (pr_raw pr) \<le> mp_max_bytes (mem_params p)"
      using st(11) False shrinksD(2) [OF sh(2)] st(12) shrinksD(2) [of p p3] by (simp_all add: evicted_def staged_def)
    have out: "fmlookup (mem_txs p3) old = None" if "pr_replaces pr = Some old" for old
      using sub [of old] that by (cases "fmlookup (mem_txs p3) old") auto
    obtain ad r where "commit_insert pr now rem p3 = Some (ad, r)" "commit_outcome p pr now (Inr ad) r"
      using commit_accept [OF p pr st(12) room out] by blast
    then show ?thesis using that stage False by (simp add: pool_commit_def Let_def)
  next
    case True
    show ?thesis
    proof (cases displaced)
      case None
      then have same: "mem_txs p2 = mem_txs p1" using st(6,8) by (intro fmap_ext) auto
      then have "run_ok p2 s" for s
        using same_for_run_ok [OF l1 st(9)] pool_okD(3) [OF st(2)] by (simp add: same_for_def)
      then have ok: "pool_ok p3"
        using st(11,12) shrinks_bounded [OF pool_okD(1) [OF p], of p3] pool_okD(4) [OF p] shrinksD(1)
        unfolding pool_ok_def evicted_def staged_def by blast
      have "commit_outcome p pr now (Inl PoolFull) p3"
        using st(12) st(8) None st(13) by (intro commit_refuse [OF p st(12) ok]) (auto simp: staged_def)
      then show ?thesis using that stage True None by (simp add: pool_commit_def Let_def)
    next
      case (Some old)
      then have old: "pr_replaces pr = Some (pt_txid old)" "fmlookup (mem_txs p1) (pt_txid old) = Some old"
        "pt_sender old = pr_sender pr" "pt_nonce old = pr_nonce pr" using st(7) by auto
      have new: "fmlookup (mem_txs p3) (pt_txid old) = None" "fmlookup (sender_map p3 (pt_sender old)) (pt_nonce old) = None"
        using sub [of "pt_txid old"] old st(12) by (cases "fmlookup (mem_txs p3) (pt_txid old)"; auto simp: staged_def)+
      have p3: "linked p3" "nonces_small p3" "\<And>s. s \<noteq> pt_sender old \<Longrightarrow> run_ok p3 s" "mem_params p3 = mem_params p1"
        using st(12) shrinksD(1,2) [of p p3] shrinksD(2) [OF sh(1)] old(3) by (simp_all add: staged_def)
      have sh3: "shrinks p1 (pool_insert p3 old)"
        unfolding shrinks_def
      proof (intro conjI allI impI)
        fix tid t' assume "fmlookup (mem_txs (pool_insert p3 old)) tid = Some t'"
        then have "fmlookup (mem_txs p1) tid = Some t'" using sub [of tid t'] old(2) by (auto split: if_splits)
        then show "\<exists>t b. fmlookup (mem_txs p1) tid = Some t \<and> t' = t \<lparr> pt_executable := b \<rparr>"
          by (intro exI [of _ t'] exI [of _ "pt_executable t'"]) simp
      qed (simp_all add: pool_insert_linked [OF p3(1) new] p3(4))
      have small: "pt_nonce old \<noteq> -1" using pr old(4) by (simp add: prepared_ok_def)
      obtain prm r where r: "resplit (pool_insert p3 old) (pt_sender old) (pr_next pr) = Some (prm, r)" "pool_ok r"
        "shrinks (pool_insert p3 old) r" "fmdom' (mem_txs r) = insert (pt_txid old) (fmdom' (mem_txs p3))"
        using insert_resplit_ok [OF p3(1-3) small new shrinks_bounded [OF l1 sh3 pool_okD(4) [OF st(2)]]] by blast
      have dom: "fmlookup (mem_txs r) tid = None \<longleftrightarrow> tid \<noteq> pt_txid old \<and> fmlookup (mem_txs p3) tid = None" for tid
        using r(4) by (metis (no_types) fmlookup_dom'_iff insert_iff not_None_eq)
      have "commit_outcome p pr now (Inl PoolFull) r"
        using old(1) by (intro commit_refuse [OF p st(12) r(2) shrinks_trans [OF shrinks_trans [OF sh(1) sh3] r(3)]]) (auto simp: dom)
      then show ?thesis using that stage True Some r(1) old(3) by (simp add: pool_commit_def Let_def)
    qed
  qed
qed

end
