(* ===== verification/Mempool_Reach.thy ===== *)
theory Mempool_Reach
  imports Mempool_Safety
begin

text \<open>
  Admission to the transaction pool from the raw bytes, every sequence of pool operations, and the
  block template.
\<close>

section \<open>The admission rules\<close>

text \<open>The nonces the pool accepts for an account stay below the largest 64-bit number.\<close>

definition nonce_room :: "mempool_params \<Rightarrow> account \<Rightarrow> bool" where
  "nonce_room mp acct \<longleftrightarrow> unat (ac_nonce acct) + unat (mp_max_nonce_gap mp) < 2 ^ 64 - 1"

lemma nonce_below_max:
  assumes "nonce_room mp acct" "\<not> saturating_add (ac_nonce acct) (mp_max_nonce_gap mp) < nonce"
  shows "nonce \<noteq> -1"
proof
  assume m: "nonce = -1"
  have "unat nonce \<le> unat (ac_nonce acct) + unat (mp_max_nonce_gap mp)"
    using assms by (simp add: nonce_room_def word_less_nat_alt unat_saturating_add)
  moreover have "unat nonce = 2 ^ 64 - 1" unfolding m by (simp add: unat_max_word)
  ultimately show False using assms(1) by (simp add: nonce_room_def)
qed

lemma check_replacement_total:
  assumes "linked p" "replaces = fmlookup (sender_map p s) n"
  shows "check_replacement p replaces fee \<noteq> None"
  using assms(2) linkedD(3) [OF assms(1), of s n] by (auto simp: check_replacement_def split: option.splits)

lemma sender_len_pos: "fmlookup (sender_map p s) n = Some tid \<Longrightarrow> 0 < sender_len p s"
proof -
  assume "fmlookup (sender_map p s) n = Some tid"
  then have "n \<in> fmdom' (sender_map p s)" by (simp add: fmdom'_Some)
  then show ?thesis unfolding sender_len_def fcard_fmdom by (auto simp: card_gt_0_iff)
qed

lemma bindP_None: "bindP m f = None \<longleftrightarrow> m = None \<or> (\<exists>x. m = Some (Inr x) \<and> f x = None)"
  by (auto simp: bindP_def split: option.splits sum.splits)

lemma check_account_total:
  assumes "linked p"
  shows "check_account p raw tx tid sender nonce fee amount acct spendable \<noteq> None"
proof -
  have pos: "fmlookup (sender_map p sender) nonce \<noteq> None \<Longrightarrow> \<not> sender_len p sender < 1"
    using sender_len_pos [of p sender nonce] by fastforce
  then have "\<not> sender_len p sender < (if fmlookup (sender_map p sender) nonce = None then 0 else 1)" by simp
  then show ?thesis
    using check_replacement_total [OF assms refl, of sender nonce fee]
    unfolding check_account_def Let_def by (simp del: not_None_eq add: bindP_None)
qed

lemma pool_check_total:
  assumes "linked p"
  shows "pool_check p raw author lookup \<noteq> None"
  using check_account_total [OF assms] unfolding pool_check_def Let_def
  by (simp del: not_None_eq add: bindP_None split: prod.splits)

lemma pool_ok_outlay: "pool_ok p \<Longrightarrow> outlay_of p s < 2 ^ 128"
  by (simp add: pool_ok_def pool_bounded_def)

lemma tx_outlay_le:
  assumes "linked p" "fmlookup (mem_txs p) tid = Some t"
  shows "tx_outlay t \<le> outlay_of p (pt_sender t)"
proof -
  have "tid \<in> fmdom' (mem_txs p)" using assms(2) by (simp add: fmdom'_Some)
  then show ?thesis
    unfolding outlay_of_def
    using assms(2) member_le_sum [of tid "{tid \<in> fmdom' (mem_txs p). pt_sender (the (fmlookup (mem_txs p) tid)) = pt_sender t}"
      "\<lambda>tid. tx_outlay (the (fmlookup (mem_txs p) tid))"] by simp
qed

lemma check_replacement_val:
  assumes "pool_ok p" "check_replacement p replaces fee = Some (Inr d)" "replaces = fmlookup (sender_map p s) n"
  shows "unat d = (case replaces of None \<Rightarrow> 0 | Some old \<Rightarrow> tx_outlay (the (fmlookup (mem_txs p) old)))"
proof (cases replaces)
  case (Some old)
  then obtain t where t: "fmlookup (mem_txs p) old = Some t" "pt_sender t = s"
    using linkedD(3) [OF pool_okD(1) [OF assms(1)]] assms(3) by metis
  then have "d = saturating_add (pt_amount t) (pt_fee t)"
    using assms(2) Some by (auto simp: check_replacement_def result_simps split: if_splits)
  moreover have "tx_outlay t < 2 ^ 128"
    using tx_outlay_le [OF pool_okD(1) [OF assms(1)] t(1)] pool_okD(4) [OF assms(1)] t(2)
    by (auto simp: pool_bounded_def intro: order.strict_trans1)
  ultimately show ?thesis using t(1) Some by (simp add: unat_saturating_add tx_outlay_def)
qed (use assms(2) in \<open>simp add: check_replacement_def\<close>)

lemma check_account_ok:
  assumes p: "pool_ok p" and c: "check_account p raw tx tid sender nonce fee amount acct spendable = Some (Inr pr)"
    and room: "nonce_room (mem_params p) acct" and new: "fmlookup (mem_txs p) tid = None"
  shows "prepared_ok p pr" "pr_sender pr = sender" "needed_outlay p pr \<le> unat spendable"
proof -
  let ?rep = "fmlookup (sender_map p sender) nonce"
  have gap: "\<not> nonce < ac_nonce acct" "\<not> saturating_add (ac_nonce acct) (mp_max_nonce_gap (mem_params p)) < nonce"
    using c by (auto simp: check_account_def Let_def split: if_splits)
  obtain d outlay need where d: "check_replacement p ?rep fee = Some (Inr d)"
    and outlay: "checked_add amount fee = Some outlay"
    and need: "checked_add (saturating_sub (pending_outlay p sender) d) outlay = Some need" "\<not> spendable < need"
    and cap: "\<not> effective_per_sender (mem_params p) \<le> sender_len p sender - (if ?rep = None then 0 else 1)"
    and pr: "pr = \<lparr> pr_raw = raw, pr_tx = tx, pr_txid = tid, pr_sender = sender, pr_nonce = nonce, pr_fee = fee,
          pr_amount = amount, pr_next = ac_nonce acct, pr_replaces = ?rep \<rparr>"
    using c gap unfolding check_account_def Let_def by (auto simp: result_simps split: if_splits)
  have "unat need = unat (saturating_sub (pending_outlay p sender) d) + unat amount + unat fee"
    using unat_checked_add [OF outlay] unat_checked_add [OF need(1)] by simp
  moreover have "unat (pending_outlay p sender) = outlay_of p sender"
    using pending_outlay_val [OF pool_okD(1) [OF p], of sender] pool_ok_outlay [OF p, of sender] by simp
  moreover have "unat d = displaced_outlay p pr" using check_replacement_val [OF p d refl] by (simp add: pr displaced_outlay_def)
  ultimately have n: "needed_outlay p pr = unat need" by (simp add: needed_outlay_def pr unat_saturating_sub)
  then show "needed_outlay p pr \<le> unat spendable" using need(2) by (simp add: word_less_nat_alt)
  have "needed_outlay p pr < 2 ^ 128" unfolding n using unsigned_less [of need] by simp
  then show "prepared_ok p pr" using new cap nonce_below_max [OF room gap(2)] by (simp add: prepared_ok_def pr)
  show "pr_sender pr = sender" by (simp add: pr)
qed

lemma pool_check_ok:
  assumes p: "pool_ok p" and c: "pool_check p raw author lookup = Some (Inr pr)"
    and room: "\<And>s. nonce_room (mem_params p) (fst (lookup s))"
  shows "prepared_ok p pr" "needed_outlay p pr \<le> unat (snd (lookup (pr_sender pr)))"
proof -
  obtain tx tid sender nonce fee amount where *: "fmlookup (mem_txs p) tid = None"
    "check_account p raw tx tid sender nonce fee amount (fst (lookup sender)) (snd (lookup sender)) = Some (Inr pr)"
    using c unfolding pool_check_def Let_def by (auto simp: result_simps case_prod_beta split: if_splits)
  show "prepared_ok p pr" "needed_outlay p pr \<le> unat (snd (lookup (pr_sender pr)))"
    using check_account_ok [OF p *(2) room *(1)] by simp_all
qed

lemma pool_check_raw: "pool_check p raw author lookup = Some (Inr pr) \<Longrightarrow> pr_raw pr = raw"
  unfolding pool_check_def check_account_def Let_def by (auto simp: result_simps case_prod_beta split: if_splits)

section \<open>Submission\<close>

definition submit_outcome ::
  "mempool \<Rightarrow> (address \<Rightarrow> account \<times> u128) \<Rightarrow> u64 \<Rightarrow> reject + admitted \<Rightarrow> mempool \<Rightarrow> bool" where
  "submit_outcome p lookup now r q \<longleftrightarrow> (\<exists>e. r = Inl e \<and> q = p) \<or>
     (\<exists>pr. prepared_ok p pr \<and> needed_outlay p pr \<le> unat (snd (lookup (pr_sender pr))) \<and> commit_outcome p pr now r q)"

lemma submit_outcome_ok: "pool_ok p \<Longrightarrow> submit_outcome p lookup now r q \<Longrightarrow> pool_ok q \<and> mem_params q = mem_params p"
  by (auto simp: submit_outcome_def commit_outcome_def)

lemma pool_submit_ok:
  assumes p: "pool_ok p" and room: "nonce_room (mem_params p) acct"
  obtains r q cs where "pool_submit p raw acct spendable now = Some (r, q, cs)"
    "submit_outcome p (\<lambda>_. (acct, spendable)) now r q"
proof -
  obtain c where c: "pool_check p raw AlreadyHeld (\<lambda>_. (acct, spendable)) = Some c"
    using pool_check_total [OF pool_okD(1) [OF p]] by blast
  show ?thesis
  proof (cases c)
    case (Inl e)
    then show ?thesis using that c by (simp add: pool_submit_def submit_outcome_def)
  next
    case (Inr pr)
    note pr = pool_check_ok [OF p c [unfolded Inr]]
    have ok: "prepared_ok p pr" "needed_outlay p pr \<le> unat spendable" using pr room by simp_all
    obtain r q cs where "pool_commit p pr now = Some (r, q, cs)" "commit_outcome p pr now r q"
      by (rule pool_commit_ok [OF p ok(1)])
    then show ?thesis using that c Inr ok by (fastforce simp: pool_submit_def submit_outcome_def)
  qed
qed

lemma submit_verified_ok:
  assumes p: "pool_ok p" and room: "\<And>s. nonce_room (mem_params p) (fst (lookup s))"
  obtains r q cs where "submit_verified ed p net raw lookup now author = Some (r, q, cs)"
    "submit_outcome p lookup now r q"
proof -
  obtain c where c: "pool_check p raw (Enforce author) lookup = Some c"
    using pool_check_total [OF pool_okD(1) [OF p]] by blast
  show ?thesis
  proof (cases c)
    case (Inl e)
    then show ?thesis using that c by (simp add: submit_verified_def submit_outcome_def)
  next
    case (Inr pr)
    note ok = pool_check_ok [OF p c [unfolded Inr] room]
    obtain r q cs where *: "pool_commit p pr now = Some (r, q, cs)" "commit_outcome p pr now r q"
      by (rule pool_commit_ok [OF p ok(1)])
    show ?thesis
    proof (cases "sig_proof_verify ed net (pr_tx pr) author")
      case (Inl e)
      then show ?thesis using that c Inr by (simp add: submit_verified_def submit_outcome_def)
    next
      case (Inr proof_of)
      then show ?thesis using that c \<open>c = Inr pr\<close> * ok by (fastforce simp: submit_verified_def submit_outcome_def)
    qed
  qed
qed

lemma reinject_ok:
  assumes "pool_ok p" "\<And>s. nonce_room (mem_params p) (fst (lookup s))"
  shows "\<exists>q k d cs. reinject raws now lookup p taken dropped conds = Some (q, k, d, cs) \<and> pool_ok q \<and> mem_params q = mem_params p"
  using assms
proof (induction raws arbitrary: p taken dropped conds)
  case (Cons raw raws)
  show ?case
  proof (cases "mp_reorg_reinject_cap (mem_params p) \<le> taken")
    case True
    then show ?thesis using Cons.IH [OF Cons.prems, of taken "dropped + 1" conds] by simp
  next
    case False
    note under = False
    show ?thesis
    proof (cases "decode_tx raw")
      case (Inl e)
      then show ?thesis using under Cons.IH [OF Cons.prems, of taken "dropped + 1" conds] by simp
    next
      case (Inr tx)
      show ?thesis
      proof (cases "case tx of Transfer t \<Rightarrow> Some (tr_from_pub t) | Announcement a \<Rightarrow> Some (an_from_pub a) | Coinbase _ \<Rightarrow> None")
        case None
        then show ?thesis using under Inr Cons.IH [OF Cons.prems, of taken dropped conds] by simp
      next
        case (Some pub)
        let ?l = "lookup (address_payload pub)"
        obtain r q cs where q: "pool_submit p raw (fst ?l) (snd ?l) now = Some (r, q, cs)"
          "submit_outcome p (\<lambda>_. (fst ?l, snd ?l)) now r q"
          by (rule pool_submit_ok [OF Cons.prems(1,2)])
        have "pool_ok q" "mem_params q = mem_params p" using submit_outcome_ok [OF Cons.prems(1) q(2)] by simp_all
        then show ?thesis
          using under Inr Some q(1) Cons.IH [of q "case r of Inr _ \<Rightarrow> taken + 1 | Inl _ \<Rightarrow> taken"
              "case r of Inr _ \<Rightarrow> dropped | Inl _ \<Rightarrow> dropped + 1" "conds @ cs"] Cons.prems(2)
          by (cases r) (simp_all add: case_prod_beta)
      qed
    qed
  qed
qed simp

lemma on_reorg_reinject_ok:
  assumes "pool_ok p" "\<And>s. nonce_room (mem_params p) (fst (lookup s))"
  obtains n q cs where "on_reorg_reinject p disconnected now lookup = Some (n, q, cs)" "pool_ok q" "mem_params q = mem_params p"
proof -
  define raws where "raws = concat (map snd (sort_key (\<lambda>(h, _). - int (unat h)) disconnected))"
  obtain q k d cs where q: "reinject raws now lookup p 0 0 [] = Some (q, k, d, cs)" "pool_ok q" "mem_params q = mem_params p"
    using reinject_ok [where lookup = lookup and raws = raws and now = now and taken = 0 and dropped = 0 and conds = "[]", OF assms] by blast
  show ?thesis by (rule that [OF _ q(2,3)]) (use q(1) in \<open>simp add: on_reorg_reinject_def raws_def Let_def\<close>)
qed

section \<open>Every sequence of operations\<close>

inductive pool_reach :: "'vk ed25519 \<Rightarrow> mempool_params \<Rightarrow> mempool \<Rightarrow> bool" for ed :: "'vk ed25519" and params :: mempool_params where
  reach_new: "pool_reach ed params (mempool_new params)"
| reach_submit: "pool_reach ed params p \<Longrightarrow> nonce_room params acct \<Longrightarrow>
    pool_submit p raw acct spendable now = Some (r, q, cs) \<Longrightarrow> pool_reach ed params q"
| reach_verified: "pool_reach ed params p \<Longrightarrow> (\<And>s. nonce_room params (fst (lookup s))) \<Longrightarrow>
    submit_verified ed p net raw lookup now author = Some (r, q, cs) \<Longrightarrow> pool_reach ed params q"
| reach_sweep: "pool_reach ed params p \<Longrightarrow> sweep_expired p now = Some (dead, q) \<Longrightarrow> pool_reach ed params q"
| reach_block: "pool_reach ed params p \<Longrightarrow> on_block_connected p spent account_of = Some (n, q) \<Longrightarrow> pool_reach ed params q"
| reach_reinject: "pool_reach ed params p \<Longrightarrow> (\<And>s. nonce_room params (fst (lookup s))) \<Longrightarrow>
    on_reorg_reinject p disconnected now lookup = Some (n2, q, cs) \<Longrightarrow> pool_reach ed params q"
| reach_resplit: "pool_reach ed params p \<Longrightarrow> resplit_all p account_of = Some q \<Longrightarrow> pool_reach ed params q"

lemma pool_reach_ok: "pool_reach ed params p \<Longrightarrow> pool_ok p \<and> mem_params p = params"
proof (induction rule: pool_reach.induct)
  case reach_new
  then show ?case using mempool_new_ok by (simp add: mempool_new_def)
next
  case (reach_submit p acct raw spendable now r q cs)
  then have p: "pool_ok p" "nonce_room (mem_params p) acct" by simp_all
  show ?case by (rule pool_submit_ok [OF p, of raw spendable now]) (use reach_submit submit_outcome_ok [OF p(1)] in auto)
next
  case (reach_verified p lookup net raw now author r q cs)
  then have p: "pool_ok p" "\<And>s. nonce_room (mem_params p) (fst (lookup s))" by simp_all
  show ?case by (rule submit_verified_ok [where lookup = lookup and ed = ed and net = net and raw = raw and now = now and author = author, OF p]) (use reach_verified submit_outcome_ok [OF p(1)] in auto)
next
  case (reach_sweep p now dead q)
  then show ?case using touches_params by (auto elim: sweep_expired_ok [of p now])
next
  case (reach_block p spent account_of n q)
  then show ?case by (auto elim: on_block_connected_ok [of p spent account_of])
next
  case (reach_reinject p lookup disconnected now n2 q cs)
  then have p: "pool_ok p" "\<And>s. nonce_room (mem_params p) (fst (lookup s))" by simp_all
  show ?case by (rule on_reorg_reinject_ok [where lookup = lookup and disconnected = disconnected and now = now, OF p]) (use reach_reinject in auto)
next
  case (reach_resplit p account_of q)
  then show ?case by (auto elim: resplit_all_ok [of p account_of])
qed

end
