(* ===== verification/Mempool_Template.thy ===== *)
theory Mempool_Template
  imports Mempool_Reach
begin

text \<open>
  The block template of the transaction pool: within its limits, and for every sender an unbroken
  run of nonces, so that the transactions of the template apply in its order.
\<close>

section \<open>Runs as lists\<close>

definition nonce_run :: "u64 \<Rightarrow> nat \<Rightarrow> u64 list" where
  "nonce_run start k = map (\<lambda>i. start + of_nat i) [0..<k]"

lemma nonce_run_Suc: "nonce_run start (Suc k) = start # nonce_run (start + 1) k"
  unfolding nonce_run_def by (simp add: upt_conv_Cons map_Suc_upt [symmetric] add.assoc del: upt_Suc)

lemma take_nonce_run: "take j (nonce_run start k) = nonce_run start (min j k)"
  by (simp add: nonce_run_def take_map min_def)

lemma sorted_run:
  assumes "sorted xs" "distinct xs" "\<And>x. x \<in> set xs \<Longrightarrow> in_run start (set xs) x"
  shows "xs = nonce_run start (length xs)"
  using assms
proof (induction xs arbitrary: start)
  case Nil
  then show ?case by (simp add: nonce_run_def)
next
  case (Cons x xs)
  have x: "x = start"
  proof -
    have "in_run start (set (x # xs)) x" using Cons.prems(3) by simp
    then have "start \<in> set (x # xs)" "start \<le> x" unfolding in_run_def by blast+
    then show ?thesis using Cons.prems(1) by (auto dest: order.antisym)
  qed
  have above: "x < y" if "y \<in> set xs" for y
    using that Cons.prems(1,2) by (auto simp: order.strict_iff_order)
  have "xs = nonce_run (start + 1) (length xs)"
  proof (rule Cons.IH)
    fix y assume y: "y \<in> set xs"
    have "x \<noteq> -1" using above [OF y] by (metis word_n1_ge linorder_not_le)
    then show "in_run (start + 1) (set xs) y"
      using in_run_hit [of x "set xs" y] above y Cons.prems(3) [of y] x by auto
  qed (use Cons.prems in simp_all)
  then show ?case using x by (simp add: nonce_run_Suc)
qed

lemma filter_take: "\<exists>j. filter P (take k xs) = take j (filter P xs)"
proof -
  have "filter P xs = filter P (take k xs) @ filter P (drop k xs)" by (metis append_take_drop_id filter_append)
  then show ?thesis by (intro exI [of _ "length (filter P (take k xs))"]) simp
qed

lemma filter_concat_one:
  assumes "distinct cs" "d \<in> set cs" "\<And>c. c \<in> set cs \<Longrightarrow> c \<noteq> d \<Longrightarrow> filter P c = []"
  shows "filter P (concat cs) = filter P d"
proof -
  obtain ys zs where cs: "cs = ys @ d # zs" using split_list [OF assms(2)] by blast
  have none: "filter P (concat as) = []" if "set as \<subseteq> set cs - {d}" for as
    using that assms(3) by (induction as) auto
  have "set ys \<subseteq> set cs - {d}" "set zs \<subseteq> set cs - {d}" using assms(1) unfolding cs by auto
  then show ?thesis using none by (simp add: cs)
qed

section \<open>The chains\<close>

lemma pool_values_distinct: "linked p \<Longrightarrow> distinct (pool_values p)"
proof -
  assume p: "linked p"
  have "map pt_txid (pool_values p) = map fst (fm_entries (mem_txs p))"
    unfolding pool_values_def map_map using linkedD(1) [OF p] by (intro map_cong) (auto simp: fm_entries_set)
  then show ?thesis using fm_entries_sorted(2) [of "mem_txs p"] by (metis distinct_map)
qed

lemma sender_chain_set:
  "t \<in> set (sender_chain p s) \<longleftrightarrow> (\<exists>tid. fmlookup (mem_txs p) tid = Some t) \<and> pt_executable t \<and> pt_sender t = s"
  by (auto simp: sender_chain_def pool_values_set)

lemma sender_chain_run:
  assumes p: "linked p" and run: "run_from p s start"
  shows "map pt_nonce (sender_chain p s) = nonce_run start (length (sender_chain p s))"
proof -
  have inj: "inj_on pt_nonce (set (sender_chain p s))"
  proof (rule inj_onI)
    fix t u assume "t \<in> set (sender_chain p s)" "u \<in> set (sender_chain p s)" "pt_nonce t = pt_nonce u"
    then obtain i j where "fmlookup (mem_txs p) i = Some t" "fmlookup (mem_txs p) j = Some u"
      "pt_sender t = pt_sender u" "pt_nonce t = pt_nonce u" unfolding sender_chain_set by auto
    then show "t = u" using linkedD(2) [OF p, of i t] linkedD(2) [OF p, of j u] by auto
  qed
  have "distinct (map pt_nonce (sender_chain p s))"
    using inj pool_values_distinct [OF p] by (simp add: distinct_map sender_chain_def)
  moreover have "sorted (map pt_nonce (sender_chain p s))" by (simp add: sender_chain_def)
  moreover have "in_run start (set (map pt_nonce (sender_chain p s))) n" if n: "n \<in> set (map pt_nonce (sender_chain p s))" for n
  proof -
    obtain t tid where t: "fmlookup (mem_txs p) tid = Some t" "pt_executable t" "pt_sender t = s" "n = pt_nonce t"
      using n by (auto simp: sender_chain_set)
    then have r: "in_run start (fmdom' (sender_map p s)) n" using run by (auto simp: run_from_def)
    have "k \<in> set (map pt_nonce (sender_chain p s))" if k: "start \<le> k" "k \<le> n" for k
    proof -
      have kr: "in_run start (fmdom' (sender_map p s)) k" using in_run_mono [OF r k] .
      then have "k \<in> fmdom' (sender_map p s)" unfolding in_run_def by blast
      then obtain i u where "fmlookup (mem_txs p) i = Some u" "pt_sender u = s" "pt_nonce u = k"
        unfolding sender_dom [OF p] by blast
      moreover from this have "pt_executable u" using run kr by (auto simp: run_from_def)
      ultimately have "u \<in> set (sender_chain p s)" "pt_nonce u = k" unfolding sender_chain_set by blast+
      then show ?thesis by force
    qed
    then show ?thesis using r unfolding in_run_def by blast
  qed
  ultimately show ?thesis using sorted_run by fastforce
qed

lemma template_senders:
  "s \<in> set (remdups (map pt_sender (filter pt_executable (pool_values p)))) \<longleftrightarrow> sender_chain p s \<noteq> []"
proof -
  have "sender_chain p s \<noteq> [] \<longleftrightarrow> (\<exists>t. t \<in> set (sender_chain p s))" by (cases "sender_chain p s") auto
  then show ?thesis by (auto simp: sender_chain_set pool_values_set image_iff)
qed

lemma template_chains_set: "set (template_chains p) = {c. c \<noteq> [] \<and> (\<exists>s. c = sender_chain p s)}"
proof -
  have "set (template_chains p) = sender_chain p ` {s. sender_chain p s \<noteq> []}"
    unfolding template_chains_def set_sort set_map template_senders [symmetric] by simp
  then show ?thesis by auto
qed

lemma template_chains_distinct: "distinct (template_chains p)"
proof -
  have "inj_on (sender_chain p) {s. sender_chain p s \<noteq> []}"
  proof (rule inj_onI)
    fix a b assume "a \<in> {s. sender_chain p s \<noteq> []}" and eq: "sender_chain p a = sender_chain p b"
    then have "hd (sender_chain p a) \<in> set (sender_chain p a)" by simp
    then show "a = b" using eq sender_chain_set by metis
  qed
  then show ?thesis by (simp add: template_chains_def distinct_map template_senders [symmetric] del: set_remdups)
qed

lemma template_chains_filter: "filter (\<lambda>t. pt_sender t = s) (concat (template_chains p)) = sender_chain p s"
proof (cases "sender_chain p s = []")
  case True
  have "t \<notin> set (sender_chain p s)" for t using True by simp
  then have "filter (\<lambda>t. pt_sender t = s) (concat (template_chains p)) = []"
    by (fastforce simp: filter_empty_conv template_chains_set sender_chain_set)
  then show ?thesis using True by simp
next
  case False
  have "filter (\<lambda>t. pt_sender t = s) (concat (template_chains p)) = filter (\<lambda>t. pt_sender t = s) (sender_chain p s)"
  proof (rule filter_concat_one [OF template_chains_distinct])
    show "sender_chain p s \<in> set (template_chains p)" using False by (auto simp: template_chains_set)
    fix c assume "c \<in> set (template_chains p)" "c \<noteq> sender_chain p s"
    then show "filter (\<lambda>t. pt_sender t = s) c = []"
      by (auto simp: template_chains_set filter_empty_conv sender_chain_set)
  qed
  also have "\<dots> = sender_chain p s" by (auto simp: filter_id_conv sender_chain_set)
  finally show ?thesis .
qed

lemma template_txs_distinct:
  assumes "linked p"
  shows "distinct (concat (template_chains p))"
proof (rule distinct_concat [OF template_chains_distinct])
  fix c assume "c \<in> set (template_chains p)"
  then show "distinct c" using pool_values_distinct [OF assms] by (auto simp: template_chains_set sender_chain_def)
next
  fix c d assume "c \<in> set (template_chains p)" "d \<in> set (template_chains p)" "c \<noteq> d"
  then show "set c \<inter> set d = {}" by (auto simp: template_chains_set sender_chain_set)
qed

lemma template_loop_prefix:
  "\<exists>k. template_loop m b ts out n = out @ map pt_bytes (take k ts) \<and>
     (length out \<le> m \<longrightarrow> length out + length (take k ts) \<le> m) \<and>
     (n \<le> b \<longrightarrow> n + sum_list (map (\<lambda>t. length (pt_bytes t)) (take k ts)) \<le> b)"
proof (induction ts arbitrary: out n)
  case Nil
  then show ?case by (intro exI [of _ 0]) simp
next
  case (Cons t ts)
  show ?case
  proof (cases "m \<le> length out \<or> b < n + length (pt_bytes t)")
    case True
    then show ?thesis by (intro exI [of _ 0]) auto
  next
    case False
    obtain k where "template_loop m b ts (out @ [pt_bytes t]) (n + length (pt_bytes t)) = (out @ [pt_bytes t]) @ map pt_bytes (take k ts)"
      "length (out @ [pt_bytes t]) \<le> m \<longrightarrow> length (out @ [pt_bytes t]) + length (take k ts) \<le> m"
      "n + length (pt_bytes t) \<le> b \<longrightarrow> n + length (pt_bytes t) + sum_list (map (\<lambda>t. length (pt_bytes t)) (take k ts)) \<le> b"
      using Cons.IH [of "out @ [pt_bytes t]" "n + length (pt_bytes t)"] by blast
    then show ?thesis using False by (intro exI [of _ "Suc k"]) auto
  qed
qed

lemma submit_verified_InrE:
  assumes "submit_verified ed p net raw lookup now author = Some (Inr ad, q, cs)"
  obtains pr where "pool_check p raw (Enforce author) lookup = Some (Inr pr)" "pool_commit p pr now = Some (Inr ad, q, cs)"
proof -
  obtain c where c: "pool_check p raw (Enforce author) lookup = Some c"
    using assms by (auto simp: submit_verified_def bind_eq_Some_conv)
  then obtain pr where pr: "c = Inr pr" using assms by (cases c) (auto simp: submit_verified_def)
  then obtain v where "sig_proof_verify ed net (pr_tx pr) author = Inr v"
    using assms c by (cases "sig_proof_verify ed net (pr_tx pr) author") (auto simp: submit_verified_def)
  then show ?thesis using that assms c pr by (simp add: submit_verified_def)
qed

section \<open>A sample pool\<close>

definition sample_lookup :: "address \<Rightarrow> account \<times> u128" where
  "sample_lookup _ = (\<lparr> ac_balance = 1000, ac_nonce = 0 \<rparr>, 1000)"

definition sample_prepared :: prepared where
  "sample_prepared = \<lparr> pr_raw = transfer_encode sample_transfer, pr_tx = Transfer sample_transfer,
     pr_txid = transfer_txid sample_transfer, pr_sender = sample_src, pr_nonce = 0, pr_fee = 1, pr_amount = 10,
     pr_next = 0, pr_replaces = None \<rparr>"

lemma sample_nonce_room [simp]: "nonce_room mempool_params_default (fst (sample_lookup s))"
  by (simp add: nonce_room_def sample_lookup_def mempool_params_default_def)

lemma sample_raw: "length (transfer_encode sample_transfer) = 157" "hd (transfer_encode sample_transfer) = TX_TYPE_TRANSFER"
    "decode_tx (transfer_encode sample_transfer) = Inr (Transfer sample_transfer)"
proof -
  have wf: "wf_transfer sample_transfer" by (simp add: wf_transfer_def sample_transfer_def)
  then show "length (transfer_encode sample_transfer) = 157" "hd (transfer_encode sample_transfer) = TX_TYPE_TRANSFER"
    by (simp_all add: transfer_encode_concat transfer_encode_unsigned_concat sample_transfer_def wf_transfer_def)
  show "decode_tx (transfer_encode sample_transfer) = Inr (Transfer sample_transfer)"
    by (rule tx_codec.dec_enc) (simp_all add: wf)
qed

lemma sample_checked:
  "pool_check (mempool_new mempool_params_default) (transfer_encode sample_transfer) (Enforce author) sample_lookup =
     Some (Inr sample_prepared)"
proof -
  have ne: "transfer_encode sample_transfer \<noteq> []" using sample_raw(1) by auto
  have parts: "tx_parts (Transfer sample_transfer) tb = Inr (replicate 32 1, 0, 1, 10, transfer_txid sample_transfer)" for tb
    by (simp add: tx_parts_def sample_transfer_def)
  have acct: "check_account (mempool_new mempool_params_default) (transfer_encode sample_transfer) (Transfer sample_transfer)
      (transfer_txid sample_transfer) sample_src 0 1 10 \<lparr> ac_balance = 1000, ac_nonce = 0 \<rparr> 1000 = Some (Inr sample_prepared)"
    by (simp add: check_account_def sample_prepared_def mempool_new_def mempool_params_default_def sender_map_def
      check_replacement_def pending_outlay_def sender_txs_def sender_len_def effective_per_sender_def checked_add_def
      saturating_sub_def saturating_add_def Let_def List.map_filter_def fm_entries_def sorted_list_of_fset.rep_eq fcard.rep_eq ok_or_def)
  have "fmlookup (mem_txs (mempool_new mempool_params_default)) tid = None" for tid by (simp add: mempool_new_def)
  then show ?thesis
    using sample_raw ne acct
    by (simp add: pool_check_def parts sample_src_def [symmetric] Let_def sample_lookup_def)
       (simp add: mempool_new_def mempool_params_default_def)
qed

lemma sample_submitted:
  obtains ad q cs where "submit_verified sample_ed (mempool_new mempool_params_default) Main
     (transfer_encode sample_transfer) sample_lookup 0 author = Some (Inr ad, q, cs)" "0 < mempool_len q"
proof -
  let ?p = "mempool_new mempool_params_default"
  have ok: "prepared_ok ?p sample_prepared"
    using pool_check_ok(1) [where lookup = sample_lookup, OF mempool_new_ok sample_checked] by (simp add: mempool_new_def)
  obtain r q cs where c: "pool_commit ?p sample_prepared 0 = Some (r, q, cs)" "commit_outcome ?p sample_prepared 0 r q"
    by (rule pool_commit_ok [OF mempool_new_ok ok])
  have vals: "pool_values ?p = []" by (simp add: pool_values_def mempool_new_def)
  have ev: "evict_loop 157 rate ?p [] conds = Some (False, ?p, [], conds)" for rate conds
    by (subst evict_loop.simps) (simp add: mempool_new_def mempool_params_default_def mempool_len_def fcard.rep_eq)
  have "\<exists>ad. r = Inr ad"
    using c(1) ev sample_raw(1) vals unfolding pool_commit_def
    by (auto simp: sweep_expired_def sample_prepared_def bind_eq_Some_conv)
  then obtain ad where ad: "r = Inr ad" by blast
  have sig: "sig_proof_verify sample_ed Main (pr_tx sample_prepared) author = Inr ProvVerified"
    by (simp add: sig_proof_verify_def sample_prepared_def verify_transfer_signature_def verify_signature_def sample_ed_def)
  have "fmlookup (mem_txs q) (pr_txid sample_prepared) \<noteq> None" using c(2) ad by (simp add: commit_outcome_def)
  then have "pr_txid sample_prepared \<in> fmdom' (mem_txs q)" by (simp add: fmdom'_Some)
  then have "fmdom' (mem_txs q) \<noteq> {}" by blast
  then have "0 < mempool_len q" by (simp add: mempool_len_def fcard_fmdom card_gt_0_iff)
  then show ?thesis using that sample_checked c(1) ad sig by (simp add: submit_verified_def)
qed

lemma sample_pool_reach:
  obtains q where "pool_reach sample_ed mempool_params_default q" "0 < mempool_len q"
proof -
  obtain ad q cs where "submit_verified sample_ed (mempool_new mempool_params_default) Main
     (transfer_encode sample_transfer) sample_lookup 0 [] = Some (Inr ad, q, cs)" "0 < mempool_len q"
    by (rule sample_submitted)
  then show ?thesis
    using that reach_verified [where lookup = sample_lookup, OF reach_new _] sample_nonce_room by blast
qed

section \<open>Properties\<close>

text \<open>
  C4. Whatever is submitted, swept, confirmed, reinjected or split again, the indices of the pool
  agree: the table of transactions, the nonce map of every sender, the arrival queue and the byte
  count hold the same transactions.  The pool stays within its limits on transactions, bytes and
  transactions per sender, and the executable transactions of every sender are the ones whose nonces
  continue an unbroken run.
\<close>

theorem mempool_invariant:
  assumes "pool_reach ed params p"
  shows "linked p \<and> mempool_len p \<le> mp_max_txs params \<and> mem_total_bytes p \<le> mp_max_bytes params \<and>
    (\<forall>s. sender_len p s \<le> effective_per_sender params) \<and> (\<forall>s. run_ok p s)"
  using pool_reach_ok [OF assms] by (auto simp: pool_ok_def pool_bounded_def)

theorem mempool_invariant_witness:
  "\<exists>p. pool_reach sample_ed mempool_params_default p \<and> 0 < mempool_len p \<and> linked p \<and>
     mempool_len p \<le> mp_max_txs mempool_params_default"
proof -
  obtain p where p: "pool_reach sample_ed mempool_params_default p" "0 < mempool_len p" by (rule sample_pool_reach)
  show ?thesis using mempool_invariant [OF p(1)] p by blast
qed

text \<open>
  C5. On every reachable pool a submission returns: neither an index lookup nor the byte count nor the
  next nonce panics, and the eviction loop ends.  Either the pool is unchanged, or the transaction
  passed all rules and then a transaction leaves the pool only if it is expired, pays no more per byte
  than the newcomer or is replaced by it; nothing but the newcomer enters; on success it is in the pool
  with its fields and the replaced transaction is gone; a full pool is the only late refusal.
\<close>

theorem mempool_submit_total:
  assumes "pool_reach ed params p" "\<And>s. nonce_room params (fst (lookup s))"
  shows "\<exists>r q cs. submit_verified ed p net raw lookup now author = Some (r, q, cs) \<and> submit_outcome p lookup now r q"
proof -
  have p: "pool_ok p" "\<And>s. nonce_room (mem_params p) (fst (lookup s))" using pool_reach_ok [OF assms(1)] assms(2) by simp_all
  obtain r q cs where "submit_verified ed p net raw lookup now author = Some (r, q, cs)" "submit_outcome p lookup now r q"
    by (rule submit_verified_ok [where lookup = lookup, OF p])
  then show ?thesis by blast
qed

theorem mempool_submit_total_witness:
  "\<exists>p r q cs. 0 < mempool_len p \<and> submit_verified sample_ed p Main (transfer_encode sample_transfer) sample_lookup 0 [] = Some (r, q, cs) \<and>
     submit_outcome p sample_lookup 0 r q"
proof -
  obtain p where p: "pool_reach sample_ed mempool_params_default p" "0 < mempool_len p" by (rule sample_pool_reach)
  show ?thesis using mempool_submit_total [OF p(1), where lookup = sample_lookup, OF sample_nonce_room] p(2) by blast
qed

text \<open>
  C6. An admitted transaction is covered: all that its sender has in the pool afterwards, amounts and
  fees together, is at most what the sender could spend at that moment, and the saturating sum of the
  pool is this exact sum.
\<close>

theorem mempool_solvent:
  assumes "pool_reach ed params p" "\<And>s. nonce_room params (fst (lookup s))"
    "submit_verified ed p net raw lookup now author = Some (Inr ad, q, cs)"
  shows "\<exists>t. mempool_get q (ad_txid ad) = Some t \<and> pt_bytes t = raw \<and>
    unat (pending_outlay q (pt_sender t)) = outlay_of q (pt_sender t) \<and>
    outlay_of q (pt_sender t) \<le> unat (snd (lookup (pt_sender t)))"
proof -
  have p: "pool_ok p" "\<And>s. nonce_room (mem_params p) (fst (lookup s))" using pool_reach_ok [OF assms(1)] assms(2) by simp_all
  obtain pr where c: "pool_check p raw (Enforce author) lookup = Some (Inr pr)" and pc: "pool_commit p pr now = Some (Inr ad, q, cs)"
    by (rule submit_verified_InrE [OF assms(3)])
  note pr = pool_check_ok [where lookup = lookup, OF p(1) c p(2)]
  have "commit_outcome p pr now (Inr ad) q" by (rule pool_commit_ok [OF p(1) pr(1), of now]) (use pc in simp)
  then have q: "pool_ok q" "ad_txid ad = pr_txid pr" "outlay_of q (pr_sender pr) \<le> needed_outlay p pr"
    "\<exists>t. fmlookup (mem_txs q) (pr_txid pr) = Some t \<and> pt_sender t = pr_sender pr \<and> pt_bytes t = pr_raw pr"
    by (simp_all add: commit_outcome_def)
  have "unat (pending_outlay q s) = outlay_of q s" for s
    using pending_outlay_val [OF pool_okD(1) [OF q(1)], of s] pool_ok_outlay [OF q(1), of s] by simp
  moreover have "pr_raw pr = raw" by (rule pool_check_raw [OF c])
  ultimately show ?thesis using q pr(2) unfolding mempool_get_def by auto
qed

theorem mempool_solvent_witness:
  "\<exists>ad q cs t. submit_verified sample_ed (mempool_new mempool_params_default) Main (transfer_encode sample_transfer)
     sample_lookup 0 [] = Some (Inr ad, q, cs) \<and> mempool_get q (ad_txid ad) = Some t \<and> outlay_of q (pt_sender t) \<le> 1000"
proof -
  obtain ad q cs where s: "submit_verified sample_ed (mempool_new mempool_params_default) Main
     (transfer_encode sample_transfer) sample_lookup 0 [] = Some (Inr ad, q, cs)" by (rule sample_submitted)
  show ?thesis using mempool_solvent [where lookup = sample_lookup, OF reach_new sample_nonce_room s] s by (auto simp: sample_lookup_def)
qed

text \<open>
  C7. A block template of a reachable pool lists distinct executable transactions of the pool within the
  limits on count and bytes, and the nonces of every sender appear in it as an unbroken ascending run,
  so that no transaction of the template waits for one that is missing.
\<close>

theorem template_runs:
  assumes "pool_reach ed params p"
  shows "\<exists>ts. template p max_txs max_bytes = map pt_bytes ts \<and> distinct ts \<and> length ts \<le> max_txs \<and>
    sum_list (map (\<lambda>t. length (pt_bytes t)) ts) \<le> max_bytes \<and>
    set ts \<subseteq> {t. pt_executable t \<and> mempool_get p (pt_txid t) = Some t} \<and>
    (\<forall>s. \<exists>start k. map pt_nonce (filter (\<lambda>t. pt_sender t = s) ts) = nonce_run start k)"
proof -
  have p: "linked p" "\<And>s. run_ok p s" using pool_reach_ok [OF assms] by (simp_all add: pool_ok_def)
  let ?all = "concat (template_chains p)"
  obtain k where k: "template p max_txs max_bytes = map pt_bytes (take k ?all)" "length (take k ?all) \<le> max_txs"
    "sum_list (map (\<lambda>t. length (pt_bytes t)) (take k ?all)) \<le> max_bytes"
    using template_loop_prefix [of max_txs max_bytes ?all "[]" 0] by (auto simp: template_def)
  have "set (take k ?all) \<subseteq> {t. pt_executable t \<and> mempool_get p (pt_txid t) = Some t}"
  proof
    fix t assume "t \<in> set (take k ?all)"
    then have "t \<in> set ?all" by (rule in_set_takeD)
    then obtain tid where "fmlookup (mem_txs p) tid = Some t" "pt_executable t" by (auto simp: template_chains_set sender_chain_set)
    then show "t \<in> {t. pt_executable t \<and> mempool_get p (pt_txid t) = Some t}" using linkedD(1) [OF p(1)] by (simp add: mempool_get_def)
  qed
  moreover have "\<exists>start j. map pt_nonce (filter (\<lambda>t. pt_sender t = s) (take k ?all)) = nonce_run start j" for s
  proof -
    obtain start where "run_from p s start" using p(2) [of s] unfolding run_ok_def by blast
    then have run: "map pt_nonce (sender_chain p s) = nonce_run start (length (sender_chain p s))" by (rule sender_chain_run [OF p(1)])
    obtain j where "filter (\<lambda>t. pt_sender t = s) (take k ?all) = take j (sender_chain p s)"
      using filter_take [of "\<lambda>t. pt_sender t = s" k ?all] unfolding template_chains_filter by blast
    then show ?thesis by (metis run take_map take_nonce_run)
  qed
  ultimately show ?thesis using k template_txs_distinct [OF p(1)] distinct_take by blast
qed

theorem template_runs_witness:
  "\<exists>p (ts :: pool_tx list). pool_reach sample_ed mempool_params_default p \<and> 0 < mempool_len p \<and> template p 10 4096 = map pt_bytes ts \<and>
     distinct ts \<and> length ts \<le> 10"
proof -
  obtain p where p: "pool_reach sample_ed mempool_params_default p" "0 < mempool_len p" by (rule sample_pool_reach)
  show ?thesis using template_runs [OF p(1), of 10 4096] p by blast
qed

end
