(* ===== verification/Ingress.thy ===== *)
theory Ingress
  imports Fin_Maps Chain_Types "HOL-Library.Monad_Syntax"
begin

text \<open>
  The transaction ingress budget of \<open>lib/chain/src/mempool.rs\<close>: every source has a token bucket of
  its own and a small reserve, and all sources share one more bucket.  The scan for a source to evict
  goes through a hash map and takes the first full one; the order of that scan is an argument.
\<close>

section \<open>Data and operations\<close>

record ingress_source =
  is_own :: u64
  is_own_last_ms :: u64
  is_reserve :: u64
  is_reserve_last_ms :: u64
  is_primed :: bool

definition ingress_source_default :: ingress_source where
  "ingress_source_default =
     \<lparr> is_own = 0, is_own_last_ms = 0, is_reserve = 0, is_reserve_last_ms = 0, is_primed = False \<rparr>"

record ingress =
  ig_sources :: "(source_id, ingress_source) fmap"
  ig_shared :: u64
  ig_shared_last_ms :: u64
  ig_primed :: bool

definition ingress_new :: ingress where
  "ingress_new = \<lparr> ig_sources = fmempty, ig_shared = 0, ig_shared_last_ms = 0, ig_primed = False \<rparr>"

definition ig_source_count :: "ingress \<Rightarrow> nat" where
  "ig_source_count ig = fcard (fmdom (ig_sources ig))"

definition ig_forget :: "ingress \<Rightarrow> source_id \<Rightarrow> ingress" where
  "ig_forget ig source = ig \<lparr> ig_sources := fmdrop source (ig_sources ig) \<rparr>"

definition refill_own :: "chain_params \<Rightarrow> u64 \<Rightarrow> ingress_source \<Rightarrow> ingress_source" where
  "refill_own params mono_ms s =
     (let mp = cp_mempool params;
          elapsed = saturating_sub mono_ms (is_own_last_ms s);
          refill = saturating_mul elapsed (ingress_source_rate_milli mp) div 1000
      in if 0 < refill
         then s \<lparr> is_own := min (saturating_add (is_own s) refill) (ingress_source_burst_milli mp), is_own_last_ms := mono_ms \<rparr>
         else s)"

definition refill_reserve :: "chain_params \<Rightarrow> u64 \<Rightarrow> ingress_source \<Rightarrow> ingress_source" where
  "refill_reserve params mono_ms s =
     (let mp = cp_mempool params;
          elapsed = saturating_sub mono_ms (is_reserve_last_ms s);
          refill = saturating_mul elapsed (ingress_reserve_rate_milli mp (cp_max_peers params)) div 1000
      in if 0 < refill
         then s \<lparr> is_reserve := min (saturating_add (is_reserve s) refill) (ingress_reserve_burst_milli mp),
                  is_reserve_last_ms := mono_ms \<rparr>
         else s)"

definition is_refill :: "chain_params \<Rightarrow> u64 \<Rightarrow> ingress_source \<Rightarrow> ingress_source" where
  "is_refill params mono_ms s =
     (if \<not> is_primed s
      then \<lparr> is_own = ingress_source_burst_milli (cp_mempool params), is_own_last_ms = mono_ms,
             is_reserve = ingress_reserve_burst_milli (cp_mempool params), is_reserve_last_ms = mono_ms, is_primed = True \<rparr>
      else refill_reserve params mono_ms (refill_own params mono_ms s))"

definition refill_shared_tx :: "chain_params \<Rightarrow> u64 \<Rightarrow> ingress \<Rightarrow> ingress" where
  "refill_shared_tx params mono_ms ig =
     (let mp = cp_mempool params in
      if \<not> ig_primed ig
      then ig \<lparr> ig_primed := True, ig_shared := ingress_shared_burst_milli mp, ig_shared_last_ms := mono_ms \<rparr>
      else
        let elapsed = saturating_sub mono_ms (ig_shared_last_ms ig);
            refill = saturating_mul elapsed (ingress_shared_rate_milli mp) div 1000
        in if 0 < refill
           then ig \<lparr> ig_shared := min (saturating_add (ig_shared ig) refill) (ingress_shared_burst_milli mp),
                     ig_shared_last_ms := mono_ms \<rparr>
           else ig)"

definition source_full :: "chain_params \<Rightarrow> ingress_source \<Rightarrow> bool" where
  "source_full params s \<longleftrightarrow> ingress_source_burst_milli (cp_mempool params) \<le> is_own s \<and>
     ingress_reserve_burst_milli (cp_mempool params) \<le> is_reserve s"

text \<open>The scan at the cap: every source is refilled and the first full one in the order is the victim.\<close>

definition ig_make_room :: "chain_params \<Rightarrow> u64 \<Rightarrow> source_id list \<Rightarrow> source_id \<Rightarrow> ingress \<Rightarrow> (reject + unit) \<times> ingress" where
  "ig_make_room params mono_ms order source ig =
     (if fmlookup (ig_sources ig) source = None \<and> cp_max_sources params \<le> ig_source_count ig
      then
        let ss = fmmap (is_refill params mono_ms) (ig_sources ig);
            full = (\<lambda>k. case fmlookup ss k of None \<Rightarrow> False | Some s \<Rightarrow> source_full params s)
        in (case List.find full order of
              Some k \<Rightarrow> (Inr (), ig \<lparr> ig_sources := fmdrop k ss \<rparr>)
            | None \<Rightarrow> (Inl (TooManySources source (cp_max_sources params)), ig \<lparr> ig_sources := ss \<rparr>))
      else (Inr (), ig))"

definition ig_spend :: "chain_params \<Rightarrow> u64 \<Rightarrow> source_id \<Rightarrow> ingress \<Rightarrow> (reject + unit) \<times> ingress" where
  "ig_spend params mono_ms source ig =
     (let st = (case fmlookup (ig_sources ig) source of Some s \<Rightarrow> s | None \<Rightarrow> ingress_source_default);
          st = is_refill params mono_ms st;
          put = (\<lambda>s ig. ig \<lparr> ig_sources := fmupd source s (ig_sources ig) \<rparr>)
      in if is_own st < TX_COST_MILLI then (Inl (RejBudgetExhausted source), put st ig)
         else if TX_COST_MILLI \<le> ig_shared ig
         then (Inr (), put (st \<lparr> is_own := is_own st - TX_COST_MILLI \<rparr>) (ig \<lparr> ig_shared := ig_shared ig - TX_COST_MILLI \<rparr>))
         else if TX_COST_MILLI \<le> is_reserve st
         then (Inr (), put (st \<lparr> is_reserve := is_reserve st - TX_COST_MILLI, is_own := is_own st - TX_COST_MILLI \<rparr>) ig)
         else (Inl (RejBudgetExhausted source), put st ig))"

definition ig_admit :: "chain_params \<Rightarrow> u64 \<Rightarrow> source_id list \<Rightarrow> source_id \<Rightarrow> ingress \<Rightarrow> (reject + unit) \<times> ingress" where
  "ig_admit params mono_ms order source ig =
     (let ig = refill_shared_tx params mono_ms ig in
      case ig_make_room params mono_ms order source ig of
        (Inl e, ig) \<Rightarrow> (Inl e, ig)
      | (Inr _, ig) \<Rightarrow> ig_spend params mono_ms source ig)"

definition tx_ingress_exhausted :: "source_id \<Rightarrow> condition" where
  "tx_ingress_exhausted source = CondBudgetExhausted source TxIngress"

section \<open>Sequences of requests\<close>

text \<open>A run of requests at their times; the result counts the admissions of one source.\<close>

fun admit_run :: "chain_params \<Rightarrow> source_id \<Rightarrow> (u64 \<times> source_id list \<times> source_id) list \<Rightarrow> ingress \<Rightarrow> nat \<times> ingress" where
  "admit_run params who [] ig = (0, ig)"
| "admit_run params who ((t, order, source) # reqs) ig =
     (let (r, ig) = ig_admit params t order source ig;
          (n, ig) = admit_run params who reqs ig
      in ((if source = who \<and> r = Inr () then 1 else 0) + n, ig))"

text \<open>What one source has left: its bucket in thousandths, or the time the clock shows when it is unknown.\<close>

definition own_budget_ok :: "chain_params \<Rightarrow> nat \<Rightarrow> source_id \<Rightarrow> nat \<Rightarrow> nat \<Rightarrow> ingress \<Rightarrow> bool" where
  "own_budget_ok params t0 who now n ig \<longleftrightarrow>
     (case fmlookup (ig_sources ig) who of
        None \<Rightarrow> 1000000 * n \<le> unat (ingress_source_rate_milli (cp_mempool params)) * (now - t0)
      | Some s \<Rightarrow> is_primed s \<and> t0 \<le> unat (is_own_last_ms s) \<and> unat (is_own_last_ms s) \<le> now \<and>
          1000000 * n + 1000 * unat (is_own s) \<le>
            1000 * unat (ingress_source_burst_milli (cp_mempool params)) +
            unat (ingress_source_rate_milli (cp_mempool params)) * (unat (is_own_last_ms s) - t0))"

lemma refill_amount:
  "1000 * unat (saturating_mul a b div 1000 :: u64) \<le> unat a * unat b"
proof -
  have "unat (saturating_mul a b) \<le> unat a * unat b" by (auto simp: saturating_mul_def unat_word_ariths(2) unat_max_word not_less)
  then show ?thesis by (simp add: unat_div)
qed

lemma is_refill_budget:
  assumes "is_primed s" "t0 \<le> unat (is_own_last_ms s)" "unat (is_own_last_ms s) \<le> unat t"
    and "c + 1000 * unat (is_own s) \<le> b + unat (ingress_source_rate_milli (cp_mempool params)) * (unat (is_own_last_ms s) - t0)"
  shows "is_primed (is_refill params t s)" "t0 \<le> unat (is_own_last_ms (is_refill params t s))"
    "unat (is_own_last_ms (is_refill params t s)) \<le> unat t"
    "c + 1000 * unat (is_own (is_refill params t s)) \<le>
       b + unat (ingress_source_rate_milli (cp_mempool params)) * (unat (is_own_last_ms (is_refill params t s)) - t0)"
proof -
  let ?rate = "ingress_source_rate_milli (cp_mempool params)"
  let ?e = "saturating_sub t (is_own_last_ms s)"
  let ?r = "saturating_mul ?e ?rate div 1000"
  have own: "is_own (is_refill params t s) = is_own (refill_own params t s)"
    "is_own_last_ms (is_refill params t s) = is_own_last_ms (refill_own params t s)"
    "is_primed (is_refill params t s)"
    using assms(1) by (simp_all add: is_refill_def refill_reserve_def refill_own_def Let_def)
  show "is_primed (is_refill params t s)" by (rule own)
  show "t0 \<le> unat (is_own_last_ms (is_refill params t s))" "unat (is_own_last_ms (is_refill params t s)) \<le> unat t"
    using assms(2,3) by (auto simp: own refill_own_def Let_def)
  show "c + 1000 * unat (is_own (is_refill params t s)) \<le> b + unat ?rate * (unat (is_own_last_ms (is_refill params t s)) - t0)"
  proof (cases "0 < ?r")
    case False
    then show ?thesis using assms(4) by (simp add: own refill_own_def Let_def)
  next
    case True
    have "1000 * unat ?r \<le> (unat t - unat (is_own_last_ms s)) * unat ?rate"
      using refill_amount [of ?e ?rate] by (simp add: unat_saturating_sub)
    moreover have "unat (min (saturating_add (is_own s) ?r) (ingress_source_burst_milli (cp_mempool params))) \<le> unat (is_own s) + unat ?r"
      by (auto simp: min_def word_le_nat_alt unat_saturating_add)
    moreover have "unat t - t0 = (unat t - unat (is_own_last_ms s)) + (unat (is_own_last_ms s) - t0)" using assms(2,3) by simp
    then have "unat ?rate * (unat t - t0) = (unat t - unat (is_own_last_ms s)) * unat ?rate + unat ?rate * (unat (is_own_last_ms s) - t0)"
      by (simp add: algebra_simps)
    ultimately show ?thesis using True assms(4) by (simp add: own refill_own_def Let_def)
  qed
qed

lemma own_budget_mono: "own_budget_ok params t0 who now n ig \<Longrightarrow> now \<le> now' \<Longrightarrow> own_budget_ok params t0 who now' n ig"
proof -
  assume a: "own_budget_ok params t0 who now n ig" and l: "now \<le> now'"
  have m: "unat (ingress_source_rate_milli (cp_mempool params)) * (now - t0) \<le> unat (ingress_source_rate_milli (cp_mempool params)) * (now' - t0)"
    using l by (intro mult_le_mono2 diff_le_mono)
  show ?thesis
  proof (cases "fmlookup (ig_sources ig) who")
    case None
    then show ?thesis using a order_trans [OF _ m] by (simp only: own_budget_ok_def option.case)
  next
    case (Some s)
    then show ?thesis using a l by (simp add: own_budget_ok_def)
  qed
qed

lemma own_budget_shared: "own_budget_ok params t0 who now n (refill_shared_tx params t ig) = own_budget_ok params t0 who now n ig"
  by (simp add: own_budget_ok_def refill_shared_tx_def Let_def)

lemma own_budget_room:
  assumes ok: "own_budget_ok params t0 who (unat t) n ig" and room: "ig_make_room params t order source ig = (r, ig')"
  shows "own_budget_ok params t0 who (unat t) n ig'"
proof (cases "fmlookup (ig_sources ig) source = None \<and> cp_max_sources params \<le> ig_source_count ig")
  case False
  then show ?thesis using ok room by (auto simp: ig_make_room_def)
next
  case True
  let ?ss = "fmmap (is_refill params t) (ig_sources ig)"
  have all: "own_budget_ok params t0 who (unat t) n (ig \<lparr> ig_sources := ?ss \<rparr>)"
  proof (cases "fmlookup (ig_sources ig) who")
    case (Some s)
    then show ?thesis using ok is_refill_budget [of s t0 t "1000000 * n" "1000 * unat (ingress_source_burst_milli (cp_mempool params))" params] by (simp add: own_budget_ok_def)
  qed (use ok in \<open>simp add: own_budget_ok_def\<close>)
  show ?thesis
  proof (cases "List.find (\<lambda>k. case fmlookup ?ss k of None \<Rightarrow> False | Some s \<Rightarrow> source_full params s) order")
    case None
    then show ?thesis using room True all by (simp add: ig_make_room_def Let_def)
  next
    case (Some k)
    then have ig': "ig' = ig \<lparr> ig_sources := fmdrop k ?ss \<rparr>" using room True by (simp add: ig_make_room_def Let_def)
    show ?thesis
    proof (cases "k = who")
      case False
      then show ?thesis using all by (simp add: own_budget_ok_def ig')
    next
      case True
      obtain s where s: "fmlookup ?ss who = Some s" "source_full params s"
        using Some True by (auto simp: List.find_Some_iff split: option.splits)
      have sel: "fmlookup (ig_sources (ig \<lparr> ig_sources := ?ss \<rparr>)) who = Some s" using s(1) by simp
      have all': "unat (is_own_last_ms s) \<le> unat t" "1000000 * n + 1000 * unat (is_own s) \<le>
          1000 * unat (ingress_source_burst_milli (cp_mempool params)) +
          unat (ingress_source_rate_milli (cp_mempool params)) * (unat (is_own_last_ms s) - t0)"
        using all unfolding own_budget_ok_def sel by simp_all
      have "1000 * unat (ingress_source_burst_milli (cp_mempool params)) \<le> 1000 * unat (is_own s)"
        using s(2) by (simp add: source_full_def word_le_nat_alt)
      then have "1000000 * n \<le> unat (ingress_source_rate_milli (cp_mempool params)) * (unat (is_own_last_ms s) - t0)"
        using all'(2) by linarith
      also have "\<dots> \<le> unat (ingress_source_rate_milli (cp_mempool params)) * (unat t - t0)"
        using all'(1) by (intro mult_le_mono2 diff_le_mono)
      finally show ?thesis by (simp add: own_budget_ok_def ig' True)
    qed
  qed
qed

lemma own_budget_spend:
  assumes ok: "own_budget_ok params t0 who (unat t) n ig" and t0: "t0 \<le> unat t" and sp: "ig_spend params t source ig = (r, ig')"
  shows "own_budget_ok params t0 who (unat t) ((if source = who \<and> r = Inr () then 1 else 0) + n) ig'"
proof (cases "source = who")
  case False
  then have "fmlookup (ig_sources ig') who = fmlookup (ig_sources ig) who"
    using sp by (auto simp: ig_spend_def Let_def split: if_splits)
  then show ?thesis using ok False by (simp add: own_budget_ok_def)
next
  case True
  define st where "st = is_refill params t (case fmlookup (ig_sources ig) who of Some s \<Rightarrow> s | None \<Rightarrow> ingress_source_default)"
  have "is_primed st \<and> t0 \<le> unat (is_own_last_ms st) \<and> unat (is_own_last_ms st) \<le> unat t \<and>
      1000000 * n + 1000 * unat (is_own st) \<le> 1000 * unat (ingress_source_burst_milli (cp_mempool params)) +
       unat (ingress_source_rate_milli (cp_mempool params)) * (unat (is_own_last_ms st) - t0)" (is "?ok st")
  proof (cases "fmlookup (ig_sources ig) who")
    case None
    then show ?thesis using ok t0 by (simp add: own_budget_ok_def st_def is_refill_def ingress_source_default_def)
  next
    case (Some s)
    then show ?thesis
      using ok is_refill_budget [of s t0 t "1000000 * n" "1000 * unat (ingress_source_burst_milli (cp_mempool params))" params]
      by (simp add: own_budget_ok_def st_def)
  qed
  note st = this
  have cost: "unat (is_own st - 1000) = unat (is_own st) - 1000" "1000 \<le> unat (is_own st)" if "\<not> is_own st < 1000"
  proof -
    have "(1000 :: u64) \<le> is_own st" using that by simp
    then show "unat (is_own st - 1000) = unat (is_own st) - 1000" "1000 \<le> unat (is_own st)"
      by (simp_all add: unat_sub_le word_le_nat_alt)
  qed
  show ?thesis
    using sp st cost True unfolding ig_spend_def Let_def st_def [symmetric] True
    by (auto simp: own_budget_ok_def split: if_splits)
qed

lemma admit_run_budget:
  assumes "own_budget_ok params t0 who now n ig" "t0 \<le> now"
    "sorted (now # map (\<lambda>(t, _). unat t) reqs)" "admit_run params who reqs ig = (k, ig')"
  shows "own_budget_ok params t0 who (last (now # map (\<lambda>(t, _). unat t) reqs)) (k + n) ig'"
  using assms
proof (induction reqs arbitrary: now n ig k)
  case (Cons req reqs)
  obtain t order source where req: "req = (t, order, source)" by (metis prod_cases3)
  obtain r ig1 where a: "ig_admit params t order source ig = (r, ig1)" by fastforce
  obtain m where m: "admit_run params who reqs ig1 = (m, ig')" "k = (if source = who \<and> r = Inr () then 1 else 0) + m"
    using Cons.prems(4) a by (auto simp: req split: prod.splits)
  have le: "now \<le> unat t" "t0 \<le> unat t" using Cons.prems(2,3) by (simp_all add: req)
  have ok: "own_budget_ok params t0 who (unat t) n (refill_shared_tx params t ig)"
    using own_budget_mono [OF Cons.prems(1) le(1)] by (simp add: own_budget_shared)
  have ok1: "own_budget_ok params t0 who (unat t) ((if source = who \<and> r = Inr () then 1 else 0) + n) ig1"
  proof (cases "ig_make_room params t order source (refill_shared_tx params t ig)")
    case (Pair e ig2)
    note ok2 = own_budget_room [OF ok Pair]
    show ?thesis
    proof (cases e)
      case (Inl x)
      then show ?thesis using a Pair ok2 by (auto simp: ig_admit_def Let_def)
    next
      case (Inr x)
      then show ?thesis using own_budget_spend [OF ok2 le(2)] a Pair by (simp add: ig_admit_def Let_def)
    qed
  qed
  have "sorted (unat t # map (\<lambda>(t, _). unat t) reqs)" using Cons.prems(3) by (simp add: req)
  from Cons.IH [OF ok1 le(2) this m(1)] show ?case
    using m(2) by (simp add: req add_ac split: if_splits)
qed simp

section \<open>Properties\<close>

text \<open>
  C8. However a source spreads its transactions over time and however often it is dropped from the table
  and comes back, the number admitted is at most its burst plus its rate times the time that has passed:
  a million per transaction against a thousand times the burst, in thousandths of a transaction, plus
  the rate, in thousandths per second, times the milliseconds between the first and the last request.
  Eviction gives no credit, since only a source with full budgets is evicted.
\<close>

theorem ingress_rate_bound:
  assumes "reqs \<noteq> []" "sorted (map (\<lambda>(t, _). unat t) reqs)" "admit_run params who reqs ingress_new = (k, ig)"
  shows "1000000 * k \<le> 1000 * unat (ingress_source_burst_milli (cp_mempool params)) +
    unat (ingress_source_rate_milli (cp_mempool params)) * (unat (fst (last reqs)) - unat (fst (hd reqs)))"
proof -
  let ?t0 = "unat (fst (hd reqs))" and ?rate = "unat (ingress_source_rate_milli (cp_mempool params))"
  have start: "own_budget_ok params ?t0 who ?t0 0 ingress_new" by (simp add: own_budget_ok_def ingress_new_def)
  have srt: "sorted (?t0 # map (\<lambda>(t, _). unat t) reqs)"
    using assms(1,2) by (cases reqs) (auto split: prod.splits)
  have "last (?t0 # map (\<lambda>(t, _). unat t) reqs) = unat (fst (last reqs))"
    using assms(1) by (simp add: last_map case_prod_beta)
  then have fin: "own_budget_ok params ?t0 who (unat (fst (last reqs))) k ig"
    using admit_run_budget [OF start order_refl srt assms(3)] by simp
  show ?thesis
  proof (cases "fmlookup (ig_sources ig) who")
    case None
    then show ?thesis using fin by (simp add: own_budget_ok_def)
  next
    case (Some s)
    have "?rate * (unat (is_own_last_ms s) - ?t0) \<le> ?rate * (unat (fst (last reqs)) - ?t0)"
      using fin Some by (intro mult_le_mono2 diff_le_mono) (simp add: own_budget_ok_def)
    moreover have "1000000 * k + 1000 * unat (is_own s) \<le> 1000 * unat (ingress_source_burst_milli (cp_mempool params)) +
        ?rate * (unat (is_own_last_ms s) - ?t0)" using fin Some by (simp add: own_budget_ok_def)
    ultimately show ?thesis by linarith
  qed
qed

theorem ingress_rate_bound_witness:
  "1000000 * fst (admit_run chain_params_default 7 [(5, [], 7), (15, [], 7)] ingress_new) \<le> 1000 * 100000 + 100000 * 10"
proof -
  let ?reqs = "[(5, [], 7), (15, [], 7)] :: (u64 \<times> source_id list \<times> source_id) list"
  have rate: "ingress_source_rate_milli (cp_mempool chain_params_default) = 100000"
    "ingress_source_burst_milli (cp_mempool chain_params_default) = 100000"
    by (simp_all add: ingress_source_burst_milli_def ingress_source_rate_milli_def chain_params_default_def
      mempool_params_default_def saturating_mul_def)
  obtain k ig where run: "admit_run chain_params_default 7 ?reqs ingress_new = (k, ig)" by fastforce
  have "?reqs \<noteq> []" "sorted (map (\<lambda>(t, _). unat t) ?reqs)" by simp_all
  from ingress_rate_bound [OF this run] have "1000000 * k \<le> 1000 * 100000 + 100000 * 10" unfolding rate by simp
  then show ?thesis unfolding run by simp
qed

end
