(* ===== verification/Gates.thy ===== *)
theory Gates
  imports Chain_Work Reorg_Rules
begin

text \<open>
  The stateless header checks of \<open>lib/chain/src/gates.rs\<close>, in the order header ingest applies them.
\<close>

unbundle bit_operations_syntax

section \<open>Operations\<close>

definition s1_fixed_fields :: "bytes \<Rightarrow> target \<Rightarrow> reject + header" where
  "s1_fixed_fields raw pow_limit =
     (if length raw \<noteq> HEADER_BYTES then Inl (BadHeaderLength (length raw))
      else
        bindE (mapE (\<lambda>_. BadHeaderLength (length raw)) (header_decode raw)) (\<lambda>h.
          if hdr_ext_root h \<noteq> replicate 32 0 then Inl ExtRootNotZero
          else if AUTHOR_NOTE_MAX_BYTES < unat (hdr_author_note_len h) then Inl (AuthorNoteLen (hdr_author_note_len h))
          else if hdr_version h AND 0xE0000000 \<noteq> VERSION_BASE then Inl (BadVersion (hdr_version h))
          else if expand_bits (hdr_bits h) pow_limit = None then Inl (BadBits (hdr_bits h))
          else Inr h))"

definition s1b_checkpoint :: "(u64 \<times> hash32) list \<Rightarrow> u64 \<Rightarrow> hash32 \<Rightarrow> reject + unit" where
  "s1b_checkpoint checkpoints height hash =
     mapE (\<lambda>_. RejCheckpointMismatch height) (check_block_checkpoint checkpoints height hash)"

definition s2_height :: "u64 \<Rightarrow> u64 \<Rightarrow> reject + unit" where
  "s2_height child_height parent_height =
     (let expected = saturating_add parent_height 1
      in if child_height \<noteq> expected then Inl (HeightNotParentPlusOne child_height expected) else Inr ())"

definition s3_bits :: "u32 \<Rightarrow> u32 \<Rightarrow> reject + unit" where
  "s3_bits got expected = (if got \<noteq> expected then Inl (BitsNotAsert got expected) else Inr ())"

text \<open>The outer option is the panic of \<open>median_time_past\<close> on an empty window.\<close>

definition s4_time :: "u64 list \<Rightarrow> u64 \<Rightarrow> u64 \<Rightarrow> (reject + unit) option" where
  "s4_time ancestor_times time now =
     (case median_time_past ancestor_times of
        None \<Rightarrow> None
      | Some mtp \<Rightarrow>
          Some (mapE (\<lambda>e. case e of
              TimestampTooOld mtp time \<Rightarrow> RejTimestampTooOld mtp time
            | _ \<Rightarrow> RejTimestampTooFarInFuture time (saturating_add now MAX_FUTURE_DRIFT_SECS))
            (check_block_time mtp time now)))"

datatype anchor_reach = NotReached | Matches | Contradicts

definition s5_fork_depth :: "tip_ref \<Rightarrow> u64 \<Rightarrow> anchor option \<Rightarrow> anchor_reach \<Rightarrow> chain_params \<Rightarrow> reject + unit" where
  "s5_fork_depth tip branch_base_height anchor reach params =
     (let cap = cp_max_reorg_depth params in
      if cap = 0 then Inr ()
      else
        let depth = saturating_sub (tip_height tip) branch_base_height in
        if depth \<le> cap then Inr ()
        else
          let exempt = anchor \<noteq> None \<and> reach \<noteq> Contradicts in
          if exempt then Inr () else Inl (ForkTooDeep depth cap))"

definition s6_claimed_work :: "work \<Rightarrow> hash32 \<Rightarrow> u64 \<Rightarrow> u64 \<Rightarrow> tip_ref \<Rightarrow> reject + unit" where
  "s6_claimed_work cand_work cand_tip_hash cand_tip_height depth tip =
     (if work_cmp cand_work (tip_chainwork tip) = Greater then Inr ()
      else if work_cmp cand_work (tip_chainwork tip) = Equal \<and> depth = 1 \<and> cand_tip_height = tip_height tip \<and>
        cand_tip_hash < tip_hash_of tip then Inr ()
      else Inl InsufficientClaimedWork)"

section \<open>What the gates admit\<close>

text \<open>The fields every block header must have.\<close>

definition fixed_fields_ok :: "target \<Rightarrow> bytes \<Rightarrow> header \<Rightarrow> bool" where
  "fixed_fields_ok limit raw h \<longleftrightarrow> length raw = HEADER_BYTES \<and> header_decode raw = Inr h \<and>
     hdr_ext_root h = replicate 32 0 \<and> unat (hdr_author_note_len h) \<le> AUTHOR_NOTE_MAX_BYTES \<and>
     hdr_version h AND 0xE0000000 = VERSION_BASE \<and> expand_bits (hdr_bits h) limit \<noteq> None"

lemma s1_fixed_fields_Inr: "s1_fixed_fields raw limit = Inr h \<longleftrightarrow> fixed_fields_ok limit raw h"
  by (auto simp: s1_fixed_fields_def fixed_fields_ok_def result_simps)

lemma s2_height_Inr: "s2_height c p = Inr () \<longleftrightarrow> c = saturating_add p 1"
  by (simp add: s2_height_def Let_def)

lemma s3_bits_Inr: "s3_bits got expected = Inr () \<longleftrightarrow> got = expected"
  by (simp add: s3_bits_def)

lemma s4_time_Inr:
  "s4_time ts time now = Some (Inr ()) \<longleftrightarrow>
   (\<exists>mtp. median_time_past ts = Some mtp \<and> mtp < time \<and> time \<le> saturating_add now MAX_FUTURE_DRIFT_SECS)"
  by (auto simp: s4_time_def check_block_time_def Let_def result_simps not_le split: option.splits)

lemma s4_time_total: "ts \<noteq> [] \<Longrightarrow> s4_time ts time now \<noteq> None"
  by (simp add: s4_time_def median_time_past_def Let_def)

lemma s5_fork_depth_Inr:
  "s5_fork_depth tip base anchor reach params = Inr () \<longleftrightarrow>
   cp_max_reorg_depth params = 0 \<or> saturating_sub (tip_height tip) base \<le> cp_max_reorg_depth params \<or>
   (anchor \<noteq> None \<and> reach \<noteq> Contradicts)"
  by (auto simp: s5_fork_depth_def Let_def)

end
