(* ===== verification/Header_Ingest.thy ===== *)
theory Header_Ingest
  imports Gates Branch Fin_Maps "HOL-Library.Product_Lexorder"
begin

text \<open>
  Header ingest, \<open>lib/chain/src/header.rs\<close>: headers are staged per source after the cheap checks, and a
  staged run whose best header claims enough work has its proofs of work verified and goes into the arena.
  The proof-of-work verifier and its cost are fields of the context, as the clock readings are.  The table
  of sources is scanned in ascending order; the scan takes minima, so the order does not matter.  The
  outermost option of an operation is a panic, or not ending in the case of the ancestor walk.
\<close>

section \<open>The negative cache\<close>

record staged_header =
  sg_rec :: header_rec
  sg_cum_work :: work
  sg_branch_base_height :: u64

record negative_cache =
  nc_set :: "hash32 set"
  nc_ring :: "hash32 list"
  nc_cap :: nat

definition nc_new :: "nat \<Rightarrow> negative_cache" where
  "nc_new cap = \<lparr> nc_set = {}, nc_ring = [], nc_cap = max cap 1 \<rparr>"

definition nc_contains :: "negative_cache \<Rightarrow> hash32 \<Rightarrow> bool" where
  "nc_contains nc h \<longleftrightarrow> h \<in> nc_set nc"

definition nc_insert :: "negative_cache \<Rightarrow> hash32 \<Rightarrow> permanence \<Rightarrow> negative_cache" where
  "nc_insert nc h p =
     (if p \<noteq> Permanent \<or> h \<in> nc_set nc then nc
      else
        let nc = (if nc_cap nc \<le> length (nc_ring nc)
                  then (case nc_ring nc of
                          [] \<Rightarrow> nc
                        | old # ring \<Rightarrow> nc \<lparr> nc_ring := ring, nc_set := nc_set nc - {old} \<rparr>)
                  else nc)
        in nc \<lparr> nc_ring := nc_ring nc @ [h], nc_set := insert h (nc_set nc) \<rparr>)"

definition nc_len :: "negative_cache \<Rightarrow> nat" where
  "nc_len nc = card (nc_set nc)"

section \<open>Sources and their budgets\<close>

record source_state =
  ss_staged :: "staged_header list"
  ss_staged_hashes :: "hash32 set"
  ss_tokens :: u64
  ss_last_ms :: u64
  ss_reserve_tokens :: u64
  ss_reserve_last_ms :: u64
  ss_primed :: bool
  ss_pow_failures :: u32
  ss_quota_epoch :: u64
  ss_quota_ms :: u64
  ss_dups :: u32
  ss_dup_window_ms :: u64

definition source_state_default :: source_state where
  "source_state_default =
     \<lparr> ss_staged = [], ss_staged_hashes = {}, ss_tokens = 0, ss_last_ms = 0, ss_reserve_tokens = 0,
       ss_reserve_last_ms = 0, ss_primed = False, ss_pow_failures = 0, ss_quota_epoch = 0, ss_quota_ms = 0,
       ss_dups = 0, ss_dup_window_ms = 0 \<rparr>"

definition refill_tokens :: "chain_params \<Rightarrow> u64 \<Rightarrow> source_state \<Rightarrow> source_state" where
  "refill_tokens params mono_ms s =
     (let elapsed = saturating_sub mono_ms (ss_last_ms s) in
      if 0 < elapsed
      then
        let refill = saturating_mul elapsed (cp_pow_budget_micros params) div max (cp_pow_budget_window_ms params) 1 in
        if 0 < refill
        then s \<lparr> ss_tokens := min (saturating_add (ss_tokens s) refill) (cp_pow_budget_burst_micros params),
                 ss_last_ms := mono_ms \<rparr>
        else s
      else s)"

definition refill_reserve_tokens :: "chain_params \<Rightarrow> u64 \<Rightarrow> u64 \<Rightarrow> source_state \<Rightarrow> source_state" where
  "refill_reserve_tokens params cost_micros mono_ms s =
     (let elapsed = saturating_sub mono_ms (ss_reserve_last_ms s) in
      if 0 < elapsed
      then
        let refill = saturating_mul elapsed (class_reserve_rate_micros_per_sec params) div 1000 in
        if 0 < refill
        then s \<lparr> ss_reserve_tokens := min (saturating_add (ss_reserve_tokens s) refill) (class_reserve_burst_micros cost_micros),
                 ss_reserve_last_ms := mono_ms \<rparr>
        else s
      else s)"

definition ss_refill :: "chain_params \<Rightarrow> u64 \<Rightarrow> u64 \<Rightarrow> source_state \<Rightarrow> source_state" where
  "ss_refill params cost_micros mono_ms s =
     (if \<not> ss_primed s
      then s \<lparr> ss_primed := True, ss_tokens := cp_pow_budget_burst_micros params,
               ss_reserve_tokens := class_reserve_burst_micros cost_micros, ss_last_ms := mono_ms,
               ss_reserve_last_ms := mono_ms, ss_quota_ms := mono_ms \<rparr>
      else refill_reserve_tokens params cost_micros mono_ms (refill_tokens params mono_ms s))"

definition roll_quota_epoch :: "u64 \<Rightarrow> chain_params \<Rightarrow> u64 \<Rightarrow> source_state \<Rightarrow> source_state" where
  "roll_quota_epoch epoch params mono_ms s =
     (let stalled = (saturating_mul (cp_child_quota_window_secs params) 1000 \<le> saturating_sub mono_ms (ss_quota_ms s)) in
      if ss_quota_epoch s \<noteq> epoch \<or> stalled
      then s \<lparr> ss_quota_epoch := epoch, ss_quota_ms := mono_ms, ss_pow_failures := 0 \<rparr>
      else s)"

definition budgets_full :: "chain_params \<Rightarrow> u64 \<Rightarrow> source_state \<Rightarrow> bool" where
  "budgets_full params cost_micros s \<longleftrightarrow> ss_pow_failures s = 0 \<and> cp_pow_budget_burst_micros params \<le> ss_tokens s \<and>
     class_reserve_burst_micros cost_micros \<le> ss_reserve_tokens s"

definition owes_nothing :: "chain_params \<Rightarrow> u64 \<Rightarrow> source_state \<Rightarrow> bool" where
  "owes_nothing params cost_micros s \<longleftrightarrow> ss_staged s = [] \<and> budgets_full params cost_micros s"

record ingest =
  in_neg :: negative_cache
  in_sources :: "(source_id, source_state) fmap"
  in_shared_tokens :: u64
  in_shared_last_ms :: u64
  in_shared_primed :: bool

definition ingest_new :: "chain_params \<Rightarrow> ingest" where
  "ingest_new params =
     \<lparr> in_neg = nc_new (cp_negative_cache_entries params), in_sources = fmempty, in_shared_tokens = 0,
       in_shared_last_ms = 0, in_shared_primed = False \<rparr>"

text \<open>The staged headers of a source, none when the source is not in the table.\<close>

definition in_staged :: "ingest \<Rightarrow> source_id \<Rightarrow> staged_header list" where
  "in_staged ing source = (case fmlookup (in_sources ing) source of None \<Rightarrow> [] | Some s \<Rightarrow> ss_staged s)"

definition in_staged_count :: "ingest \<Rightarrow> source_id \<Rightarrow> nat" where
  "in_staged_count ing source = length (in_staged ing source)"

definition in_tokens :: "ingest \<Rightarrow> source_id \<Rightarrow> u64" where
  "in_tokens ing source = (case fmlookup (in_sources ing) source of None \<Rightarrow> 0 | Some s \<Rightarrow> ss_tokens s)"

definition in_reserve_tokens :: "ingest \<Rightarrow> source_id \<Rightarrow> u64" where
  "in_reserve_tokens ing source = (case fmlookup (in_sources ing) source of None \<Rightarrow> 0 | Some s \<Rightarrow> ss_reserve_tokens s)"

definition in_source_count :: "ingest \<Rightarrow> nat" where
  "in_source_count ing = fcard (fmdom (in_sources ing))"

definition in_forget :: "ingest \<Rightarrow> source_id \<Rightarrow> ingest" where
  "in_forget ing source = ing \<lparr> in_sources := fmdrop source (in_sources ing) \<rparr>"

definition refill_shared :: "chain_params \<Rightarrow> u64 \<Rightarrow> ingest \<Rightarrow> ingest" where
  "refill_shared params mono_ms ing =
     (if \<not> in_shared_primed ing
      then ing \<lparr> in_shared_primed := True, in_shared_tokens := class_shared_burst_micros params, in_shared_last_ms := mono_ms \<rparr>
      else
        let elapsed = saturating_sub mono_ms (in_shared_last_ms ing) in
        if elapsed = 0 then ing
        else
          let refill = saturating_mul elapsed (class_shared_rate_micros_per_sec params) div 1000 in
          if 0 < refill
          then ing \<lparr> in_shared_tokens := min (saturating_add (in_shared_tokens ing) refill) (class_shared_burst_micros params),
                     in_shared_last_ms := mono_ms \<rparr>
          else ing)"

fun touch_scan ::
  "chain_params \<Rightarrow> u64 \<Rightarrow> (source_id \<times> source_state) list \<Rightarrow> source_id option \<Rightarrow> (nat \<times> source_id) option \<Rightarrow>
   source_id option \<times> (nat \<times> source_id) option" where
  "touch_scan params cost [] idle parked = (idle, parked)"
| "touch_scan params cost ((i, s) # es) idle parked =
     (if owes_nothing params cost s
      then touch_scan params cost es (if (case idle of None \<Rightarrow> True | Some cur \<Rightarrow> i < cur) then Some i else idle) parked
      else if budgets_full params cost s
      then
        let key = (length (ss_staged s), i) in
        touch_scan params cost es idle (if (case parked of None \<Rightarrow> True | Some cur \<Rightarrow> key < cur) then Some key else parked)
      else touch_scan params cost es idle parked)"

definition touch_room :: "chain_params \<Rightarrow> u64 \<Rightarrow> u64 \<Rightarrow> source_id \<Rightarrow> ingest \<Rightarrow> (reject + unit) \<times> ingest" where
  "touch_room params cost mono_ms source ing =
     (if fmlookup (in_sources ing) source = None \<and> cp_max_sources params \<le> in_source_count ing
      then
        let ss = fmmap (ss_refill params cost mono_ms) (in_sources ing);
            ing = ing \<lparr> in_sources := ss \<rparr>;
            (idle, parked) = touch_scan params cost (fm_entries ss) None None
        in (case (case idle of Some i \<Rightarrow> Some i | None \<Rightarrow> map_option snd parked) of
              Some i \<Rightarrow> (Inr (), ing \<lparr> in_sources := fmdrop i ss \<rparr>)
            | None \<Rightarrow> (Inl (TooManySources source (cp_max_sources params)), ing))
      else (Inr (), ing))"

definition in_touch :: "chain_params \<Rightarrow> u64 \<Rightarrow> u64 \<Rightarrow> source_id \<Rightarrow> ingest \<Rightarrow> (reject + unit) \<times> ingest" where
  "in_touch params cost mono_ms source ing =
     (case touch_room params cost mono_ms source ing of
        (Inl e, ing) \<Rightarrow> (Inl e, ing)
      | (Inr _, ing) \<Rightarrow>
          let st = (case fmlookup (in_sources ing) source of Some s \<Rightarrow> s | None \<Rightarrow> source_state_default)
          in (Inr (), ing \<lparr> in_sources := fmupd source (ss_refill params cost mono_ms st) (in_sources ing) \<rparr>))"

definition spend_class_budget :: "ingest \<Rightarrow> source_id \<Rightarrow> u64 \<Rightarrow> bool \<times> ingest" where
  "spend_class_budget ing source cost =
     (case fmlookup (in_sources ing) source of
        None \<Rightarrow> (False, ing)
      | Some s \<Rightarrow>
          if ss_tokens s < cost then (False, ing)
          else
            let from_shared = (cost \<le> in_shared_tokens ing) in
            if \<not> from_shared \<and> ss_reserve_tokens s < cost then (False, ing)
            else
              let ing = (if from_shared then ing \<lparr> in_shared_tokens := in_shared_tokens ing - cost \<rparr> else ing);
                  s = (if from_shared then s else s \<lparr> ss_reserve_tokens := ss_reserve_tokens s - cost \<rparr>);
                  s = s \<lparr> ss_tokens := ss_tokens s - cost \<rparr>
              in (True, ing \<lparr> in_sources := fmupd source s (in_sources ing) \<rparr>))"

section \<open>Ancestors among arena and staged headers\<close>

record lite =
  lt_height :: u64
  lt_hash :: hash32
  lt_prev_hash :: hash32
  lt_time :: u64
  lt_bits :: u32
  lt_cum_work :: work
  lt_branch_base_height :: u64
  lt_arena :: "u32 option"

definition lite_of_node :: "node \<Rightarrow> u32 option \<Rightarrow> lite" where
  "lite_of_node n arena =
     \<lparr> lt_height = nd_height n, lt_hash = nd_hash n, lt_prev_hash = replicate 32 0, lt_time = nd_time n,
       lt_bits = nd_bits n, lt_cum_work = nd_cum_work n, lt_branch_base_height = nd_branch_base_height n, lt_arena = arena \<rparr>"

definition lite_of_staged :: "staged_header \<Rightarrow> lite" where
  "lite_of_staged s =
     \<lparr> lt_height = hr_height (sg_rec s), lt_hash = hr_hash (sg_rec s), lt_prev_hash = hr_prev_hash (sg_rec s),
       lt_time = hr_time (sg_rec s), lt_bits = hr_bits (sg_rec s), lt_cum_work = sg_cum_work s,
       lt_branch_base_height = sg_branch_base_height s, lt_arena = None \<rparr>"

definition find_parent :: "header_index \<Rightarrow> staged_header list \<Rightarrow> hash32 \<Rightarrow> lite option option" where
  "find_parent index staged hash =
     (case hx_index_of index hash of
        Some i \<Rightarrow> do { n \<leftarrow> hx_node index i; Some (Some (lite_of_node n (Some i))) }
      | None \<Rightarrow> Some (map_option lite_of_staged (List.find (\<lambda>s. hr_hash (sg_rec s) = hash) (rev staged))))"

definition child_branch_base :: "header_index \<Rightarrow> lite \<Rightarrow> u64 option" where
  "child_branch_base index nd =
     (case lt_arena nd of
        Some i \<Rightarrow> do { canon \<leftarrow> hx_is_canonical index i; Some (if canon then lt_height nd else lt_branch_base_height nd) }
      | None \<Rightarrow> Some (lt_branch_base_height nd))"

definition lite_parent :: "header_index \<Rightarrow> staged_header list \<Rightarrow> lite \<Rightarrow> lite option option" where
  "lite_parent index staged nd =
     (case lt_arena nd of
        Some i \<Rightarrow>
          do { n \<leftarrow> hx_node index i;
               if nd_prev n = NO_PARENT then Some None
               else do { p \<leftarrow> hx_node index (nd_prev n); Some (Some (lite_of_node p (Some (nd_prev n)))) } }
      | None \<Rightarrow> find_parent index staged (lt_prev_hash nd))"

fun ancestor_times_loop :: "header_index \<Rightarrow> staged_header list \<Rightarrow> nat \<Rightarrow> lite \<Rightarrow> u64 list \<Rightarrow> u64 list option" where
  "ancestor_times_loop index staged 0 cur out = Some (rev out)"
| "ancestor_times_loop index staged (Suc k) cur out =
     (let out = out @ [lt_time cur] in
      do { p \<leftarrow> lite_parent index staged cur;
           case p of Some p \<Rightarrow> ancestor_times_loop index staged k p out | None \<Rightarrow> Some (rev out) })"

definition ancestor_times :: "header_index \<Rightarrow> staged_header list \<Rightarrow> lite \<Rightarrow> nat \<Rightarrow> u64 list option" where
  "ancestor_times index staged from_nd span = ancestor_times_loop index staged span from_nd []"

partial_function (option) ancestor_walk ::
  "header_index \<Rightarrow> staged_header list \<Rightarrow> lite \<Rightarrow> u64 \<Rightarrow> lite option option" where
  "ancestor_walk index staged cur height =
     (if height < lt_height cur
      then (case lite_parent index staged cur of
              None \<Rightarrow> None
            | Some None \<Rightarrow> Some None
            | Some (Some p) \<Rightarrow> ancestor_walk index staged p height)
      else if lt_height cur = height then Some (Some cur) else Some None)"

definition ancestor_of :: "header_index \<Rightarrow> staged_header list \<Rightarrow> lite \<Rightarrow> u64 \<Rightarrow> lite option option" where
  "ancestor_of index staged from_nd height =
     (if lt_height from_nd < height then Some None
      else if height \<le> lt_branch_base_height from_nd
      then do { n \<leftarrow> hx_canonical_at index height;
                case n of
                  None \<Rightarrow> Some None
                | Some n \<Rightarrow> Some (Some (lite_of_node n (hx_index_of index (nd_hash n)))) }
      else ancestor_walk index staged from_nd height)"

definition anchor_reach_of :: "header_index \<Rightarrow> staged_header list \<Rightarrow> lite \<Rightarrow> anchor \<Rightarrow> anchor_reach option" where
  "anchor_reach_of index staged from_nd anchor =
     (if lt_height from_nd < anchor_height anchor then Some NotReached
      else
        do { a \<leftarrow> ancestor_of index staged from_nd (anchor_height anchor);
             Some (case a of
                     None \<Rightarrow> NotReached
                   | Some a \<Rightarrow> if lt_hash a = anchor_hash anchor then Matches else Contradicts) })"

record ingest_ctx =
  ic_store :: chain_store
  ic_pow_verify :: "bytes \<Rightarrow> bool"
  ic_cost_micros :: u64
  ic_checkpoints :: "(u64 \<times> hash32) list"
  ic_anchor :: "anchor option"
  ic_params :: chain_params
  ic_now :: u64
  ic_mono_ms :: u64
  ic_tip :: tip_ref
  ic_genesis_time :: u64
  ic_solicitation :: solicitation
  ic_tip_epoch :: u64
  ic_side_capacity :: nat

definition resolve_anchor ::
  "header_index \<Rightarrow> staged_header list \<Rightarrow> lite \<Rightarrow> ingest_ctx \<Rightarrow> (reject + u32 \<times> u64 \<times> u64) option" where
  "resolve_anchor index staged parent ctx =
     (let ah = anchor_height_for (lt_height parent) (cp_asert_anchor_interval (ic_params ctx)) in
      bindP (map_option (\<lambda>a. ok_or a (AsertAnchorUnavailable ah)) (ancestor_of index staged parent ah)) (\<lambda>anchor.
        bindP (if ah = 0 then Some (Inr (saturating_sub (ic_genesis_time ctx) BLOCK_TIME_SECS))
               else map_option (\<lambda>a. ok_or (map_option lt_time a) (AsertAnchorUnavailable ah))
                 (ancestor_of index staged parent (ah - 1))) (\<lambda>anchor_parent_time.
          Some (Inr (lt_bits anchor, lt_height anchor, anchor_parent_time)))))"

section \<open>Staging one header\<close>

text \<open>The header and its cumulative work and branch base, after all the gates.\<close>

definition stage_gates ::
  "header_index \<Rightarrow> staged_header list \<Rightarrow> ingest_ctx \<Rightarrow> bytes \<Rightarrow> hash32 \<Rightarrow> (reject + header \<times> lite \<times> u64) option" where
  "stage_gates index staged ctx raw hash =
     (let params = ic_params ctx in
      bindP (Some (s1_fixed_fields raw (cp_pow_limit params))) (\<lambda>h.
      bindP (Some (s1b_checkpoint (ic_checkpoints ctx) (hdr_height h) hash)) (\<lambda>_.
      bindP (map_option (\<lambda>p. ok_or p (UnknownParent (hdr_prev_hash h))) (find_parent index staged (hdr_prev_hash h))) (\<lambda>parent.
      bindP (Some (s2_height (hdr_height h) (lt_height parent))) (\<lambda>_.
      bindP (resolve_anchor index staged parent ctx) (\<lambda>(a_bits, a_height, a_parent_time).
      bindP (Some (mapE (\<lambda>_. AsertAnchorUnavailable a_height)
        (expected_child_bits a_bits a_height a_parent_time (lt_height parent) (lt_time parent) (cp_pow_limit params)))) (\<lambda>expected.
      bindP (Some (s3_bits (hdr_bits h) expected)) (\<lambda>_.
      bindP (map_option Inr (ancestor_times index staged parent MEDIAN_TIME_SPAN)) (\<lambda>window.
      bindP (s4_time window (hdr_time h) (ic_now ctx)) (\<lambda>_.
      bindP (case ic_anchor ctx of None \<Rightarrow> Some (Inr NotReached)
             | Some a \<Rightarrow> map_option Inr (anchor_reach_of index staged parent a)) (\<lambda>reach.
      bindP (map_option Inr (child_branch_base index parent)) (\<lambda>child_base.
      bindP (Some (s5_fork_depth (ic_tip ctx) child_base (ic_anchor ctx) reach params)) (\<lambda>_.
        Some (Inr (h, parent, child_base)))))))))))))))"

definition stage_push :: "ingest \<Rightarrow> source_id \<Rightarrow> chain_params \<Rightarrow> staged_header \<Rightarrow> (reject + unit) \<times> ingest" where
  "stage_push ing source params sg =
     (let st = (case fmlookup (in_sources ing) source of Some s \<Rightarrow> s | None \<Rightarrow> source_state_default) in
      if cp_max_staged_headers params \<le> length (ss_staged st)
      then (Inl (StagingFull source), ing \<lparr> in_sources := fmupd source st (in_sources ing) \<rparr>)
      else (Inr (), ing \<lparr> in_sources := fmupd source
        (st \<lparr> ss_staged := ss_staged st @ [sg], ss_staged_hashes := insert (hr_hash (sg_rec sg)) (ss_staged_hashes st) \<rparr>)
        (in_sources ing) \<rparr>))"

definition stage_one ::
  "ingest \<Rightarrow> header_index \<Rightarrow> work_cache \<Rightarrow> ingest_ctx \<Rightarrow> source_id \<Rightarrow> bytes \<Rightarrow> hash32 \<Rightarrow>
   ((reject + unit) \<times> ingest \<times> work_cache) option" where
  "stage_one ing index memo ctx source raw hash =
     (case stage_gates index (in_staged ing source) ctx raw hash of
        None \<Rightarrow> None
      | Some (Inl e) \<Rightarrow> Some (Inl e, ing, memo)
      | Some (Inr (h, parent, child_base)) \<Rightarrow>
          do { (w, memo) \<leftarrow> work_cache_work memo (hdr_bits h) (cp_pow_limit (ic_params ctx));
               case w of
                 None \<Rightarrow> Some (Inl (BadBits (hdr_bits h)), ing, memo)
               | Some w \<Rightarrow>
                   (case work_checked_add (lt_cum_work parent) w of
                      None \<Rightarrow> Some (Inl ArithmeticOverflow, ing, memo)
                    | Some cum_work \<Rightarrow>
                        let (r, ing) = stage_push ing source (ic_params ctx)
                          \<lparr> sg_rec = \<lparr> hr_height = hdr_height h, hr_hash = hash, hr_prev_hash = hdr_prev_hash h,
                                       hr_time = hdr_time h, hr_bits = hdr_bits h, hr_raw = raw \<rparr>,
                            sg_cum_work = cum_work, sg_branch_base_height = child_base \<rparr>
                        in Some (r, ing, memo)) })"

section \<open>Promotion\<close>

text \<open>What a call to \<open>submit_headers\<close> carries along.\<close>

record submission =
  su_ing :: ingest
  su_index :: header_index
  su_memo :: work_cache
  su_out :: accepted
  su_batch_dups :: u32
  su_staged_first :: "(hash32 \<times> u64) option"
  su_connected_out :: "header_rec list"
  su_observed :: "condition list"

definition su_observe :: "condition \<Rightarrow> submission \<Rightarrow> submission" where
  "su_observe c su = su \<lparr> su_observed := su_observed su @ [c] \<rparr>"

definition su_lost :: "rejection \<Rightarrow> submission \<Rightarrow> submission" where
  "su_lost r su =
     (if acc_first_rejection (su_out su) = None then su \<lparr> su_out := (su_out su) \<lparr> acc_first_rejection := Some r \<rparr> \<rparr> else su)"

definition su_held :: "held \<Rightarrow> submission \<Rightarrow> submission" where
  "su_held h su =
     (if acc_first_held (su_out su) = None then su \<lparr> su_out := (su_out su) \<lparr> acc_first_held := Some h \<rparr> \<rparr> else su)"

text \<open>\<open>max_by\<close> returns the last of equal maxima.\<close>

definition staged_less :: "staged_header \<Rightarrow> staged_header \<Rightarrow> bool" where
  "staged_less a b \<longleftrightarrow> work_cmp (sg_cum_work a) (sg_cum_work b) = Less \<or>
     (work_cmp (sg_cum_work a) (sg_cum_work b) = Equal \<and> hr_hash (sg_rec b) < hr_hash (sg_rec a))"

fun terminal_of :: "staged_header \<Rightarrow> staged_header list \<Rightarrow> staged_header" where
  "terminal_of best [] = best"
| "terminal_of best (s # ss) = terminal_of (if staged_less s best then best else s) ss"

text \<open>\<open>min_by_key\<close> returns the first of equal minima.\<close>

fun lowest_of :: "staged_header \<Rightarrow> staged_header list \<Rightarrow> staged_header" where
  "lowest_of low [] = low"
| "lowest_of low (s # ss) = lowest_of (if hr_height (sg_rec s) < hr_height (sg_rec low) then s else low) ss"

definition upd_source :: "source_id \<Rightarrow> (source_state \<Rightarrow> source_state) \<Rightarrow> ingest \<Rightarrow> ingest option" where
  "upd_source source f ing =
     (case fmlookup (in_sources ing) source of
        None \<Rightarrow> None
      | Some s \<Rightarrow> Some (ing \<lparr> in_sources := fmupd source (f s) (in_sources ing) \<rparr>))"

definition drain_staged :: "nat \<Rightarrow> source_state \<Rightarrow> source_state" where
  "drain_staged k st =
     st \<lparr> ss_staged := drop k (ss_staged st),
          ss_staged_hashes := ss_staged_hashes st - set (map (\<lambda>x. hr_hash (sg_rec x)) (take k (ss_staged st))) \<rparr>"

fun promote_loop ::
  "ingest_ctx \<Rightarrow> source_id \<Rightarrow> staged_header list \<Rightarrow> u64 \<Rightarrow> nat \<Rightarrow> submission \<Rightarrow> (u64 \<times> nat \<times> bool \<times> submission) option" where
  "promote_loop ctx source [] connected consumed su = Some (connected, consumed, False, su)"
| "promote_loop ctx source (s # ss) connected consumed su =
     (if ic_side_capacity ctx \<le> unat connected
      then Some (connected, consumed, False, su_observe (CondBudgetExhausted source Staging) su)
      else
        let (paid, ing) = (if charges_budget (ic_solicitation ctx) then spend_class_budget (su_ing su) source (ic_cost_micros ctx)
                           else (True, su_ing su));
            su = su \<lparr> su_ing := ing \<rparr>
        in
        if \<not> paid then Some (connected, consumed, False, su_observe (CondBudgetExhausted source Interpreter) su)
        else if \<not> ic_pow_verify ctx (hr_raw (sg_rec s))
        then
          let su = su_lost \<lparr> rj_hash = hr_hash (sg_rec s), rj_height = hr_height (sg_rec s),
                             rj_repair_from = hr_height (sg_rec s), rj_why = reject_why (PowInvalid (hr_hash (sg_rec s))) \<rparr> su;
              ing = (su_ing su) \<lparr> in_neg := nc_insert (in_neg (su_ing su)) (hr_hash (sg_rec s)) Permanent \<rparr>
          in do { ing \<leftarrow> upd_source source (\<lambda>st. st \<lparr> ss_pow_failures := saturating_add (ss_pow_failures st) 1 \<rparr>) ing;
                  Some (connected, consumed + 1, True, su \<lparr> su_ing := ing \<rparr>) }
        else
          (case hx_index_of (su_index su) (hr_prev_hash (sg_rec s)) of
             None \<Rightarrow>
               promote_loop ctx source ss connected (consumed + 1)
                 (su_lost \<lparr> rj_hash = hr_hash (sg_rec s), rj_height = hr_height (sg_rec s),
                            rj_repair_from = saturating_sub (hr_height (sg_rec s)) 1, rj_why = ''parent was not stored'' \<rparr> su)
           | Some parent \<Rightarrow>
               do { (_, index) \<leftarrow> hx_insert (su_index su) (sg_rec s) parent (sg_cum_work s) True;
                    connected \<leftarrow> checked_add connected 1;
                    promote_loop ctx source ss connected (consumed + 1)
                      (su \<lparr> su_index := index, su_connected_out := su_connected_out su @ [sg_rec s] \<rparr>) }))"

definition promote_run :: "ingest_ctx \<Rightarrow> source_id \<Rightarrow> staged_header list \<Rightarrow> submission \<Rightarrow> (u64 \<times> submission) option" where
  "promote_run ctx source staged su =
     do { (connected, consumed, failed, su) \<leftarrow> promote_loop ctx source staged 0 0 su;
          ing \<leftarrow> upd_source source (\<lambda>st. drain_staged (if failed then length (ss_staged st) else min consumed (length (ss_staged st))) st)
            (su_ing su);
          Some (connected, su \<lparr> su_ing := ing \<rparr>) }"

definition promote :: "ingest_ctx \<Rightarrow> source_id \<Rightarrow> submission \<Rightarrow> (u64 \<times> submission) option" where
  "promote ctx source su =
     (case fmlookup (in_sources (su_ing su)) source of
        None \<Rightarrow> Some (0, su)
      | Some st \<Rightarrow>
          (case ss_staged st of
             [] \<Rightarrow> Some (0, su)
           | s # ss \<Rightarrow>
               let terminal = terminal_of s ss;
                   depth = saturating_sub (tip_height (ic_tip ctx)) (sg_branch_base_height terminal);
                   low = lowest_of s ss
               in
               if s6_claimed_work (sg_cum_work terminal) (hr_hash (sg_rec terminal)) (hr_height (sg_rec terminal)) depth (ic_tip ctx) \<noteq> Inr ()
               then Some (0, su_held \<lparr> hd_hash = hr_hash (sg_rec low), hd_height = hr_height (sg_rec low) \<rparr> su)
               else if charges_child_quota (ic_solicitation ctx) \<and> cp_child_pow_failures_per_source (ic_params ctx) \<le> ss_pow_failures st
               then Some (0, su_observe (CondBudgetExhausted source ChildQuota) su)
               else promote_run ctx source (s # ss) su))"

section \<open>A batch of headers\<close>

definition held_duplicate :: "source_id \<Rightarrow> hash32 \<Rightarrow> submission \<Rightarrow> submission" where
  "held_duplicate source hash su =
     (case List.find (\<lambda>x. hr_hash (sg_rec x) = hash) (in_staged (su_ing su) source) of
        None \<Rightarrow> su
      | Some x \<Rightarrow> su_held \<lparr> hd_hash = hash, hd_height = hr_height (sg_rec x) \<rparr> su)"

text \<open>The boolean tells whether the batch goes on.\<close>

definition submit_duplicate :: "ingest_ctx \<Rightarrow> source_id \<Rightarrow> hash32 \<Rightarrow> bool \<Rightarrow> submission \<Rightarrow> (bool \<times> submission) option" where
  "submit_duplicate ctx source hash staged_here su =
     (let params = ic_params ctx;
          su = (if staged_here then held_duplicate source hash su else su)
      in do { duplicates \<leftarrow> checked_add (acc_duplicates (su_out su)) 1;
              batch_dups \<leftarrow> checked_add (su_batch_dups su) 1;
              st \<leftarrow> fmlookup (in_sources (su_ing su)) source;
              dups \<leftarrow> checked_add (ss_dups st) 1;
              ing \<leftarrow> upd_source source (\<lambda>st. st \<lparr> ss_dups := dups \<rparr>) (su_ing su);
              let su = su \<lparr> su_ing := ing, su_out := (su_out su) \<lparr> acc_duplicates := duplicates \<rparr>, su_batch_dups := batch_dups \<rparr>;
                  su = (if cp_max_duplicates_per_window params < dups then su_observe (CondDuplicateFlood source dups) su else su)
              in Some (if cp_max_duplicates_per_batch params < batch_dups
                       then (False, su_observe (CondBudgetExhausted source Duplicates) su)
                       else (True, su)) })"

definition submit_rejected :: "bytes \<Rightarrow> hash32 \<Rightarrow> reject \<Rightarrow> submission \<Rightarrow> submission option" where
  "submit_rejected raw hash rej su =
     do { rejected \<leftarrow> checked_add (acc_rejected (su_out su)) 1;
          let su = su \<lparr> su_out := (su_out su) \<lparr> acc_rejected := rejected \<rparr> \<rparr>;
              height = (case header_decode raw of Inl _ \<Rightarrow> 0 | Inr h \<Rightarrow> hdr_height h);
              repair_from = (case rej of UnknownParent _ \<Rightarrow> saturating_sub height 1 | _ \<Rightarrow> height);
              su = su_lost \<lparr> rj_hash = hash, rj_height = height, rj_repair_from = repair_from, rj_why = reject_why rej \<rparr> su
          in Some (su \<lparr> su_ing := (su_ing su) \<lparr> in_neg := nc_insert (in_neg (su_ing su)) hash (reject_permanence rej) \<rparr> \<rparr>) }"

definition add_connected :: "u64 \<times> submission \<Rightarrow> submission option" where
  "add_connected p =
     (case p of (k, su) \<Rightarrow>
        map_option (\<lambda>c. su \<lparr> su_out := (su_out su) \<lparr> acc_connected := c \<rparr> \<rparr>) (checked_add (acc_connected (su_out su)) k))"

definition submit_fresh :: "ingest_ctx \<Rightarrow> source_id \<Rightarrow> bytes \<Rightarrow> hash32 \<Rightarrow> submission \<Rightarrow> submission option" where
  "submit_fresh ctx source raw hash su =
     do { su \<leftarrow> (if cp_max_staged_headers (ic_params ctx) \<le> in_staged_count (su_ing su) source
                 then Option.bind (promote ctx source su) add_connected else Some su);
          (r, ing, memo) \<leftarrow> stage_one (su_ing su) (su_index su) (su_memo su) ctx source raw hash;
          let su = su \<lparr> su_ing := ing, su_memo := memo \<rparr>
          in (case r of
                Inr _ \<Rightarrow>
                  do { k \<leftarrow> checked_add (acc_staged (su_out su)) 1;
                       let su = su \<lparr> su_out := (su_out su) \<lparr> acc_staged := k \<rparr> \<rparr>
                       in Some (if su_staged_first su = None
                                then su \<lparr> su_staged_first :=
                                  (let st = in_staged (su_ing su) source in
                                   if st = [] then None else Some (hr_hash (sg_rec (last st)), hr_height (sg_rec (last st)))) \<rparr>
                                else su) }
              | Inl rej \<Rightarrow> submit_rejected raw hash rej su) }"

definition staged_here :: "ingest \<Rightarrow> source_id \<Rightarrow> hash32 \<Rightarrow> bool" where
  "staged_here ing source hash =
     (case fmlookup (in_sources ing) source of None \<Rightarrow> False | Some s \<Rightarrow> hash \<in> ss_staged_hashes s)"

fun submit_loop :: "ingest_ctx \<Rightarrow> source_id \<Rightarrow> bytes list \<Rightarrow> submission \<Rightarrow> submission option" where
  "submit_loop ctx source [] su = Some su"
| "submit_loop ctx source (raw # raws) su =
     (let hash = header_hash raw; here = staged_here (su_ing su) source hash in
      if here \<or> hx_contains (su_index su) hash \<or> nc_contains (in_neg (su_ing su)) hash \<or> st_is_invalid (ic_store ctx) hash
      then do { (go, su) \<leftarrow> submit_duplicate ctx source hash here su;
                if go then submit_loop ctx source raws su else Some su }
      else do { su \<leftarrow> submit_fresh ctx source raw hash su; submit_loop ctx source raws su })"

definition submit_finish :: "source_id \<Rightarrow> submission \<Rightarrow> submission option" where
  "submit_finish source su =
     (let staged = in_staged (su_ing su) source;
          su = su \<lparr> su_out := (su_out su) \<lparr> acc_staged := of_nat (length staged) \<rparr> \<rparr>;
          su = (case su_staged_first su of
                  Some (hash, height) \<Rightarrow>
                    if staged_here (su_ing su) source hash then su_held \<lparr> hd_hash = hash, hd_height = height \<rparr> su else su
                | None \<Rightarrow> su)
      in do { h \<leftarrow> hx_tip_height (su_index su);
              Some (su \<lparr> su_out := (su_out su)
                \<lparr> acc_verified_height := max h (if staged = [] then 0 else hr_height (sg_rec (last staged))) \<rparr> \<rparr>) })"

definition open_window :: "chain_params \<Rightarrow> u64 \<Rightarrow> u64 \<Rightarrow> source_state \<Rightarrow> source_state option" where
  "open_window params epoch mono_ms st =
     (let st = roll_quota_epoch epoch params mono_ms st in
      do { window \<leftarrow> (if unat (cp_duplicate_window_secs params) * 1000 < 2 ^ 64 then Some (cp_duplicate_window_secs params * 1000) else None);
           Some (if window \<le> saturating_sub mono_ms (ss_dup_window_ms st)
                 then st \<lparr> ss_dup_window_ms := mono_ms, ss_dups := 0 \<rparr> else st) })"

definition submit_headers ::
  "ingest \<Rightarrow> header_index \<Rightarrow> work_cache \<Rightarrow> ingest_ctx \<Rightarrow> source_id \<Rightarrow> bytes list \<Rightarrow>
   ((reject + accepted) \<times> submission) option" where
  "submit_headers ing index memo ctx source raws =
     (let params = ic_params ctx;
          su = \<lparr> su_ing = refill_shared params (ic_mono_ms ctx) ing, su_index = index, su_memo = memo,
                 su_out = \<lparr> acc_connected = 0, acc_duplicates = 0, acc_rejected = 0, acc_staged = 0, acc_verified_height = 0,
                            acc_first_rejection = None, acc_first_held = None \<rparr>,
                 su_batch_dups = 0, su_staged_first = None, su_connected_out = [], su_observed = [] \<rparr>
      in (case in_touch params (ic_cost_micros ctx) (ic_mono_ms ctx) source (su_ing su) of
            (Inl e, ing) \<Rightarrow> Some (Inl e, su \<lparr> su_ing := ing \<rparr>)
          | (Inr _, ing) \<Rightarrow>
              do { st \<leftarrow> fmlookup (in_sources ing) source;
                   st \<leftarrow> open_window params (ic_tip_epoch ctx) (ic_mono_ms ctx) st;
                   h \<leftarrow> hx_tip_height index;
                   let su = su \<lparr> su_ing := ing \<lparr> in_sources := fmupd source st (in_sources ing) \<rparr>,
                                 su_out := (su_out su) \<lparr> acc_verified_height := h \<rparr> \<rparr>
                   in do { su \<leftarrow> submit_loop ctx source raws su;
                           p \<leftarrow> promote ctx source su;
                           su \<leftarrow> add_connected p;
                           su \<leftarrow> submit_finish source su;
                           Some (Inr (su_out su), su) } }))"

end
