(* ===== verification/Header_Chains.thy ===== *)
theory Header_Chains
  imports Header_Ingest
begin

text \<open>
  What header ingest promises, as chains of raw headers from genesis on: every header extends the one
  before it, has the next height, a time above the median of its ancestors and the bits of the difficulty
  rule.  Arena nodes and staged headers are labelled with such chains, and the walks of header ingest
  through both follow them.
\<close>

section \<open>Valid header chains\<close>

text \<open>
  The headers that are ever submitted, the genesis header, the parameters of the rules and the
  proof-of-work check.  The flag says whether the difficulty rule is part of the claim: it is when no
  reorganisation cuts below the branch base of a staged header.
\<close>

record header_world =
  hw_raws :: "bytes set"
  hw_genesis :: bytes
  hw_limit :: target
  hw_interval :: u64
  hw_genesis_time :: u64
  hw_pow :: "bytes \<Rightarrow> bool"
  hw_asert :: bool

definition hdr_of :: "bytes \<Rightarrow> header" where
  "hdr_of raw = projr (header_decode raw)"

definition chain_times :: "bytes list \<Rightarrow> u64 list" where
  "chain_times rs = map (\<lambda>r. hdr_time (hdr_of r)) rs"

text \<open>The bits the difficulty rule asks of a child of the last header of a chain.\<close>

definition chain_child_bits :: "header_world \<Rightarrow> bytes list \<Rightarrow> asert_error + u32" where
  "chain_child_bits w rs =
     (let ph = of_nat (length rs - 1);
          ah = anchor_height_for ph (hw_interval w);
          apt = (if ah = 0 then saturating_sub (hw_genesis_time w) BLOCK_TIME_SECS
                 else hdr_time (hdr_of (rs ! unat (ah - 1))))
      in expected_child_bits (hdr_bits (hdr_of (rs ! unat ah))) ah apt ph (hdr_time (hdr_of (last rs))) (hw_limit w))"

text \<open>The cumulative work of a chain, newest header first.\<close>

fun cum_rev :: "target \<Rightarrow> bytes list \<Rightarrow> work option" where
  "cum_rev limit [] = None"
| "cum_rev limit [r] = bits_work (hdr_bits (hdr_of r)) limit"
| "cum_rev limit (r # rs) =
     do { c \<leftarrow> cum_rev limit rs; w \<leftarrow> bits_work (hdr_bits (hdr_of r)) limit; work_checked_add c w }"

inductive header_chain :: "header_world \<Rightarrow> bytes list \<Rightarrow> bool" for w where
  hc_genesis: "header_chain w [hw_genesis w]"
| hc_child: "header_chain w rs \<Longrightarrow> raw \<in> hw_raws w \<Longrightarrow> raw \<noteq> hw_genesis w \<Longrightarrow>
    fixed_fields_ok (hw_limit w) raw h \<Longrightarrow> hdr_prev_hash h = header_hash (last rs) \<Longrightarrow>
    unat (hdr_height h) = length rs \<Longrightarrow> median_time_past (chain_times rs) = Some mtp \<Longrightarrow> mtp < hdr_time h \<Longrightarrow>
    (hw_asert w \<longrightarrow> chain_child_bits w rs = Inr (hdr_bits h)) \<Longrightarrow>
    header_chain w (rs @ [raw])"

definition world_ok :: "header_world \<Rightarrow> bool" where
  "world_ok w \<longleftrightarrow> finite (hw_raws w) \<and> card (hw_raws w) < 2 ^ 64 \<and> inj_on header_hash (hw_raws w) \<and>
     hw_genesis w \<in> hw_raws w \<and> wf_target (hw_limit w) \<and> hdr_height (hdr_of (hw_genesis w)) = 0"

lemma header_chain_ne: "header_chain w rs \<Longrightarrow> rs \<noteq> []"
  by (erule header_chain.cases) simp_all

lemma header_chain_last: "header_chain w rs \<Longrightarrow> world_ok w \<Longrightarrow> last rs \<in> hw_raws w"
  by (erule header_chain.cases) (simp_all add: world_ok_def)

lemma header_chain_first: "header_chain w rs \<Longrightarrow> hd rs = hw_genesis w"
  by (induction rule: header_chain.induct) (auto dest: header_chain_ne)

lemma header_chain_butlast:
  assumes "header_chain w rs" "1 < length rs"
  shows "header_chain w (butlast rs)" "hdr_prev_hash (hdr_of (last rs)) = header_hash (last (butlast rs))"
    "last rs \<noteq> hw_genesis w" "fixed_fields_ok (hw_limit w) (last rs) (hdr_of (last rs))"
  using assms by (cases rule: header_chain.cases; simp add: hdr_of_def fixed_fields_ok_def)+

lemma header_chain_take:
  assumes "header_chain w rs" "k < length rs"
  shows "header_chain w (take (Suc k) rs)"
  using assms
proof (induction arbitrary: k rule: header_chain.induct)
  case hc_genesis
  then show ?case by (simp add: header_chain.hc_genesis)
next
  case (hc_child rs raw h mtp)
  show ?case
  proof (cases "k < length rs")
    case True
    then show ?thesis using hc_child.IH [OF True] by simp
  next
    case False
    then have "take (Suc k) (rs @ [raw]) = rs @ [raw]" using hc_child.prems by simp
    then show ?thesis using header_chain.hc_child [OF hc_child.hyps] by simp
  qed
qed

lemma header_chain_height:
  assumes "header_chain w rs" "world_ok w"
  shows "unat (hdr_height (hdr_of (last rs))) = length rs - 1"
  using assms by (cases rule: header_chain.cases) (auto simp: hdr_of_def fixed_fields_ok_def world_ok_def)

text \<open>A hash names its chain.\<close>

lemma header_chain_unique:
  assumes "header_chain w rs" "header_chain w rs'" "world_ok w" "header_hash (last rs) = header_hash (last rs')"
  shows "rs = rs'"
  using assms
proof (induction arbitrary: rs' rule: header_chain.induct)
  case hc_genesis
  have "last rs' = hw_genesis w"
    using hc_genesis header_chain_last [OF hc_genesis(1, 2)] by (auto simp: world_ok_def dest: inj_onD)
  then show ?case using header_chain_butlast(3) [OF hc_genesis(1)] header_chain_ne [OF hc_genesis(1)]
    by (cases rs') (fastforce split: if_splits)+
next
  case (hc_child rs raw h mtp)
  have l: "last rs' = raw"
    using hc_child.prems hc_child.hyps(2) header_chain_last [OF hc_child.prems(1, 2)]
    by (auto simp: world_ok_def dest: inj_onD)
  show ?case
  proof (cases "1 < length rs'")
    case True
    have "hdr_of raw = h" using hc_child.hyps by (simp add: hdr_of_def fixed_fields_ok_def)
    then have "rs = butlast rs'"
      using hc_child.IH [OF header_chain_butlast(1) [OF hc_child.prems(1) True] hc_child.prems(2)]
        header_chain_butlast(2) [OF hc_child.prems(1) True] l hc_child.hyps by simp
    then show ?thesis using l header_chain_ne [OF hc_child.prems(1)] by (metis append_butlast_last_id)
  next
    case False
    then have "rs' = [raw]" using l header_chain_ne [OF hc_child.prems(1)] by (cases rs') auto
    then show ?thesis using header_chain_first [OF hc_child.prems(1)] hc_child.hyps by simp
  qed
qed

text \<open>Heights do not reach the end of their type.\<close>

lemma header_chain_heights:
  assumes "header_chain w rs" "world_ok w"
  shows "{..<length rs} \<subseteq> (\<lambda>r. unat (hdr_height (hdr_of r))) ` hw_raws w"
  using assms
proof (induction rule: header_chain.induct)
  case hc_genesis
  then show ?case by (force simp: world_ok_def)
next
  case (hc_child rs raw h mtp)
  have "unat (hdr_height (hdr_of raw)) = length rs" using hc_child by (simp add: hdr_of_def fixed_fields_ok_def)
  then have "length rs \<in> (\<lambda>r. unat (hdr_height (hdr_of r))) ` hw_raws w" using hc_child.hyps(2) by force
  then show ?case using hc_child by (auto simp: less_Suc_eq)
qed

lemma header_chain_length:
  assumes "header_chain w rs" "world_ok w"
  shows "length rs < 2 ^ 64"
proof -
  have "card {..<length rs} \<le> card ((\<lambda>r. unat (hdr_height (hdr_of r))) ` hw_raws w)"
    using header_chain_heights [OF assms] assms(2) by (intro card_mono) (auto simp: world_ok_def)
  also have "\<dots> \<le> card (hw_raws w)" using assms(2) by (intro card_image_le) (simp add: world_ok_def)
  finally show ?thesis using assms(2) by (simp add: world_ok_def)
qed

section \<open>Labels\<close>

definition label :: "header_world \<Rightarrow> bytes list \<Rightarrow> hash32 \<Rightarrow> u64 \<Rightarrow> u64 \<Rightarrow> u32 \<Rightarrow> work \<Rightarrow> bool" where
  "label w rs h height time bits cum \<longleftrightarrow> header_chain w rs \<and> h = header_hash (last rs) \<and>
     unat height = length rs - 1 \<and> time = hdr_time (hdr_of (last rs)) \<and> bits = hdr_bits (hdr_of (last rs)) \<and>
     cum_rev (hw_limit w) (rev rs) = Some cum"

definition node_is :: "header_world \<Rightarrow> bytes list \<Rightarrow> node \<Rightarrow> bool" where
  "node_is w rs n \<longleftrightarrow> label w rs (nd_hash n) (nd_height n) (nd_time n) (nd_bits n) (nd_cum_work n)"

text \<open>Every node ends a valid chain, its parent ends the chain before it, and its proof of work was checked.\<close>

definition arena_ok :: "header_world \<Rightarrow> header_index \<Rightarrow> bool" where
  "arena_ok w ix \<longleftrightarrow> index_ok ix \<and>
     (\<forall>i < length (hx_nodes ix). \<exists>rs. node_is w rs (hx_nodes ix ! i) \<and>
        (0 < i \<longrightarrow> node_is w (butlast rs) (hx_nodes ix ! parent_of (hx_nodes ix) i) \<and> hw_pow w (last rs)))"

text \<open>The canonical chain up to the base is the chain of the header.\<close>

definition base_sound :: "header_world \<Rightarrow> header_index \<Rightarrow> bytes list \<Rightarrow> u64 \<Rightarrow> bool" where
  "base_sound w ix rs base \<longleftrightarrow> unat base < length (hx_canonical ix) \<and> unat base < length rs \<and>
     node_is w (take (Suc (unat base)) rs) (hx_nodes ix ! unat (hx_canonical ix ! unat base))"

definition staged_is :: "header_world \<Rightarrow> bytes list \<Rightarrow> staged_header \<Rightarrow> bool" where
  "staged_is w rs s \<longleftrightarrow>
     label w rs (hr_hash (sg_rec s)) (hr_height (sg_rec s)) (hr_time (sg_rec s)) (hr_bits (sg_rec s)) (sg_cum_work s) \<and>
     hr_raw (sg_rec s) = last rs \<and> 1 < length rs \<and> hr_prev_hash (sg_rec s) = header_hash (last (butlast rs))"

text \<open>The parent of a staged header is in the arena or staged before it.\<close>

definition staged_ok :: "header_world \<Rightarrow> header_index \<Rightarrow> staged_header list \<Rightarrow> bool" where
  "staged_ok w ix L \<longleftrightarrow>
     (\<forall>i < length L. \<exists>rs. staged_is w rs (L ! i) \<and>
        (hx_contains ix (hr_prev_hash (sg_rec (L ! i))) \<or> (\<exists>j < i. hr_hash (sg_rec (L ! j)) = hr_prev_hash (sg_rec (L ! i)))) \<and>
        (hw_asert w \<longrightarrow> base_sound w ix rs (sg_branch_base_height (L ! i))))"

definition reached :: "header_index \<Rightarrow> staged_header list \<Rightarrow> hash32 \<Rightarrow> bool" where
  "reached ix L h \<longleftrightarrow> hx_contains ix h \<or> h \<in> (\<lambda>s. hr_hash (sg_rec s)) ` set L"

definition lite_label :: "header_world \<Rightarrow> bytes list \<Rightarrow> lite \<Rightarrow> bool" where
  "lite_label w rs nd \<longleftrightarrow> label w rs (lt_hash nd) (lt_height nd) (lt_time nd) (lt_bits nd) (lt_cum_work nd)"

definition lite_is :: "header_world \<Rightarrow> header_index \<Rightarrow> staged_header list \<Rightarrow> bytes list \<Rightarrow> lite \<Rightarrow> bool" where
  "lite_is w ix L rs nd \<longleftrightarrow> lite_label w rs nd \<and> (hw_asert w \<longrightarrow> base_sound w ix rs (lt_branch_base_height nd)) \<and>
     (case lt_arena nd of
        Some i \<Rightarrow> unat i < length (hx_nodes ix) \<and> nd_hash (hx_nodes ix ! unat i) = lt_hash nd
      | None \<Rightarrow> 1 < length rs \<and> lt_prev_hash nd = header_hash (last (butlast rs)) \<and> reached ix L (lt_prev_hash nd))"

lemma label_unique:
  assumes "world_ok w" "label w rs h a b c d" "label w rs' h a' b' c' d'"
  shows "rs' = rs" "a' = a" "b' = b" "c' = c" "d' = d"
proof -
  show "rs' = rs" using assms header_chain_unique [of w rs rs'] by (simp add: label_def)
  then show "a' = a" "b' = b" "c' = c" "d' = d" using assms by (simp_all add: label_def word_unat_eq_iff)
qed

lemma node_is_unique: "world_ok w \<Longrightarrow> node_is w rs n \<Longrightarrow> node_is w rs' n' \<Longrightarrow> nd_hash n = nd_hash n' \<Longrightarrow> rs' = rs"
  unfolding node_is_def using label_unique(1) by metis

lemma label_length: "label w rs h a b c d \<Longrightarrow> length rs = unat a + 1"
  using header_chain_ne by (cases rs) (fastforce simp: label_def)+

lemma node_is_length: "node_is w rs n \<Longrightarrow> length rs = unat (nd_height n) + 1"
  unfolding node_is_def by (rule label_length)

lemma arena_node: "arena_ok w ix \<Longrightarrow> i < length (hx_nodes ix) \<Longrightarrow> \<exists>rs. node_is w rs (hx_nodes ix ! i)"
  by (auto simp: arena_ok_def)

lemma arena_parent:
  assumes "arena_ok w ix" "world_ok w" "0 < i" "i < length (hx_nodes ix)" "node_is w rs (hx_nodes ix ! i)"
  shows "node_is w (butlast rs) (hx_nodes ix ! parent_of (hx_nodes ix) i)" "hw_pow w (last rs)"
proof -
  obtain rs' where "node_is w rs' (hx_nodes ix ! i)"
    "node_is w (butlast rs') (hx_nodes ix ! parent_of (hx_nodes ix) i)" "hw_pow w (last rs')"
    using assms by (auto simp: arena_ok_def)
  moreover have "rs' = rs" using node_is_unique [OF assms(2, 5)] calculation(1) by blast
  ultimately show "node_is w (butlast rs) (hx_nodes ix ! parent_of (hx_nodes ix) i)" "hw_pow w (last rs)" by simp_all
qed

lemma canonical_labels:
  assumes "arena_ok w ix" "world_ok w" "j < length (hx_canonical ix)" "k \<le> j"
    and n: "node_is w rs (hx_nodes ix ! unat (hx_canonical ix ! j))"
  shows "node_is w (take (Suc k) rs) (hx_nodes ix ! unat (hx_canonical ix ! k))"
  using assms(4)
proof (induction rule: inc_induct)
  let ?N = "hx_nodes ix" and ?C = "hx_canonical ix"
  have t: "tree_ok ?N" and c: "chain_ok ?N ?C" using assms(1) by (simp_all add: arena_ok_def index_ok_def)
  case base
  have "length rs = Suc j" using node_is_length [OF n] c assms(3) by (simp add: chain_ok_def)
  then show ?case using n by simp
next
  let ?N = "hx_nodes ix" and ?C = "hx_canonical ix"
  have t: "tree_ok ?N" and c: "chain_ok ?N ?C" using assms(1) by (simp_all add: arena_ok_def index_ok_def)
  case (step k)
  let ?m = "unat (?C ! Suc k)"
  have m: "?m < length ?N" "unat (nd_height (?N ! ?m)) = Suc k" "nd_prev (?N ! ?m) = ?C ! k"
    using c step(2) assms(3) by (simp_all add: chain_ok_def)
  then have "0 < ?m" using t by (cases "?m = 0") (simp_all add: tree_ok_def)
  from arena_parent(1) [OF assms(1, 2) this m(1) step(3)]
  have "node_is w (butlast (take (Suc (Suc k)) rs)) (?N ! unat (?C ! k))" using m(3) by (simp add: parent_of_def)
  moreover have "length (take (Suc (Suc k)) rs) = Suc (Suc k)" using node_is_length [OF step(3)] m(2) by simp
  then have "butlast (take (Suc (Suc k)) rs) = take (Suc k) rs" by (simp add: butlast_take)
  ultimately show ?case by simp
qed

lemma node_base_sound:
  assumes "arena_ok w ix" "world_ok w" "i < length (hx_nodes ix)" "node_is w rs (hx_nodes ix ! i)"
  shows "base_sound w ix rs (nd_branch_base_height (hx_nodes ix ! i))"
  using assms(3, 4)
proof (induction i arbitrary: rs rule: less_induct)
  case (less i)
  let ?N = "hx_nodes ix" and ?C = "hx_canonical ix"
  have t: "tree_ok ?N" and c: "chain_ok ?N ?C" and b: "nd_branch_base_height (?N ! i) = base_rule ?C ?N i"
    using assms(1) less.prems by (simp_all add: arena_ok_def index_ok_def base_ok_def)
  show ?case
  proof (cases "i = 0")
    case True
    then have "nd_branch_base_height (?N ! i) = 0" "nd_height (?N ! 0) = 0" using b t by (simp_all add: base_rule_def tree_ok_def)
    moreover have "?C ! 0 = 0" "?C \<noteq> []" using c by (simp_all add: chain_ok_def)
    ultimately show ?thesis using True less.prems node_is_length [OF less.prems(2)] by (simp add: base_sound_def)
  next
    case False
    let ?p = "parent_of ?N i"
    have p: "?p < i" using tree_parent(1) [OF t _ less.prems(1)] False by simp
    have np: "node_is w (butlast rs) (?N ! ?p)" using arena_parent(1) [OF assms(1, 2) _ less.prems] False by simp
    show ?thesis
    proof (cases "canonical_has ?C (nd_height (?N ! ?p)) (nd_prev (?N ! i))")
      case True
      then have base: "nd_branch_base_height (?N ! i) = nd_height (?N ! ?p)" using b False by (simp add: base_rule_def Let_def)
      have "length (butlast rs) = Suc (unat (nd_height (?N ! ?p)))" using node_is_length [OF np] by simp
      then have "take (Suc (unat (nd_height (?N ! ?p)))) rs = butlast rs" by (simp add: butlast_conv_take)
      then show ?thesis
        using True np \<open>length (butlast rs) = _\<close> by (simp add: base_sound_def base canonical_has_def parent_of_def)
    next
      case nc: False
      then have base: "nd_branch_base_height (?N ! i) = nd_branch_base_height (?N ! ?p)"
        using b False by (simp add: base_rule_def Let_def)
      have "base_sound w ix (butlast rs) (nd_branch_base_height (?N ! ?p))" using less.IH [OF p _ np] p less.prems(1) by simp
      then show ?thesis
        using take_butlast [of "Suc (unat (nd_branch_base_height (?N ! ?p)))" rs] by (auto simp: base_sound_def base)
    qed
  qed
qed

lemma lite_of_node_is:
  assumes "arena_ok w ix" "world_ok w" "unat i < length (hx_nodes ix)" "node_is w rs (hx_nodes ix ! unat i)"
  shows "lite_is w ix L rs (lite_of_node (hx_nodes ix ! unat i) (Some i))"
  using assms node_base_sound [OF assms]
  by (simp add: lite_is_def lite_label_def lite_of_node_def node_is_def)

lemma staged_lite_is:
  assumes "staged_ok w ix L" "s \<in> set L"
  obtains rs where "staged_is w rs s" "lite_is w ix L rs (lite_of_staged s)"
proof -
  obtain i where i: "i < length L" "L ! i = s" using assms(2) by (auto simp: in_set_conv_nth)
  then obtain rs where rs: "staged_is w rs s" "hw_asert w \<longrightarrow> base_sound w ix rs (sg_branch_base_height s)"
    "hx_contains ix (hr_prev_hash (sg_rec s)) \<or> (\<exists>j < i. hr_hash (sg_rec (L ! j)) = hr_prev_hash (sg_rec s))"
    using assms(1) unfolding staged_ok_def by blast
  have "reached ix L (hr_prev_hash (sg_rec s))"
    using rs(3)
  proof
    assume "\<exists>j < i. hr_hash (sg_rec (L ! j)) = hr_prev_hash (sg_rec s)"
    then obtain j where "j < i" "hr_hash (sg_rec (L ! j)) = hr_prev_hash (sg_rec s)" by blast
    then show ?thesis using i nth_mem [of j L] unfolding reached_def image_iff by (metis less_trans)
  qed (simp add: reached_def)
  then have "lite_is w ix L rs (lite_of_staged s)"
    using rs by (simp add: lite_is_def lite_label_def lite_of_staged_def staged_is_def)
  then show thesis using that rs by blast
qed

lemma find_parent_ok:
  assumes "arena_ok w ix" "world_ok w" "staged_ok w ix L"
  shows "(reached ix L h \<and> (\<exists>p rs. find_parent ix L h = Some (Some p) \<and> lite_is w ix L rs p \<and> lt_hash p = h)) \<or>
    (\<not> reached ix L h \<and> find_parent ix L h = Some None)"
proof (cases "hx_index_of ix h")
  case (Some i)
  then have i: "unat i < length (hx_nodes ix)" "nd_hash (hx_nodes ix ! unat i) = h"
    using assms(1) by (auto simp: arena_ok_def index_ok_def hash_ok_def hx_index_of_def)
  obtain rs where "node_is w rs (hx_nodes ix ! unat i)" using arena_node [OF assms(1) i(1)] by blast
  from lite_of_node_is [OF assms(1, 2) i(1) this]
  have "find_parent ix L h = Some (Some (lite_of_node (hx_nodes ix ! unat i) (Some i)))"
    "\<exists>rs. lite_is w ix L rs (lite_of_node (hx_nodes ix ! unat i) (Some i))"
    "lt_hash (lite_of_node (hx_nodes ix ! unat i) (Some i)) = h"
    using i Some by (auto simp: find_parent_def hx_node_def lite_of_node_def)
  moreover have "reached ix L h" using Some by (simp add: reached_def hx_contains_def hx_index_of_def)
  ultimately show ?thesis by auto
next
  case None
  show ?thesis
  proof (cases "List.find (\<lambda>s. hr_hash (sg_rec s) = h) (rev L)")
    case notfound: None
    then have "\<not> reached ix L h" using None
      by (auto simp: reached_def hx_contains_def hx_index_of_def find_None_iff)
    then show ?thesis using None notfound by (simp add: find_parent_def)
  next
    case (Some s)
    then have s: "s \<in> set L" "hr_hash (sg_rec s) = h" by (auto simp: find_Some_iff) (metis nth_mem length_rev set_rev)
    obtain rs where "lite_is w ix L rs (lite_of_staged s)" using staged_lite_is [OF assms(3) s(1)] by blast
    moreover have "reached ix L h" using s by (auto simp: reached_def)
    moreover have "lt_hash (lite_of_staged s) = h" using s by (simp add: lite_of_staged_def)
    ultimately show ?thesis using None Some by (auto simp: find_parent_def)
  qed
qed

lemma lite_parent_ok:
  assumes "arena_ok w ix" "world_ok w" "staged_ok w ix L" "lite_is w ix L rs nd"
  shows "if length rs = 1 then lite_parent ix L nd = Some None
    else \<exists>p. lite_parent ix L nd = Some (Some p) \<and> lite_is w ix L (butlast rs) p"
proof (cases "lt_arena nd")
  case None
  then have l: "1 < length rs" "lt_prev_hash nd = header_hash (last (butlast rs))" "reached ix L (lt_prev_hash nd)"
    "header_chain w rs"
    using assms(4) unfolding lite_is_def lite_label_def label_def by auto
  obtain p rs' where p: "find_parent ix L (lt_prev_hash nd) = Some (Some p)" "lite_is w ix L rs' p" "lt_hash p = lt_prev_hash nd"
    using find_parent_ok [OF assms(1-3), of "lt_prev_hash nd"] l(3) by blast
  have "header_chain w rs'" "header_hash (last rs') = header_hash (last (butlast rs))"
    using p(2, 3) l(2) unfolding lite_is_def lite_label_def label_def by metis+
  then have "rs' = butlast rs"
    using header_chain_unique [OF _ header_chain_butlast(1) [OF l(4, 1)] assms(2)] by blast
  then show ?thesis using p l None by (auto simp: lite_parent_def)
next
  case (Some i)
  let ?N = "hx_nodes ix"
  have i: "unat i < length ?N" "nd_hash (?N ! unat i) = lt_hash nd" using assms(4) Some by (simp_all add: lite_is_def)
  have t: "tree_ok ?N" using assms(1) by (simp add: arena_ok_def index_ok_def)
  obtain rs' where "node_is w rs' (?N ! unat i)" using arena_node [OF assms(1) i(1)] by blast
  moreover have "rs' = rs" using calculation assms(4) i label_unique(1) [OF assms(2)] unfolding node_is_def lite_is_def lite_label_def by metis
  ultimately have n: "node_is w rs (?N ! unat i)" by simp
  have len: "length rs = 1 \<longleftrightarrow> unat i = 0"
    using node_is_length [OF n] t tree_parent(4) [OF t _ i(1)] by (cases "unat i = 0") (auto simp: tree_ok_def)
  show ?thesis
  proof (cases "unat i = 0")
    case True
    then show ?thesis using len Some i t by (simp add: lite_parent_def hx_node_def tree_ok_def)
  next
    case False
    let ?p = "nd_prev (?N ! unat i)"
    have p: "unat ?p < unat i" "?p \<noteq> NO_PARENT"
      using tree_parent(1,2) [OF t _ i(1)] False by (simp_all add: parent_of_def)
    have "node_is w (butlast rs) (?N ! unat ?p)"
      using arena_parent(1) [OF assms(1, 2) _ i(1) n] False by (simp add: parent_of_def)
    then have "lite_is w ix L (butlast rs) (lite_of_node (?N ! unat ?p) (Some ?p))"
      using lite_of_node_is [OF assms(1, 2)] p i(1) by simp
    then show ?thesis using len False Some i p by (auto simp: lite_parent_def hx_node_def)
  qed
qed

section \<open>Walks\<close>

lemma ancestor_times_loop_ok:
  assumes "arena_ok w ix" "world_ok w" "staged_ok w ix L" "lite_is w ix L rs nd"
  shows "ancestor_times_loop ix L k nd out = Some (drop (length rs - k) (chain_times rs) @ rev out)"
  using assms(4)
proof (induction k arbitrary: rs nd out)
  case 0
  then show ?case by (simp add: chain_times_def)
next
  case (Suc k)
  have ne: "rs \<noteq> []" using Suc.prems header_chain_ne by (auto simp: lite_is_def lite_label_def label_def)
  have t: "lt_time nd = hdr_time (hdr_of (last rs))" using Suc.prems by (simp add: lite_is_def lite_label_def label_def)
  have split: "chain_times rs = chain_times (butlast rs) @ [lt_time nd]"
    using ne t by (cases rs rule: rev_cases) (simp_all add: chain_times_def)
  show ?case
  proof (cases "length rs = 1")
    case True
    then have "butlast rs = []" by (cases rs) auto
    then show ?thesis using lite_parent_ok [OF assms(1-3) Suc.prems] True split by (simp add: chain_times_def)
  next
    case False
    then obtain p where p: "lite_parent ix L nd = Some (Some p)" "lite_is w ix L (butlast rs) p"
      using lite_parent_ok [OF assms(1-3) Suc.prems] by auto
    have "length (butlast rs) - k = length rs - Suc k" by simp
    then show ?thesis using Suc.IH [OF p(2)] p(1) split by (simp add: chain_times_def)
  qed
qed

lemma ancestor_times_ok:
  assumes "arena_ok w ix" "world_ok w" "staged_ok w ix L" "lite_is w ix L rs nd"
  shows "ancestor_times ix L nd k = Some (drop (length rs - k) (chain_times rs))"
  by (simp add: ancestor_times_def ancestor_times_loop_ok [OF assms])

lemma median_of_window: "median_time_past (drop (length ts - MEDIAN_TIME_SPAN) ts) = median_time_past ts"
  by (cases ts) (auto simp: median_time_past_def time_window_def Let_def)

lemma ancestor_walk_ok:
  assumes "arena_ok w ix" "world_ok w" "staged_ok w ix L" "lite_is w ix L rs nd" "unat height < length rs"
  shows "\<exists>p. ancestor_walk ix L nd height = Some (Some p) \<and> lite_is w ix L (take (Suc (unat height)) rs) p"
  using assms(4, 5)
proof (induction "length rs" arbitrary: rs nd rule: less_induct)
  case less
  have len: "length rs = unat (lt_height nd) + 1"
    using less.prems label_length by (auto simp: lite_is_def lite_label_def)
  show ?case
  proof (cases "lt_height nd = height")
    case True
    then show ?thesis using less.prems len by (subst ancestor_walk.simps) simp
  next
    case False
    then have lt: "height < lt_height nd" using len less.prems(2) by (auto simp: word_less_nat_alt word_unat_eq_iff)
    then have "1 < length rs" using len by (cases "lt_height nd = 0") (auto simp: unat_gt_0)
    then obtain p where p: "lite_parent ix L nd = Some (Some p)" "lite_is w ix L (butlast rs) p"
      using lite_parent_ok [OF assms(1-3) less.prems(1)] by auto
    have h: "unat height < length (butlast rs)" using lt len by (simp add: word_less_nat_alt)
    then have "take (Suc (unat height)) (butlast rs) = take (Suc (unat height)) rs" by (simp add: take_butlast)
    moreover have "ancestor_walk ix L nd height = ancestor_walk ix L p height"
      using p(1) lt by (subst ancestor_walk.simps) simp
    ultimately show ?thesis using less.hyps [OF _ p(2) h] \<open>1 < length rs\<close> by simp
  qed
qed

lemma lite_chain: "lite_is w ix L rs nd \<Longrightarrow> header_chain w rs \<and> length rs = unat (lt_height nd) + 1"
  unfolding lite_is_def lite_label_def using label_length by (meson label_def)

lemma last_take_Suc: "k < length rs \<Longrightarrow> last (take (Suc k) rs) = rs ! k"
  by (simp add: take_Suc_conv_app_nth)

lemma canonical_at_total:
  assumes "arena_ok w ix"
  shows "hx_canonical_at ix height \<noteq> None"
  using assms by (auto simp: hx_canonical_at_def hx_node_def arena_ok_def index_ok_def chain_ok_def)

lemma ancestor_of_total:
  assumes "arena_ok w ix" "world_ok w" "staged_ok w ix L" "lite_is w ix L rs nd"
  shows "ancestor_of ix L nd height \<noteq> None"
proof -
  consider "lt_height nd < height" | "height \<le> lt_height nd" "height \<le> lt_branch_base_height nd"
    | "height \<le> lt_height nd" "\<not> height \<le> lt_branch_base_height nd" by fastforce
  then show ?thesis
  proof cases
    case 2
    then show ?thesis using canonical_at_total [OF assms(1), of height] by (auto simp: ancestor_of_def split: option.splits)
  next
    case 3
    then have "unat height < length rs" using lite_chain [OF assms(4)] by (simp add: word_le_nat_alt)
    then show ?thesis using 3 ancestor_walk_ok [OF assms] by (auto simp: ancestor_of_def)
  qed (simp add: ancestor_of_def)
qed

lemma ancestor_of_ok:
  assumes "arena_ok w ix" "world_ok w" "staged_ok w ix L" "lite_is w ix L rs nd" "unat height < length rs" "hw_asert w"
  shows "\<exists>p. ancestor_of ix L nd height = Some (Some p) \<and> lite_label w (take (Suc (unat height)) rs) p"
proof -
  let ?b = "lt_branch_base_height nd"
  have le: "\<not> lt_height nd < height" using lite_chain [OF assms(4)] assms(5) by (simp add: word_less_nat_alt)
  show ?thesis
  proof (cases "height \<le> ?b")
    case True
    have b: "unat ?b < length (hx_canonical ix)" "unat ?b < length rs"
      "node_is w (take (Suc (unat ?b)) rs) (hx_nodes ix ! unat (hx_canonical ix ! unat ?b))"
      using assms(4, 6) by (simp_all add: lite_is_def base_sound_def)
    have h: "unat height \<le> unat ?b" using True by (simp add: word_le_nat_alt)
    let ?i = "hx_canonical ix ! unat height"
    have "node_is w (take (Suc (unat height)) (take (Suc (unat ?b)) rs)) (hx_nodes ix ! unat ?i)"
      by (rule canonical_labels [OF assms(1, 2) b(1) h b(3)])
    then have n: "node_is w (take (Suc (unat height)) rs) (hx_nodes ix ! unat ?i)" using h by (simp add: min_def)
    have "unat ?i < length (hx_nodes ix)"
      using assms(1) b(1) h by (auto simp: arena_ok_def index_ok_def chain_ok_def)
    then have "hx_canonical_at ix height = Some (Some (hx_nodes ix ! unat ?i))"
      using b(1) h by (simp add: hx_canonical_at_def hx_node_def)
    then show ?thesis using le True n by (simp add: ancestor_of_def lite_label_def lite_of_node_def node_is_def)
  next
    case False
    then show ?thesis using ancestor_walk_ok [OF assms(1-5)] le by (auto simp: ancestor_of_def lite_is_def)
  qed
qed

lemma anchor_height_le: "unat (anchor_height_for ph iv) \<le> unat ph"
proof -
  let ?iv = "if iv = 0 then ASERT_ANCHOR_INTERVAL else iv"
  have "unat (ph div ?iv) * unat ?iv \<le> unat ph" by (simp add: unat_div)
  moreover have "unat ph < 2 ^ 64" using unat_u64_lt [of ph] by simp
  ultimately have "unat (ph div ?iv * ?iv) = unat (ph div ?iv) * unat ?iv" by (subst unat_mult_lem [symmetric]) simp
  then show ?thesis using \<open>unat (ph div ?iv) * unat ?iv \<le> unat ph\<close> by (simp only: anchor_height_for_def Let_def)
qed

definition ctx_ok :: "header_world \<Rightarrow> ingest_ctx \<Rightarrow> bool" where
  "ctx_ok w ctx \<longleftrightarrow> cp_pow_limit (ic_params ctx) = hw_limit w \<and> cp_asert_anchor_interval (ic_params ctx) = hw_interval w \<and>
     ic_genesis_time ctx = hw_genesis_time w \<and> ic_pow_verify ctx = hw_pow w"

lemma resolve_anchor_total:
  assumes "arena_ok w ix" "world_ok w" "staged_ok w ix L" "lite_is w ix L rs nd"
  shows "resolve_anchor ix L nd ctx \<noteq> None"
  using ancestor_of_total [OF assms] unfolding resolve_anchor_def Let_def
  by (intro bindP_total) (auto split: if_splits)

lemma resolve_anchor_ok:
  assumes "arena_ok w ix" "world_ok w" "staged_ok w ix L" "lite_is w ix L rs nd" "hw_asert w" "ctx_ok w ctx"
  obtains a_bits a_height a_time where "resolve_anchor ix L nd ctx = Some (Inr (a_bits, a_height, a_time))"
    "expected_child_bits a_bits a_height a_time (lt_height nd) (lt_time nd) (hw_limit w) = chain_child_bits w rs"
proof -
  let ?ah = "anchor_height_for (lt_height nd) (hw_interval w)"
  have c: "length rs = unat (lt_height nd) + 1" "lt_time nd = hdr_time (hdr_of (last rs))"
    using lite_chain [OF assms(4)] assms(4) by (simp_all add: lite_is_def lite_label_def label_def)
  have ah: "unat ?ah < length rs" using c(1) anchor_height_le [of "lt_height nd" "hw_interval w"] by simp
  obtain p where p: "ancestor_of ix L nd ?ah = Some (Some p)" "lite_label w (take (Suc (unat ?ah)) rs) p"
    using ancestor_of_ok [OF assms(1-4) ah assms(5)] by blast
  have pf: "lt_bits p = hdr_bits (hdr_of (rs ! unat ?ah))" "lt_height p = ?ah"
    using p(2) ah by (simp_all add: lite_label_def label_def last_take_Suc word_unat_eq_iff)
  have ph: "of_nat (length rs - 1) = lt_height nd" using c(1) by simp
  show thesis
  proof (cases "?ah = 0")
    case True
    let ?t = "saturating_sub (hw_genesis_time w) BLOCK_TIME_SECS"
    have "resolve_anchor ix L nd ctx = Some (Inr (lt_bits p, lt_height p, ?t))"
      using p(1) True assms(6) by (simp add: resolve_anchor_def ctx_ok_def)
    moreover have "expected_child_bits (lt_bits p) (lt_height p) ?t (lt_height nd) (lt_time nd) (hw_limit w) = chain_child_bits w rs"
      unfolding chain_child_bits_def Let_def ph using True pf c(2) by simp
    ultimately show thesis by (rule that)
  next
    case False
    then have m: "unat (?ah - 1) = unat ?ah - 1" by (simp add: unat_minus_one)
    then have m: "unat (?ah - 1) < length rs" using ah by simp
    from ancestor_of_ok [OF assms(1-4) this assms(5)]
    obtain q where q: "ancestor_of ix L nd (?ah - 1) = Some (Some q)" "lite_label w (take (Suc (unat (?ah - 1))) rs) q" by blast
    have t: "lt_time q = hdr_time (hdr_of (rs ! unat (?ah - 1)))"
      using q(2) m by (simp add: lite_label_def label_def last_take_Suc)
    have "resolve_anchor ix L nd ctx = Some (Inr (lt_bits p, lt_height p, lt_time q))"
      using p(1) q(1) False assms(6) by (simp add: resolve_anchor_def ctx_ok_def)
    moreover have "expected_child_bits (lt_bits p) (lt_height p) (lt_time q) (lt_height nd) (lt_time nd) (hw_limit w) = chain_child_bits w rs"
      unfolding chain_child_bits_def Let_def ph using False pf c(2) t by simp
    ultimately show thesis by (rule that)
  qed
qed

lemma anchor_reach_total:
  assumes "arena_ok w ix" "world_ok w" "staged_ok w ix L" "lite_is w ix L rs nd"
  shows "anchor_reach_of ix L nd a \<noteq> None"
  using ancestor_of_total [OF assms, of "anchor_height a"] by (auto simp: anchor_reach_of_def)

lemma base_sound_append:
  assumes "base_sound w ix rs base"
  shows "base_sound w ix (rs @ [r]) base"
  using assms by (auto simp: base_sound_def)

lemma child_base_ok:
  assumes "arena_ok w ix" "world_ok w" "lite_is w ix L rs nd"
  shows "\<exists>base. child_branch_base ix nd = Some base \<and> (hw_asert w \<longrightarrow> base_sound w ix rs base)"
proof (cases "lt_arena nd")
  case None
  then show ?thesis using assms(3) by (simp add: child_branch_base_def lite_is_def)
next
  case (Some i)
  let ?n = "hx_nodes ix ! unat i"
  have i: "unat i < length (hx_nodes ix)" "nd_hash ?n = lt_hash nd" using assms(3) Some by (simp_all add: lite_is_def)
  obtain rs' where n': "node_is w rs' ?n" using arena_node [OF assms(1) i(1)] by blast
  have l: "label w rs (lt_hash nd) (lt_height nd) (lt_time nd) (lt_bits nd) (lt_cum_work nd)"
    using assms(3) by (simp add: lite_is_def lite_label_def)
  have "rs' = rs" "nd_height ?n = lt_height nd"
    using label_unique(1, 2) [OF assms(2) l] n' i(2) unfolding node_is_def by metis+
  then have n: "node_is w rs ?n" "nd_height ?n = lt_height nd" using n' by simp_all
  have "canonical_has (hx_canonical ix) (lt_height nd) i \<Longrightarrow> base_sound w ix rs (lt_height nd)"
    using n label_length [OF l] by (simp add: base_sound_def canonical_has_def)
  then show ?thesis using Some i(1) n(2) assms(3) by (auto simp: child_branch_base_def hx_is_canonical_def hx_node_def lite_is_def)
qed

end
