(* ===== verification/Header_Staging.thy ===== *)
theory Header_Staging
  imports Header_Chains
begin

text \<open>
  Header ingest keeps its invariant: what the gates let through extends a valid chain, promotion puts only
  headers with a checked proof of work into the arena, and every operation returns.
\<close>

section \<open>The gates\<close>

lemma genesis_contained:
  assumes "arena_ok w ix" "world_ok w"
  shows "hx_contains ix (header_hash (hw_genesis w))"
proof -
  have t: "tree_ok (hx_nodes ix)" and h: "hash_ok (hx_nodes ix) (hx_by_hash ix)"
    using assms(1) by (simp_all add: arena_ok_def index_ok_def)
  then have l: "0 < length (hx_nodes ix)" by (simp add: tree_ok_def)
  then obtain rs where n: "node_is w rs (hx_nodes ix ! 0)" using arena_node [OF assms(1)] by blast
  then have "length rs = 1" using node_is_length [OF n] t by (simp add: tree_ok_def)
  then have "rs = [hw_genesis w]" using n header_chain_first [of w rs] by (cases rs) (auto simp: node_is_def label_def)
  then have "nd_hash (hx_nodes ix ! 0) = header_hash (hw_genesis w)" using n by (simp add: node_is_def label_def)
  then have "fmlookup (hx_by_hash ix) (header_hash (hw_genesis w)) = Some 0" using h l by (simp add: hash_ok_def)
  then show ?thesis by (simp add: hx_contains_def)
qed

lemma window_ok:
  assumes "arena_ok w ix" "world_ok w" "staged_ok w ix L" "lite_is w ix L rs nd"
  shows "\<exists>ts. ancestor_times ix L nd MEDIAN_TIME_SPAN = Some ts \<and> ts \<noteq> [] \<and>
    median_time_past ts = median_time_past (chain_times rs)"
proof -
  have "rs \<noteq> []" using lite_chain [OF assms(4)] by auto
  then have "drop (length rs - MEDIAN_TIME_SPAN) (chain_times rs) \<noteq> []" by (cases rs) (auto simp: chain_times_def)
  moreover have "length (chain_times rs) = length rs" by (simp add: chain_times_def)
  ultimately show ?thesis using ancestor_times_ok [OF assms] median_of_window [of "chain_times rs"] by simp
qed

lemma stage_gates_total:
  assumes "arena_ok w ix" "world_ok w" "staged_ok w ix L"
  shows "stage_gates ix L ctx raw hash \<noteq> None"
proof -
  have par: "\<exists>rs. lite_is w ix L rs p"
    if "map_option (\<lambda>p. ok_or p e) (find_parent ix L h) = Some (Inr p)" for p e h
    using find_parent_ok [OF assms, of h] that by (auto simp: result_simps)
  have fp: "find_parent ix L h \<noteq> None" for h using find_parent_ok [OF assms, of h] by auto
  show ?thesis
    unfolding stage_gates_def Let_def
  proof (intro bindP_total, goal_cases)
    case (3 h u)
    then show ?case using fp by simp
  next
    case (5 h u parent u')
    then show ?case using par [OF 5(3)] resolve_anchor_total [OF assms] by blast
  next
    case (6 h u parent u' a)
    obtain rs where p: "lite_is w ix L rs parent" using par [OF 6(3)] by blast
    obtain ts where ts: "ancestor_times ix L parent MEDIAN_TIME_SPAN = Some ts" "ts \<noteq> []"
      using window_ok [OF assms p] by blast
    obtain a_bits a_height a_time where a: "a = (a_bits, a_height, a_time)" by (cases a)
    have "anchor_reach_of ix L parent x \<noteq> None" for x by (rule anchor_reach_total [OF assms p])
    then show ?case
      unfolding a prod.case
      using ts s4_time_total [OF ts(2)] child_base_ok [OF assms(1, 2) p]
      by (intro bindP_total) (auto split: option.splits)
  qed (simp_all add: fp)
qed

lemma stage_gates_ok:
  assumes ok: "arena_ok w ix" "world_ok w" "staged_ok w ix L" and ctx: "ctx_ok w ctx"
    and raw: "raw \<in> hw_raws w" "raw \<noteq> hw_genesis w"
    and gates: "stage_gates ix L ctx raw (header_hash raw) = Some (Inr (h, parent, base))"
  obtains rs where "lite_is w ix L rs parent" "reached ix L (hdr_prev_hash h)" "header_chain w (rs @ [raw])" "hdr_of raw = h"
    "hdr_prev_hash h = header_hash (last rs)" "hw_asert w \<longrightarrow> base_sound w ix (rs @ [raw]) base"
    "check_block_checkpoint (ic_checkpoints ctx) (hdr_height h) (header_hash raw) = Inr ()"
proof -
  obtain a_bits a_height a_time ts reach where
    f: "fixed_fields_ok (hw_limit w) raw h" and cp: "s1b_checkpoint (ic_checkpoints ctx) (hdr_height h) (header_hash raw) = Inr ()"
    and fp: "find_parent ix L (hdr_prev_hash h) = Some (Some parent)"
    and ht: "hdr_height h = saturating_add (lt_height parent) 1"
    and ra: "resolve_anchor ix L parent ctx = Some (Inr (a_bits, a_height, a_time))"
    and bits: "expected_child_bits a_bits a_height a_time (lt_height parent) (lt_time parent) (hw_limit w) = Inr (hdr_bits h)"
    and ts: "ancestor_times ix L parent MEDIAN_TIME_SPAN = Some ts"
    and s4: "s4_time ts (hdr_time h) (ic_now ctx) = Some (Inr ())"
    and base: "child_branch_base ix parent = Some base"
    using gates ctx
    by (auto simp: stage_gates_def Let_def result_simps s1_fixed_fields_Inr s2_height_Inr s3_bits_Inr ctx_ok_def
        split: prod.splits)
  obtain rs where p: "lite_is w ix L rs parent" "lt_hash parent = hdr_prev_hash h" "reached ix L (hdr_prev_hash h)"
    using find_parent_ok [OF ok, of "hdr_prev_hash h"] fp by auto
  have c: "header_chain w rs" "length rs = unat (lt_height parent) + 1" using lite_chain [OF p(1)] by simp_all
  have prev: "hdr_prev_hash h = header_hash (last rs)"
    using p unfolding lite_is_def lite_label_def label_def by metis
  have "length rs < 2 ^ 64" by (rule header_chain_length [OF c(1) ok(2)])
  then have height: "unat (hdr_height h) = length rs" using ht c(2) by (simp add: saturating_add_def unat_add_no_overflow)
  obtain mtp where mtp: "median_time_past (chain_times rs) = Some mtp" "mtp < hdr_time h"
    using s4 window_ok [OF ok p(1)] ts by (auto simp: s4_time_Inr)
  have asert: "hw_asert w \<longrightarrow> chain_child_bits w rs = Inr (hdr_bits h)"
  proof
    assume "hw_asert w"
    from resolve_anchor_ok [OF ok p(1) this ctx] show "chain_child_bits w rs = Inr (hdr_bits h)"
      using ra bits by (metis Inr_inject option.inject prod.inject)
  qed
  have "header_chain w (rs @ [raw])" by (rule header_chain.hc_child [OF c(1) raw f prev height mtp asert])
  moreover have "hdr_of raw = h" using f by (simp add: fixed_fields_ok_def hdr_of_def)
  moreover have "hw_asert w \<longrightarrow> base_sound w ix (rs @ [raw]) base"
    using child_base_ok [OF ok(1, 2) p(1)] base base_sound_append by fastforce
  moreover have "check_block_checkpoint (ic_checkpoints ctx) (hdr_height h) (header_hash raw) = Inr ()"
    using cp by (simp add: s1b_checkpoint_def result_simps)
  ultimately show thesis using that p prev by blast
qed

section \<open>Growing the arena\<close>

definition arena_le :: "header_index \<Rightarrow> header_index \<Rightarrow> bool" where
  "arena_le ix ix' \<longleftrightarrow> hx_canonical ix' = hx_canonical ix \<and> length (hx_nodes ix) \<le> length (hx_nodes ix') \<and>
     (\<forall>i < length (hx_nodes ix). hx_nodes ix' ! i = hx_nodes ix ! i) \<and> (\<forall>h. hx_contains ix h \<longrightarrow> hx_contains ix' h)"

lemma arena_le_refl [simp]: "arena_le ix ix"
  by (simp add: arena_le_def)

lemma arena_le_trans: "arena_le a b \<Longrightarrow> arena_le b c \<Longrightarrow> arena_le a c"
  unfolding arena_le_def by (metis order_less_le_trans order_trans)

lemma base_sound_mono:
  assumes "arena_ok w ix" "arena_le ix ix'" "base_sound w ix rs base"
  shows "base_sound w ix' rs base"
proof -
  have "unat (hx_canonical ix ! unat base) < length (hx_nodes ix)"
    using assms(1, 3) by (simp add: arena_ok_def index_ok_def chain_ok_def base_sound_def)
  then show ?thesis using assms(2, 3) by (simp add: base_sound_def arena_le_def)
qed

lemma staged_ok_mono:
  assumes "arena_ok w ix" "arena_le ix ix'" "staged_ok w ix L"
  shows "staged_ok w ix' L"
  unfolding staged_ok_def
proof (intro allI impI)
  fix i assume "i < length L"
  then obtain rs where "staged_is w rs (L ! i)" "hw_asert w \<longrightarrow> base_sound w ix rs (sg_branch_base_height (L ! i))"
    "hx_contains ix (hr_prev_hash (sg_rec (L ! i))) \<or> (\<exists>j < i. hr_hash (sg_rec (L ! j)) = hr_prev_hash (sg_rec (L ! i)))"
    using assms(3) unfolding staged_ok_def by blast
  then show "\<exists>rs. staged_is w rs (L ! i) \<and>
      (hx_contains ix' (hr_prev_hash (sg_rec (L ! i))) \<or> (\<exists>j < i. hr_hash (sg_rec (L ! j)) = hr_prev_hash (sg_rec (L ! i)))) \<and>
      (hw_asert w \<longrightarrow> base_sound w ix' rs (sg_branch_base_height (L ! i)))"
    using base_sound_mono [OF assms(1, 2)] assms(2) unfolding arena_le_def by blast
qed

lemma staged_ok_Cons:
  assumes "staged_ok w ix (s # L)" "hx_contains ix (hr_hash (sg_rec s))"
  shows "staged_ok w ix L"
  unfolding staged_ok_def
proof (intro allI impI)
  fix i assume "i < length L"
  then have "Suc i < length (s # L)" by simp
  then obtain rs where rs: "staged_is w rs (L ! i)" "hw_asert w \<longrightarrow> base_sound w ix rs (sg_branch_base_height (L ! i))"
    "hx_contains ix (hr_prev_hash (sg_rec (L ! i))) \<or>
     (\<exists>j < Suc i. hr_hash (sg_rec ((s # L) ! j)) = hr_prev_hash (sg_rec (L ! i)))"
    using assms(1) unfolding staged_ok_def by fastforce
  have "hx_contains ix (hr_prev_hash (sg_rec (L ! i))) \<or> (\<exists>j < i. hr_hash (sg_rec (L ! j)) = hr_prev_hash (sg_rec (L ! i)))"
    using rs(3) assms(2) by (auto simp: less_Suc_eq_0_disj)
  then show "\<exists>rs. staged_is w rs (L ! i) \<and>
      (hx_contains ix (hr_prev_hash (sg_rec (L ! i))) \<or> (\<exists>j < i. hr_hash (sg_rec (L ! j)) = hr_prev_hash (sg_rec (L ! i)))) \<and>
      (hw_asert w \<longrightarrow> base_sound w ix rs (sg_branch_base_height (L ! i)))"
    using rs by blast
qed

lemma staged_ok_snoc:
  assumes "staged_ok w ix L" "staged_is w rs s" "reached ix L (hr_prev_hash (sg_rec s))"
    and "hw_asert w \<longrightarrow> base_sound w ix rs (sg_branch_base_height s)"
  shows "staged_ok w ix (L @ [s])"
  unfolding staged_ok_def
proof (intro allI impI)
  fix i assume "i < length (L @ [s])"
  then consider "i < length L" | "i = length L" by fastforce
  then show "\<exists>rs. staged_is w rs ((L @ [s]) ! i) \<and>
      (hx_contains ix (hr_prev_hash (sg_rec ((L @ [s]) ! i))) \<or>
       (\<exists>j < i. hr_hash (sg_rec ((L @ [s]) ! j)) = hr_prev_hash (sg_rec ((L @ [s]) ! i)))) \<and>
      (hw_asert w \<longrightarrow> base_sound w ix rs (sg_branch_base_height ((L @ [s]) ! i)))"
  proof cases
    case 1
    then have "(L @ [s]) ! j = L ! j" if "j \<le> i" for j using that by (simp add: nth_append)
    then show ?thesis using assms(1) 1 unfolding staged_ok_def by (metis less_imp_le order_refl)
  next
    case 2
    have "hx_contains ix (hr_prev_hash (sg_rec s)) \<or> (\<exists>j < length L. hr_hash (sg_rec (L ! j)) = hr_prev_hash (sg_rec s))"
      using assms(3) unfolding reached_def image_iff by (metis in_set_conv_nth)
    then have "hx_contains ix (hr_prev_hash (sg_rec s)) \<or>
      (\<exists>j < length L. hr_hash (sg_rec ((L @ [s]) ! j)) = hr_prev_hash (sg_rec s))" by (metis nth_append)
    then show ?thesis using assms(2, 4) 2 by auto
  qed
qed

lemma staged_work:
  assumes "label w rs h a b c cum" "1 < length rs" "wf_target (hw_limit w)"
  obtains pc bw where "cum_rev (hw_limit w) (rev (butlast rs)) = Some pc" "bits_work c (hw_limit w) = Some bw" "wf_work bw"
    "work_checked_add pc bw = Some cum"
proof -
  obtain r x xs where rs: "rev rs = r # x # xs" using assms(2) by (cases "rev rs"; cases "tl (rev rs)") auto
  have "rev (butlast rs) = x # xs" using rs by (metis butlast_rev list.sel(3) rev_rev_ident)
  moreover have "last rs = r" using rs by (metis hd_rev list.sel(1))
  moreover obtain pc bw where w: "cum_rev (hw_limit w) (x # xs) = Some pc" "bits_work (hdr_bits (hdr_of r)) (hw_limit w) = Some bw"
    "work_checked_add pc bw = Some cum"
    using assms(1) rs by (auto simp: label_def bind_eq_Some_conv)
  moreover have "wf_work bw"
    using w(2) bits_work_val [OF _ assms(3), of "hdr_bits (hdr_of r)"] by (auto simp: bits_work_def split: option.splits)
  ultimately show thesis using that assms(1) by (auto simp: label_def)
qed

lemma arena_insert:
  assumes "arena_ok w ix" "world_ok w" "index_reach (hw_limit w) ix" "staged_is w rs s" "hw_pow w (last rs)"
    and par: "hx_index_of ix (hr_prev_hash (sg_rec s)) = Some parent" and cap: "Suc (length (hx_nodes ix)) < 2 ^ 32"
  obtains i ix' where "hx_insert ix (sg_rec s) parent (sg_cum_work s) True = Some (i, ix')" "arena_ok w ix'"
    "index_reach (hw_limit w) ix'" "arena_le ix ix'" "hx_contains ix' (hr_hash (sg_rec s))"
    "length (hx_nodes ix') \<le> Suc (length (hx_nodes ix))"
proof -
  let ?N = "hx_nodes ix" and ?r = "sg_rec s"
  have idx: "index_ok ix" using assms(1) by (simp add: arena_ok_def)
  have p: "unat parent < length ?N" "nd_hash (?N ! unat parent) = hr_prev_hash ?r"
    using par idx by (auto simp: index_ok_def hash_ok_def hx_index_of_def)
  have l: "label w rs (hr_hash ?r) (hr_height ?r) (hr_time ?r) (hr_bits ?r) (sg_cum_work s)" "1 < length rs"
    "hr_prev_hash ?r = header_hash (last (butlast rs))" using assms(4) by (simp_all add: staged_is_def)
  obtain rs' where n': "node_is w rs' (?N ! unat parent)" using arena_node [OF assms(1) p(1)] by blast
  have "rs' = butlast rs"
    using header_chain_unique [OF _ header_chain_butlast(1) [OF _ l(2)] assms(2)] n' l p(2)
    unfolding node_is_def label_def by metis
  then have n: "node_is w (butlast rs) (?N ! unat parent)" using n' by simp
  obtain pc bw where wk: "cum_rev (hw_limit w) (rev (butlast rs)) = Some pc" "bits_work (hr_bits ?r) (hw_limit w) = Some bw"
    "wf_work bw" "work_checked_add pc bw = Some (sg_cum_work s)"
    using staged_work [OF l(1, 2)] assms(2) by (auto simp: world_ok_def)
  have "pc = nd_cum_work (?N ! unat parent)" using n wk(1) by (simp add: node_is_def label_def)
  then have wk': "work_checked_add (nd_cum_work (?N ! unat parent)) bw = Some (sg_cum_work s)" using wk(4) by simp
  have ht: "unat (hr_height ?r) = unat (nd_height (?N ! unat parent)) + 1"
    using label_length [OF l(1)] node_is_length [OF n] by simp
  show thesis
  proof (cases "hx_index_of ix (hr_hash ?r)")
    case (Some e)
    then have "hx_insert ix ?r parent (sg_cum_work s) True = Some (e, ix)" by (simp add: hx_insert_def)
    then show thesis using that assms(1, 3) Some by (simp add: hx_contains_def hx_index_of_def)
  next
    case None
    obtain m where ins: "hx_insert ix ?r parent (sg_cum_work s) True = Some (of_nat (length ?N), ix \<lparr> hx_nodes := ?N @ [m],
        hx_by_hash := fmupd (hr_hash ?r) (of_nat (length ?N)) (hx_by_hash ix) \<rparr>)" (is "_ = Some (_, ?ix')")
      and m: "nd_hash m = hr_hash ?r" "nd_prev m = parent" "nd_height m = hr_height ?r" "nd_bits m = hr_bits ?r"
        "nd_cum_work m = sg_cum_work s" "nd_time m = hr_time ?r"
      using hx_insert_new [OF idx None p(1)] by metis
    have reach: "index_reach (hw_limit w) ?ix'"
      by (rule reach_insert [OF assms(3) p(1) ht cap wk(2, 3) wk' ins])
    have "node_is w rs m" using l(1) m by (simp add: node_is_def)
    then have "arena_ok w ?ix'"
      unfolding arena_ok_def
    proof (intro conjI allI impI index_reach_ok [OF reach])
      fix i assume "i < length (hx_nodes ?ix')"
      then consider "i < length ?N" | "i = length ?N" by fastforce
      then show "\<exists>rs. node_is w rs (hx_nodes ?ix' ! i) \<and>
        (0 < i \<longrightarrow> node_is w (butlast rs) (hx_nodes ?ix' ! parent_of (hx_nodes ?ix') i) \<and> hw_pow w (last rs))"
      proof cases
        case 1
        have "0 < i \<Longrightarrow> parent_of ?N i < length ?N"
          using tree_parent(1) [of ?N i] 1 idx by (simp add: index_ok_def)
        then show ?thesis using assms(1) 1 by (auto simp: arena_ok_def parent_of_append nth_append)
      next
        case 2
        then have "parent_of (?N @ [m]) i = unat parent" using m(2) by (simp add: parent_of_def)
        then show ?thesis using 2 \<open>node_is w rs m\<close> n p(1) assms(5) by (auto simp: nth_append)
      qed
    qed
    moreover have "arena_le ix ?ix'" by (auto simp: arena_le_def nth_append hx_contains_def)
    ultimately show thesis using that [OF ins] reach by (simp add: hx_contains_def)
  qed
qed

end
