(* ===== verification/Header_Promote.thy ===== *)
theory Header_Promote
  imports Header_Staging
begin

text \<open>
  The state of header ingest and its invariant, kept by promotion: staged headers end valid chains with
  their parents at hand, the hash sets agree with the lists, and the negative cache stays within its size.
\<close>

section \<open>The invariant of header ingest\<close>

abbreviation hashes_of :: "staged_header list \<Rightarrow> hash32 list" where
  "hashes_of L \<equiv> map (\<lambda>s. hr_hash (sg_rec s)) L"

definition neg_ok :: "nat \<Rightarrow> negative_cache \<Rightarrow> bool" where
  "neg_ok cap nc \<longleftrightarrow> nc_cap nc = cap \<and> 1 \<le> cap \<and> distinct (nc_ring nc) \<and> set (nc_ring nc) = nc_set nc \<and> length (nc_ring nc) \<le> cap"

definition source_ok :: "header_world \<Rightarrow> header_index \<Rightarrow> chain_params \<Rightarrow> source_state \<Rightarrow> bool" where
  "source_ok w ix params st \<longleftrightarrow> staged_ok w ix (ss_staged st) \<and> ss_staged_hashes st = set (hashes_of (ss_staged st)) \<and>
     distinct (hashes_of (ss_staged st)) \<and> length (ss_staged st) \<le> cp_max_staged_headers params"

definition ingest_ok :: "header_world \<Rightarrow> header_index \<Rightarrow> chain_params \<Rightarrow> ingest \<Rightarrow> bool" where
  "ingest_ok w ix params ing \<longleftrightarrow> neg_ok (max (cp_negative_cache_entries params) 1) (in_neg ing) \<and>
     in_source_count ing \<le> cp_max_sources params \<and>
     (\<forall>k st. fmlookup (in_sources ing) k = Some st \<longrightarrow> source_ok w ix params st)"

text \<open>Changes that leave the staged headers alone.\<close>

definition same_staged :: "ingest \<Rightarrow> ingest \<Rightarrow> bool" where
  "same_staged ing ing' \<longleftrightarrow> fmdom (in_sources ing') = fmdom (in_sources ing) \<and>
     (\<forall>k st'. fmlookup (in_sources ing') k = Some st' \<longrightarrow>
        (\<exists>st. fmlookup (in_sources ing) k = Some st \<and> ss_staged st' = ss_staged st \<and>
           ss_staged_hashes st' = ss_staged_hashes st \<and> ss_dups st' = ss_dups st)) \<and>
     (\<forall>cap. neg_ok cap (in_neg ing) \<longrightarrow> neg_ok cap (in_neg ing'))"

lemma same_staged_refl [simp]: "same_staged ing ing"
  by (simp add: same_staged_def)

lemma same_staged_trans:
  assumes "same_staged a b" "same_staged b c"
  shows "same_staged a c"
  unfolding same_staged_def
proof (intro conjI allI impI)
  fix k st' assume "fmlookup (in_sources c) k = Some st'"
  then obtain st where "fmlookup (in_sources b) k = Some st" "ss_staged st' = ss_staged st"
    "ss_staged_hashes st' = ss_staged_hashes st" "ss_dups st' = ss_dups st" using assms(2) unfolding same_staged_def by blast
  then show "\<exists>st. fmlookup (in_sources a) k = Some st \<and> ss_staged st' = ss_staged st \<and>
      ss_staged_hashes st' = ss_staged_hashes st \<and> ss_dups st' = ss_dups st"
    using assms(1) unfolding same_staged_def by metis
qed (use assms in \<open>auto simp: same_staged_def\<close>)

lemma same_staged_upd:
  assumes "fmlookup (in_sources ing) source = Some st" "ss_staged st' = ss_staged st"
    "ss_staged_hashes st' = ss_staged_hashes st" "ss_dups st' = ss_dups st"
    and "in_sources ing' = fmupd source st' (in_sources ing)" "in_neg ing' = in_neg ing"
  shows "same_staged ing ing'"
  using assms by (auto simp: same_staged_def fmdom_notI finsert_absorb intro: fmdomI)

lemma same_staged_ok:
  assumes "ingest_ok w ix params ing" "same_staged ing ing'"
  shows "ingest_ok w ix params ing'"
  unfolding ingest_ok_def
proof (intro conjI allI impI)
  fix k st' assume "fmlookup (in_sources ing') k = Some st'"
  then obtain st where "fmlookup (in_sources ing) k = Some st" "ss_staged st' = ss_staged st"
    "ss_staged_hashes st' = ss_staged_hashes st" using assms(2) unfolding same_staged_def by blast
  then show "source_ok w ix params st'" using assms(1) unfolding ingest_ok_def source_ok_def by metis
qed (use assms in \<open>auto simp: same_staged_def ingest_ok_def in_source_count_def\<close>)

lemma same_staged_staged:
  assumes "same_staged ing ing'"
  shows "in_staged ing' source = in_staged ing source"
    "fmlookup (in_sources ing') source = None \<longleftrightarrow> fmlookup (in_sources ing) source = None"
proof -
  show none: "fmlookup (in_sources ing') source = None \<longleftrightarrow> fmlookup (in_sources ing) source = None"
    using assms unfolding same_staged_def by (metis fmdom_notD fmdom_notI)
  show "in_staged ing' source = in_staged ing source"
  proof (cases "fmlookup (in_sources ing') source")
    case (Some st')
    then obtain st where "fmlookup (in_sources ing) source = Some st" "ss_staged st' = ss_staged st"
      using assms unfolding same_staged_def by blast
    then show ?thesis using Some by (simp add: in_staged_def)
  qed (use none in \<open>simp add: in_staged_def\<close>)
qed

lemma ingest_ok_mono:
  assumes "ingest_ok w ix params ing" "arena_ok w ix" "arena_le ix ix'"
  shows "ingest_ok w ix' params ing"
  using assms staged_ok_mono [OF assms(2, 3)] unfolding ingest_ok_def source_ok_def by blast

lemma neg_insert_ok:
  assumes "neg_ok cap nc"
  shows "neg_ok cap (nc_insert nc h p)"
proof (cases "p \<noteq> Permanent \<or> h \<in> nc_set nc")
  case True
  then show ?thesis using assms by (simp add: nc_insert_def)
next
  case False
  show ?thesis
  proof (cases "nc_cap nc \<le> length (nc_ring nc)")
    case full: True
    then obtain old ring where "nc_ring nc = old # ring" using assms by (cases "nc_ring nc") (auto simp: neg_ok_def)
    then show ?thesis using False assms by (auto simp: nc_insert_def neg_ok_def Let_def)
  next
    case nf: False
    then show ?thesis using False assms by (auto simp: nc_insert_def neg_ok_def Let_def)
  qed
qed

text \<open>A cached hash was put there with a permanent verdict; the cache never holds more than its cap.\<close>

lemma neg_ok_len: "neg_ok cap nc \<Longrightarrow> nc_len nc \<le> cap"
  unfolding neg_ok_def nc_len_def using distinct_card by metis

lemma same_staged_neg:
  "same_staged ing (ing \<lparr> in_neg := nc_insert (in_neg ing) h p \<rparr>)"
  by (simp add: same_staged_def neg_insert_ok)

lemma spend_same:
  assumes "spend_class_budget ing source cost = (b, ing')"
  shows "same_staged ing ing'"
proof (cases "fmlookup (in_sources ing) source")
  case None
  then show ?thesis using assms by (simp add: spend_class_budget_def)
next
  case (Some st)
  show ?thesis
  proof (cases "ss_tokens st < cost \<or> (in_shared_tokens ing < cost \<and> ss_reserve_tokens st < cost)")
    case True
    then show ?thesis using assms Some by (auto simp: spend_class_budget_def Let_def not_le split: if_splits)
  next
    case False
    then have "in_sources ing' = fmupd source (if cost \<le> in_shared_tokens ing then st \<lparr> ss_tokens := ss_tokens st - cost \<rparr>
        else st \<lparr> ss_reserve_tokens := ss_reserve_tokens st - cost, ss_tokens := ss_tokens st - cost \<rparr>) (in_sources ing)"
      "in_neg ing' = in_neg ing"
      using assms Some by (auto simp: spend_class_budget_def Let_def not_le split: if_splits)
    then show ?thesis using Some by (intro same_staged_upd [OF Some _ _ _ _]) auto
  qed
qed

section \<open>Promotion\<close>

text \<open>What promotion leaves alone in a submission.\<close>

definition su_frame :: "submission \<Rightarrow> submission \<Rightarrow> bool" where
  "su_frame su su' \<longleftrightarrow> su_memo su' = su_memo su \<and> su_batch_dups su' = su_batch_dups su \<and>
     su_staged_first su' = su_staged_first su \<and> acc_connected (su_out su') = acc_connected (su_out su) \<and>
     acc_duplicates (su_out su') = acc_duplicates (su_out su) \<and> acc_rejected (su_out su') = acc_rejected (su_out su) \<and>
     acc_staged (su_out su') = acc_staged (su_out su)"

lemma su_frame_refl [simp]: "su_frame su su"
  by (simp add: su_frame_def)

lemma su_frame_trans: "su_frame a b \<Longrightarrow> su_frame b c \<Longrightarrow> su_frame a c"
  by (simp add: su_frame_def)

lemma su_frame_ops [simp]:
  "su_frame su (su_observe c su)" "su_frame su (su_lost r su)" "su_frame su (su_held h su)"
  "su_frame su (su \<lparr> su_ing := i \<rparr>)" "su_frame su (su \<lparr> su_index := ix, su_connected_out := out \<rparr>)"
  by (simp_all add: su_frame_def su_observe_def su_lost_def su_held_def)

lemma su_ops [simp]:
  "su_ing (su_observe c su) = su_ing su" "su_ing (su_lost r su) = su_ing su" "su_ing (su_held h su) = su_ing su"
  "su_index (su_observe c su) = su_index su" "su_index (su_lost r su) = su_index su" "su_index (su_held h su) = su_index su"
  "su_memo (su_observe c su) = su_memo su" "su_memo (su_lost r su) = su_memo su" "su_memo (su_held h su) = su_memo su"
  "su_connected_out (su_observe c su) = su_connected_out su" "su_connected_out (su_lost r su) = su_connected_out su"
  "su_connected_out (su_held h su) = su_connected_out su"
  by (simp_all add: su_observe_def su_lost_def su_held_def)

text \<open>The arena part of a submission grows from one to the other; what was connected has a checked proof of work.\<close>

definition su_grown :: "header_world \<Rightarrow> submission \<Rightarrow> submission \<Rightarrow> bool" where
  "su_grown w su su' \<longleftrightarrow> arena_ok w (su_index su') \<and> index_reach (hw_limit w) (su_index su') \<and>
     arena_le (su_index su) (su_index su') \<and>
     (\<exists>new. su_connected_out su' = su_connected_out su @ new \<and>
        (\<forall>r \<in> set new. hw_pow w (hr_raw r) \<and> hx_contains (su_index su') (hr_hash r)))"

lemma su_grown_trans:
  assumes "su_grown w a b" "su_grown w b c"
  shows "su_grown w a c"
proof -
  obtain n where n: "su_connected_out b = su_connected_out a @ n" "\<forall>r \<in> set n. hw_pow w (hr_raw r) \<and> hx_contains (su_index b) (hr_hash r)"
    using assms(1) by (auto simp: su_grown_def)
  obtain m where m: "su_connected_out c = su_connected_out b @ m" "\<forall>r \<in> set m. hw_pow w (hr_raw r) \<and> hx_contains (su_index c) (hr_hash r)"
    using assms(2) by (auto simp: su_grown_def)
  have le: "arena_le (su_index b) (su_index c)" using assms(2) by (simp add: su_grown_def)
  have "su_connected_out c = su_connected_out a @ (n @ m)" using n m by simp
  moreover have "\<forall>r \<in> set (n @ m). hw_pow w (hr_raw r) \<and> hx_contains (su_index c) (hr_hash r)"
    using n m le by (auto simp: arena_le_def)
  ultimately show ?thesis
    using assms arena_le_trans unfolding su_grown_def by blast
qed

lemma su_grown_same:
  "arena_ok w (su_index su) \<Longrightarrow> index_reach (hw_limit w) (su_index su) \<Longrightarrow> su_index su' = su_index su \<Longrightarrow>
   su_connected_out su' = su_connected_out su \<Longrightarrow> su_grown w su su'"
  by (simp add: su_grown_def)

definition promoted ::
  "header_world \<Rightarrow> staged_header list \<Rightarrow> u64 \<Rightarrow> nat \<Rightarrow> submission \<Rightarrow> u64 \<times> nat \<times> bool \<times> submission \<Rightarrow> bool" where
  "promoted w ss connected consumed su r \<longleftrightarrow>
     (case r of (c, k, failed, su') \<Rightarrow>
        su_grown w su su' \<and> su_frame su su' \<and> same_staged (su_ing su) (su_ing su') \<and>
        consumed \<le> k \<and> k \<le> consumed + length ss \<and>
        (\<not> failed \<longrightarrow> staged_ok w (su_index su') (drop (k - consumed) ss)) \<and>
        length (hx_nodes (su_index su')) + unat connected \<le> length (hx_nodes (su_index su)) + unat c \<and>
        unat c + consumed \<le> unat connected + k)"

lemma promoted_stop:
  assumes "arena_ok w (su_index su)" "index_reach (hw_limit w) (su_index su)" "staged_ok w (su_index su) ss"
    and "su_index su' = su_index su" "su_connected_out su' = su_connected_out su" "su_frame su su'" "same_staged (su_ing su) (su_ing su')"
  shows "promoted w ss connected consumed su (connected, consumed, False, su')"
  using assms su_grown_same [OF assms(1, 2, 4, 5)] by (simp add: promoted_def)

lemma promoted_step:
  assumes "promoted w ss connected' (Suc consumed) su' r" "su_grown w su su'" "su_frame su su'" "same_staged (su_ing su) (su_ing su')"
    and "unat connected' = unat connected + 1" "length (hx_nodes (su_index su')) \<le> Suc (length (hx_nodes (su_index su)))"
  shows "promoted w (s # ss) connected consumed su r"
proof -
  obtain c k failed su2 where r: "r = (c, k, failed, su2)" by (metis prod_cases4)
  have p: "su_grown w su' su2" "su_frame su' su2" "same_staged (su_ing su') (su_ing su2)" "Suc consumed \<le> k"
    "k \<le> Suc consumed + length ss" "\<not> failed \<longrightarrow> staged_ok w (su_index su2) (drop (k - Suc consumed) ss)"
    "length (hx_nodes (su_index su2)) + unat connected' \<le> length (hx_nodes (su_index su')) + unat c"
    "unat c + Suc consumed \<le> unat connected' + k"
    using assms(1) by (simp_all add: promoted_def r)
  have "drop (k - consumed) (s # ss) = drop (k - Suc consumed) ss" using p(4) by (simp add: drop_Cons')
  then show ?thesis
    using p assms su_grown_trans [OF assms(2) p(1)] su_frame_trans [OF assms(3) p(2)] same_staged_trans [OF assms(4) p(3)]
    unfolding promoted_def r prod.case by (intro conjI) simp_all
qed

lemma promote_loop_ok:
  assumes "world_ok w" "ctx_ok w ctx" "arena_ok w (su_index su)" "index_reach (hw_limit w) (su_index su)"
    and "staged_ok w (su_index su) ss" "fmlookup (in_sources (su_ing su)) source \<noteq> None"
    and "length (hx_nodes (su_index su)) + length ss + 1 < 2 ^ 32" "unat connected + length ss < 2 ^ 64"
  shows "\<exists>r. promote_loop ctx source ss connected consumed su = Some r \<and> promoted w ss connected consumed su r"
  using assms(3-)
proof (induction ss arbitrary: connected consumed su)
  case Nil
  then show ?case using promoted_stop [OF Nil.prems(1-3)] by simp
next
  case (Cons s ss)
  obtain paid ing where pay: "(if charges_budget (ic_solicitation ctx) then spend_class_budget (su_ing su) source (ic_cost_micros ctx)
      else (True, su_ing su)) = (paid, ing)" by fastforce
  have same: "same_staged (su_ing su) ing" using pay spend_same by (auto split: if_splits)
  let ?su = "su \<lparr> su_ing := ing \<rparr>"
  have src: "fmlookup (in_sources ing) source \<noteq> None" using same_staged_staged(2) [OF same, of source] Cons.prems(4) by simp
  consider "ic_side_capacity ctx \<le> unat connected" | "\<not> ic_side_capacity ctx \<le> unat connected" "\<not> paid"
    | "\<not> ic_side_capacity ctx \<le> unat connected" paid "\<not> ic_pow_verify ctx (hr_raw (sg_rec s))"
    | "\<not> ic_side_capacity ctx \<le> unat connected" paid "ic_pow_verify ctx (hr_raw (sg_rec s))" by blast
  then show ?case
  proof cases
    case 1
    then show ?thesis using promoted_stop [OF Cons.prems(1-3)] by simp
  next
    case 2
    have "su_frame su (su_observe (CondBudgetExhausted source Interpreter) ?su)"
      by (rule su_frame_trans [of _ ?su]) simp_all
    then show ?thesis using 2 pay same by (auto intro!: promoted_stop [OF Cons.prems(1-3)])
  next
    case 3
    let ?rj = "\<lparr> rj_hash = hr_hash (sg_rec s), rj_height = hr_height (sg_rec s), rj_repair_from = hr_height (sg_rec s),
      rj_why = reject_why (PowInvalid (hr_hash (sg_rec s))) \<rparr>"
    let ?ing = "ing \<lparr> in_neg := nc_insert (in_neg ing) (hr_hash (sg_rec s)) Permanent \<rparr>"
    obtain st where st: "fmlookup (in_sources ing) source = Some st" using src by blast
    let ?ing' = "?ing \<lparr> in_sources := fmupd source (st \<lparr> ss_pow_failures := saturating_add (ss_pow_failures st) 1 \<rparr>) (in_sources ing) \<rparr>"
    let ?su' = "su_lost ?rj ?su \<lparr> su_ing := ?ing' \<rparr>"
    have loop: "promote_loop ctx source (s # ss) connected consumed su = Some (connected, Suc consumed, True, ?su')"
      using 3 pay st by (simp add: upd_source_def)
    have "same_staged ?ing ?ing'" by (rule same_staged_upd [of _ source st]) (use st in simp_all)
    then have "same_staged (su_ing su) ?ing'"
      using same same_staged_neg [of ing] same_staged_trans by blast
    moreover have "su_frame su ?su'" by (simp add: su_frame_def su_lost_def)
    moreover have "su_grown w su ?su'" by (rule su_grown_same) (use Cons.prems in simp_all)
    ultimately have "promoted w (s # ss) connected consumed su (connected, Suc consumed, True, ?su')"
      by (simp add: promoted_def)
    then show ?thesis using loop by blast
  next
    case 4
    obtain rs where rs: "staged_is w rs s" "hx_contains (su_index su) (hr_prev_hash (sg_rec s))"
      using Cons.prems(3) unfolding staged_ok_def by force
    then obtain parent where par: "hx_index_of (su_index su) (hr_prev_hash (sg_rec s)) = Some parent"
      by (auto simp: hx_contains_def hx_index_of_def)
    have pow: "hw_pow w (last rs)" using 4(3) assms(2) rs(1) by (simp add: ctx_ok_def staged_is_def)
    have "Suc (length (hx_nodes (su_index su))) < 2 ^ 32" using Cons.prems(5) by simp
    from arena_insert [OF Cons.prems(1) assms(1) Cons.prems(2) rs(1) pow par this]
    obtain i ix' where ins: "hx_insert (su_index su) (sg_rec s) parent (sg_cum_work s) True = Some (i, ix')" "arena_ok w ix'"
      "index_reach (hw_limit w) ix'" "arena_le (su_index su) ix'" "hx_contains ix' (hr_hash (sg_rec s))"
      "length (hx_nodes ix') \<le> Suc (length (hx_nodes (su_index su)))" .
    have add: "checked_add connected 1 = Some (connected + 1)" "unat (connected + 1) = unat connected + 1"
      using Cons.prems(6) by (simp_all add: checked_add_def unat_add_no_overflow)
    let ?su' = "?su \<lparr> su_index := ix', su_connected_out := su_connected_out su @ [sg_rec s] \<rparr>"
    have st: "staged_ok w ix' ss"
      using staged_ok_Cons staged_ok_mono [OF Cons.prems(1) ins(4) Cons.prems(3)] ins(5) by blast
    have "\<exists>r. promote_loop ctx source ss (connected + 1) (Suc consumed) ?su' = Some r \<and> promoted w ss (connected + 1) (Suc consumed) ?su' r"
      by (rule Cons.IH) (use ins st src Cons.prems(5, 6) add in simp_all)
    then obtain r where r: "promote_loop ctx source ss (connected + 1) (Suc consumed) ?su' = Some r"
      "promoted w ss (connected + 1) (Suc consumed) ?su' r" by blast
    have "hw_pow w (hr_raw (sg_rec s))" using pow rs(1) by (simp add: staged_is_def)
    then have "su_grown w su ?su'" using ins by (auto simp: su_grown_def)
    moreover have "su_frame su ?su'" by (simp add: su_frame_def)
    ultimately have "promoted w (s # ss) connected consumed su r"
      using promoted_step [OF r(2)] same add(2) ins(6) by simp
    moreover have "promote_loop ctx source (s # ss) connected consumed su = Some r"
      using 4 pay par ins(1) add(1) r(1) by simp
    ultimately show ?thesis by blast
  qed
qed

section \<open>The invariant of a submission\<close>

definition in_dups :: "ingest \<Rightarrow> source_id \<Rightarrow> nat" where
  "in_dups ing source = (case fmlookup (in_sources ing) source of None \<Rightarrow> 0 | Some s \<Rightarrow> unat (ss_dups s))"

definition su_ok :: "header_world \<Rightarrow> chain_params \<Rightarrow> source_id \<Rightarrow> submission \<Rightarrow> bool" where
  "su_ok w params source su \<longleftrightarrow> arena_ok w (su_index su) \<and> index_reach (hw_limit w) (su_index su) \<and>
     ingest_ok w (su_index su) params (su_ing su) \<and> cache_ok (hw_limit w) (su_memo su) \<and>
     fmlookup (in_sources (su_ing su)) source \<noteq> None"

lemma same_staged_dups:
  assumes "same_staged ing ing'"
  shows "in_dups ing' source = in_dups ing source"
proof (cases "fmlookup (in_sources ing') source")
  case None
  then show ?thesis using same_staged_staged(2) [OF assms, of source] by (simp add: in_dups_def)
next
  case (Some st')
  then obtain st where "fmlookup (in_sources ing) source = Some st" "ss_dups st' = ss_dups st"
    using assms unfolding same_staged_def by blast
  then show ?thesis using Some by (simp add: in_dups_def)
qed

lemma su_ok_same:
  assumes "su_ok w params source su" "su_grown w su su'" "su_frame su su'" "same_staged (su_ing su) (su_ing su')"
  shows "su_ok w params source su'"
proof -
  have "ingest_ok w (su_index su') params (su_ing su)"
    using assms(1, 2) ingest_ok_mono unfolding su_ok_def su_grown_def by blast
  then have "ingest_ok w (su_index su') params (su_ing su')" using same_staged_ok [OF _ assms(4)] by blast
  then show ?thesis
    using assms same_staged_staged(2) [OF assms(4), of source] by (simp add: su_ok_def su_grown_def su_frame_def)
qed

lemma ingest_ok_upd:
  assumes "ingest_ok w ix params ing" "fmlookup (in_sources ing) source \<noteq> None" "source_ok w ix params st"
  shows "ingest_ok w ix params (ing \<lparr> in_sources := fmupd source st (in_sources ing) \<rparr>)"
proof -
  obtain st0 where "fmlookup (in_sources ing) source = Some st0" using assms(2) by blast
  then have "source |\<in>| fmdom (in_sources ing)" by (rule fmdomI)
  then have "finsert source (fmdom (in_sources ing)) = fmdom (in_sources ing)" by (rule finsert_absorb)
  then show ?thesis using assms by (auto simp: ingest_ok_def in_source_count_def)
qed

lemma drain_source_ok:
  assumes "source_ok w ix params st" "staged_ok w ix (drop k (ss_staged st))"
  shows "source_ok w ix params (drain_staged k st)"
proof -
  let ?h = "hashes_of (ss_staged st)"
  have d: "distinct ?h" using assms(1) by (simp add: source_ok_def)
  have "set ?h = set (take k ?h) \<union> set (drop k ?h)" by (metis append_take_drop_id set_append)
  moreover have "set (take k ?h) \<inter> set (drop k ?h) = {}" using d by (simp add: set_take_disj_set_drop_if_distinct)
  ultimately have "set ?h - set (take k ?h) = set (drop k ?h)" by blast
  then show ?thesis
    using assms d by (auto simp: source_ok_def drain_staged_def take_map drop_map distinct_drop simp flip: drop_map)
qed

text \<open>Promotion returns; what it connects was staged.\<close>

definition promote_done :: "header_world \<Rightarrow> chain_params \<Rightarrow> source_id \<Rightarrow> submission \<Rightarrow> u64 \<Rightarrow> submission \<Rightarrow> bool" where
  "promote_done w params source su k su' \<longleftrightarrow> su_ok w params source su' \<and> su_grown w su su' \<and> su_frame su su' \<and>
     unat k + in_staged_count (su_ing su') source \<le> in_staged_count (su_ing su) source \<and>
     length (hx_nodes (su_index su')) \<le> length (hx_nodes (su_index su)) + unat k \<and>
     set (in_staged (su_ing su') source) \<subseteq> set (in_staged (su_ing su) source) \<and>
     in_dups (su_ing su') source = in_dups (su_ing su) source"

lemma promote_done_none:
  assumes "su_ok w params source su" "su_index su' = su_index su" "su_ing su' = su_ing su"
    "su_connected_out su' = su_connected_out su" "su_frame su su'"
  shows "promote_done w params source su 0 su'"
  using assms su_grown_same [of w su su'] by (auto simp: promote_done_def su_ok_def su_frame_def)

lemma promote_run_ok:
  assumes "world_ok w" "ctx_ok w ctx" "su_ok w params source su"
    and "length (hx_nodes (su_index su)) + in_staged_count (su_ing su) source + 1 < 2 ^ 32"
  shows "\<exists>k su'. promote_run ctx source (in_staged (su_ing su) source) su = Some (k, su') \<and> promote_done w params source su k su'"
proof -
  let ?L = "in_staged (su_ing su) source"
  obtain st0 where st0: "fmlookup (in_sources (su_ing su)) source = Some st0" using assms(3) by (auto simp: su_ok_def)
  have L: "?L = ss_staged st0" using st0 by (simp add: in_staged_def)
  have so: "staged_ok w (su_index su) ?L"
    using assms(3) st0 unfolding L su_ok_def ingest_ok_def source_ok_def by blast
  have sz: "length (hx_nodes (su_index su)) + length ?L + 1 < 2 ^ 32" using assms(4) by (simp add: in_staged_count_def)
  then have sz': "unat (0 :: u64) + length ?L < 2 ^ 64" by simp
  have pre: "arena_ok w (su_index su)" "index_reach (hw_limit w) (su_index su)" "fmlookup (in_sources (su_ing su)) source \<noteq> None"
    using assms(3) by (simp_all add: su_ok_def)
  obtain c k failed su' where loop: "promote_loop ctx source ?L 0 0 su = Some (c, k, failed, su')"
    and p: "promoted w ?L 0 0 su (c, k, failed, su')"
    using promote_loop_ok [OF assms(1, 2) pre(1, 2) so pre(3) sz sz', of 0] by (metis prod_cases4)
  have g: "su_grown w su su'" "su_frame su su'" "same_staged (su_ing su) (su_ing su')" "k \<le> length ?L"
    "\<not> failed \<longrightarrow> staged_ok w (su_index su') (drop k ?L)"
    "length (hx_nodes (su_index su')) \<le> length (hx_nodes (su_index su)) + unat c" "unat c \<le> k"
    using p by (simp_all add: promoted_def)
  have ok': "su_ok w params source su'" by (rule su_ok_same [OF assms(3) g(1-3)])
  then obtain st where st: "fmlookup (in_sources (su_ing su')) source = Some st" by (auto simp: su_ok_def)
  then have L': "ss_staged st = ?L" using same_staged_staged(1) [OF g(3), of source] by (simp add: in_staged_def)
  let ?n = "if failed then length (ss_staged st) else min k (length (ss_staged st))"
  have "staged_ok w (su_index su') (drop ?n (ss_staged st))" using g(4, 5) L' by (simp add: staged_ok_def min_def)
  moreover have "source_ok w (su_index su') params st" using ok' st unfolding su_ok_def ingest_ok_def by blast
  ultimately have "source_ok w (su_index su') params (drain_staged ?n st)" by (rule drain_source_ok [rotated])
  then have ing: "ingest_ok w (su_index su') params (su_ing su' \<lparr> in_sources := fmupd source (drain_staged ?n st) (in_sources (su_ing su')) \<rparr>)"
    using ingest_ok_upd ok' unfolding su_ok_def by blast
  let ?su = "su' \<lparr> su_ing := su_ing su' \<lparr> in_sources := fmupd source (drain_staged ?n st) (in_sources (su_ing su')) \<rparr> \<rparr>"
  have run: "promote_run ctx source ?L su = Some (c, ?su)"
    using loop st by (simp add: promote_run_def upd_source_def)
  have "su_ok w params source ?su" using ok' ing by (simp add: su_ok_def)
  moreover have left: "in_staged (su_ing ?su) source = drop ?n ?L"
    unfolding L' [symmetric] by (simp add: in_staged_def drain_staged_def)
  then have "set (in_staged (su_ing ?su) source) \<subseteq> set ?L" by (simp add: set_drop_subset)
  moreover have "in_staged_count (su_ing ?su) source + unat c \<le> in_staged_count (su_ing su) source"
  proof -
    have "in_staged_count (su_ing ?su) source = length ?L - ?n" using left by (simp add: in_staged_count_def)
    moreover have "k \<le> ?n" using g(4) L' by simp
    ultimately show ?thesis using g(4, 7) L' unfolding in_staged_count_def [of "su_ing su"] by linarith
  qed
  moreover have "in_dups (su_ing ?su) source = in_dups (su_ing su) source"
    using same_staged_dups [OF g(3), of source] st by (simp add: in_dups_def drain_staged_def)
  moreover have "su_grown w su ?su" "su_frame su ?su" using g(1, 2) by (simp_all add: su_grown_def su_frame_def)
  ultimately have "promote_done w params source su c ?su" using g(6) by (simp add: promote_done_def)
  then show ?thesis using run by blast
qed

lemma promote_ok:
  assumes "world_ok w" "ctx_ok w ctx" "su_ok w params source su"
    and "length (hx_nodes (su_index su)) + in_staged_count (su_ing su) source + 1 < 2 ^ 32"
  shows "\<exists>k su'. promote ctx source su = Some (k, su') \<and> promote_done w params source su k su'"
proof -
  obtain st where st: "fmlookup (in_sources (su_ing su)) source = Some st" using assms(3) by (auto simp: su_ok_def)
  show ?thesis
  proof (cases "ss_staged st")
    case Nil
    then show ?thesis using st promote_done_none [OF assms(3)] by (simp add: promote_def)
  next
    case (Cons s ss)
    then have L: "in_staged (su_ing su) source = s # ss" using st by (simp add: in_staged_def)
    have "promote ctx source su = Some (0, su_held h su) \<or> promote ctx source su = Some (0, su_observe c su) \<or>
      promote ctx source su = promote_run ctx source (in_staged (su_ing su) source) su"
      if "h = \<lparr> hd_hash = hr_hash (sg_rec (lowest_of s ss)), hd_height = hr_height (sg_rec (lowest_of s ss)) \<rparr>"
        "c = CondBudgetExhausted source ChildQuota" for h c
      unfolding promote_def st Cons L that option.case list.case Let_def by (simp only: split: if_split) blast
    then have "\<exists>h c. promote ctx source su = Some (0, su_held h su) \<or> promote ctx source su = Some (0, su_observe c su) \<or>
      promote ctx source su = promote_run ctx source (in_staged (su_ing su) source) su" by blast
    then show ?thesis
      using promote_run_ok [OF assms] promote_done_none [OF assms(3)] by (metis su_frame_ops(1,3) su_ops(1,3,4,6,10,12))
  qed
qed

end
