(* ===== verification/Header_Submit.thy ===== *)
theory Header_Submit
  imports Header_Promote
begin

text \<open>
  A batch of headers through ingest, and every sequence of batches mixed with the other changes of the
  arena: the properties of header ingest.
\<close>

section \<open>Staging keeps the invariant\<close>

lemma staged_new:
  assumes "lite_is w ix L rs parent" "header_chain w (rs @ [raw])" "hdr_of raw = h" "world_ok w"
    and "hdr_prev_hash h = header_hash (last rs)" "bits_work (hdr_bits h) (hw_limit w) = Some bw"
    and "work_checked_add (lt_cum_work parent) bw = Some cum"
  shows "staged_is w (rs @ [raw])
    \<lparr> sg_rec = \<lparr> hr_height = hdr_height h, hr_hash = header_hash raw, hr_prev_hash = hdr_prev_hash h,
        hr_time = hdr_time h, hr_bits = hdr_bits h, hr_raw = raw \<rparr>, sg_cum_work = cum, sg_branch_base_height = base \<rparr>"
proof -
  have ne: "rs \<noteq> []" using lite_chain [OF assms(1)] by auto
  then obtain x xs where x: "rev rs = x # xs" by (cases "rev rs") auto
  have "cum_rev (hw_limit w) (rev rs) = Some (lt_cum_work parent)"
    using assms(1) by (simp add: lite_is_def lite_label_def label_def)
  then have "cum_rev (hw_limit w) (rev (rs @ [raw])) = Some cum" using assms(3, 6, 7) x by simp
  then show ?thesis
    using assms(2, 3, 5) ne header_chain_height [OF assms(2, 4)] by (simp add: staged_is_def label_def Suc_le_eq)
qed

lemma stage_push_ok:
  assumes "ingest_ok w ix params ing" "fmlookup (in_sources ing) source = Some st" "staged_ok w ix (ss_staged st @ [sg])"
    and "hr_hash (sg_rec sg) \<notin> ss_staged_hashes st"
  shows "\<exists>r ing'. stage_push ing source params sg = (r, ing') \<and> ingest_ok w ix params ing' \<and> in_neg ing' = in_neg ing \<and>
    fmlookup (in_sources ing') source \<noteq> None \<and> in_dups ing' source = in_dups ing source \<and>
    in_staged_count ing' source \<le> Suc (in_staged_count ing source)"
proof (cases "cp_max_staged_headers params \<le> length (ss_staged st)")
  case True
  have st: "source_ok w ix params st" using assms(1, 2) unfolding ingest_ok_def by blast
  let ?ing = "ing \<lparr> in_sources := fmupd source st (in_sources ing) \<rparr>"
  have "ingest_ok w ix params ?ing" using ingest_ok_upd [OF assms(1) _ st, of source] assms(2) by simp
  then show ?thesis
    using True assms(2) by (simp add: stage_push_def in_dups_def in_staged_count_def in_staged_def)
next
  case False
  let ?st = "st \<lparr> ss_staged := ss_staged st @ [sg], ss_staged_hashes := insert (hr_hash (sg_rec sg)) (ss_staged_hashes st) \<rparr>"
  have st: "source_ok w ix params st" using assms(1, 2) unfolding ingest_ok_def by blast
  then have "source_ok w ix params ?st" using assms(3, 4) False by (auto simp: source_ok_def)
  then have "ingest_ok w ix params (ing \<lparr> in_sources := fmupd source ?st (in_sources ing) \<rparr>)"
    using ingest_ok_upd [OF assms(1)] assms(2) by simp
  then show ?thesis
    using False assms(2) by (simp add: stage_push_def in_dups_def in_staged_count_def in_staged_def)
qed

definition stage_done :: "header_world \<Rightarrow> header_index \<Rightarrow> chain_params \<Rightarrow> source_id \<Rightarrow> ingest \<Rightarrow> ingest \<Rightarrow> work_cache \<Rightarrow> bool" where
  "stage_done w ix params source ing ing' memo' \<longleftrightarrow> ingest_ok w ix params ing' \<and> cache_ok (hw_limit w) memo' \<and>
     fmlookup (in_sources ing') source \<noteq> None \<and> in_dups ing' source = in_dups ing source \<and>
     in_staged_count ing' source \<le> Suc (in_staged_count ing source)"

lemma stage_one_ok:
  assumes w: "world_ok w" "ctx_ok w ctx" "ic_params ctx = params"
    and ok: "arena_ok w ix" "ingest_ok w ix params ing" "cache_ok (hw_limit w) memo" "fmlookup (in_sources ing) source = Some st"
    and raw: "raw \<in> hw_raws w" "raw \<noteq> hw_genesis w" "header_hash raw \<notin> ss_staged_hashes st"
  shows "\<exists>r ing' memo'. stage_one ing ix memo ctx source raw (header_hash raw) = Some (r, ing', memo') \<and>
    stage_done w ix params source ing ing' memo'"
proof -
  let ?L = "ss_staged st"
  have L: "in_staged ing source = ?L" using ok(4) by (simp add: in_staged_def)
  have so: "staged_ok w ix ?L" using ok(2, 4) unfolding ingest_ok_def source_ok_def by blast
  have lim: "cp_pow_limit (ic_params ctx) = hw_limit w" using w(2) by (simp add: ctx_ok_def)
  have keep: "stage_done w ix params source ing ing memo'" if "cache_ok (hw_limit w) memo'" for memo'
    using ok that by (simp add: stage_done_def)
  obtain g where g: "stage_gates ix ?L ctx raw (header_hash raw) = Some g" using stage_gates_total [OF ok(1) w(1) so] by fast
  show ?thesis
  proof (cases g)
    case (Inl e)
    then show ?thesis using g L keep [OF ok(3)] by (simp add: stage_one_def)
  next
    case (Inr x)
    obtain h parent base where x: "x = (h, parent, base)" by (cases x)
    obtain rs where p: "lite_is w ix ?L rs parent" "reached ix ?L (hdr_prev_hash h)" "header_chain w (rs @ [raw])" "hdr_of raw = h"
      "hdr_prev_hash h = header_hash (last rs)" "hw_asert w \<longrightarrow> base_sound w ix (rs @ [raw]) base"
      using stage_gates_ok [OF ok(1) w(1) so w(2) raw(1, 2)] g unfolding Inr x by blast
    obtain memo' where memo: "work_cache_work memo (hdr_bits h) (hw_limit w) = Some (bits_work (hdr_bits h) (hw_limit w), memo')"
      "cache_ok (hw_limit w) memo'" using work_cache_work_ok [OF ok(3)] by blast
    show ?thesis
    proof (cases "Option.bind (bits_work (hdr_bits h) (hw_limit w)) (work_checked_add (lt_cum_work parent))")
      case None
      then show ?thesis using g L memo keep [OF memo(2)] lim Inr x
        by (auto simp: stage_one_def split: option.splits)
    next
      case (Some cum)
      then obtain bw where bw: "bits_work (hdr_bits h) (hw_limit w) = Some bw" "work_checked_add (lt_cum_work parent) bw = Some cum"
        by (auto simp: bind_eq_Some_conv)
      define sg where "sg = \<lparr> sg_rec = \<lparr> hr_height = hdr_height h, hr_hash = header_hash raw, hr_prev_hash = hdr_prev_hash h,
        hr_time = hdr_time h, hr_bits = hdr_bits h, hr_raw = raw \<rparr>, sg_cum_work = cum, sg_branch_base_height = base \<rparr>"
      have "staged_is w (rs @ [raw]) sg" unfolding sg_def by (rule staged_new [OF p(1, 3, 4) w(1) p(5) bw])
      then have "staged_ok w ix (?L @ [sg])" using staged_ok_snoc [OF so] p(2, 6) by (simp add: sg_def)
      then obtain r ing' where push: "stage_push ing source params sg = (r, ing')" "ingest_ok w ix params ing'"
        "fmlookup (in_sources ing') source \<noteq> None" "in_dups ing' source = in_dups ing source"
        "in_staged_count ing' source \<le> Suc (in_staged_count ing source)"
        using stage_push_ok [OF ok(2, 4)] raw(3) by (fastforce simp: sg_def)
      have "stage_one ing ix memo ctx source raw (header_hash raw) = Some (r, ing', memo')"
        using g L memo(1) lim Inr x bw push(1) w(3) by (simp add: stage_one_def sg_def)
      then show ?thesis using push memo(2) by (simp add: stage_done_def)
    qed
  qed
qed

section \<open>A batch\<close>

text \<open>The counters do not overflow while \<open>m\<close> headers of the batch are left.\<close>

definition room :: "nat \<Rightarrow> nat \<Rightarrow> source_id \<Rightarrow> submission \<Rightarrow> bool" where
  "room B m source su \<longleftrightarrow> B + 1 < 2 ^ 32 \<and>
     length (hx_nodes (su_index su)) + in_staged_count (su_ing su) source + m \<le> B \<and>
     unat (acc_connected (su_out su)) + in_staged_count (su_ing su) source + m \<le> B \<and>
     in_dups (su_ing su) source + m < 2 ^ 32 \<and> unat (acc_duplicates (su_out su)) + m < 2 ^ 32 \<and>
     unat (su_batch_dups su) + m < 2 ^ 32 \<and> unat (acc_rejected (su_out su)) + m < 2 ^ 32 \<and>
     unat (acc_staged (su_out su)) + m < 2 ^ 32"

lemma room_mono: "room B m source su \<Longrightarrow> m' \<le> m \<Longrightarrow> room B m' source su"
  by (simp add: room_def)

lemma checked_Suc:
  "unat (a :: u32) + Suc m < 2 ^ 32 \<Longrightarrow> checked_add a 1 = Some (a + 1) \<and> unat (a + 1) + m < 2 ^ 32"
  by (simp add: checked_add_def unat_add_no_overflow)

lemma promote_connected_ok:
  assumes "world_ok w" "ctx_ok w ctx" "su_ok w params source su" "room B m source su"
  shows "\<exists>su'. Option.bind (promote ctx source su) add_connected = Some su' \<and> su_ok w params source su' \<and>
    su_grown w su su' \<and> room B m source su' \<and> set (in_staged (su_ing su') source) \<subseteq> set (in_staged (su_ing su) source)"
proof -
  have "length (hx_nodes (su_index su)) + in_staged_count (su_ing su) source + 1 < 2 ^ 32" using assms(4) by (simp add: room_def)
  then obtain k su1 where p: "promote ctx source su = Some (k, su1)" "promote_done w params source su k su1"
    using promote_ok [OF assms(1-3)] by blast
  let ?c = "acc_connected (su_out su1) + k"
  have d: "su_ok w params source su1" "su_grown w su su1" "su_frame su su1"
    "unat k + in_staged_count (su_ing su1) source \<le> in_staged_count (su_ing su) source"
    "length (hx_nodes (su_index su1)) \<le> length (hx_nodes (su_index su)) + unat k"
    "set (in_staged (su_ing su1) source) \<subseteq> set (in_staged (su_ing su) source)"
    "in_dups (su_ing su1) source = in_dups (su_ing su) source" using p(2) by (simp_all add: promote_done_def)
  have r: "B + 1 < 2 ^ 32" "length (hx_nodes (su_index su)) + in_staged_count (su_ing su) source + m \<le> B"
    "unat (acc_connected (su_out su)) + in_staged_count (su_ing su) source + m \<le> B" using assms(4) by (simp_all add: room_def)
  have "unat (acc_connected (su_out su1)) + unat k < 2 ^ 64" using d(3, 4) r by (simp add: su_frame_def)
  then have add: "checked_add (acc_connected (su_out su1)) k = Some ?c" "unat ?c = unat (acc_connected (su_out su)) + unat k"
    using d(3) by (simp_all add: checked_add_def unat_add_no_overflow su_frame_def)
  let ?su = "su1 \<lparr> su_out := (su_out su1) \<lparr> acc_connected := ?c \<rparr> \<rparr>"
  have "room B m source ?su" using assms(4) d r add(2) by (simp add: room_def su_frame_def)
  moreover have "su_ok w params source ?su" using d(1) by (simp add: su_ok_def)
  moreover have "su_grown w su ?su" using d(2) by (simp add: su_grown_def)
  ultimately show ?thesis using p(1) add(1) d(6) by (simp add: add_connected_def)
qed

lemma held_duplicate_fields [simp]:
  "su_ing (held_duplicate source h su) = su_ing su" "su_index (held_duplicate source h su) = su_index su"
  "su_memo (held_duplicate source h su) = su_memo su" "su_connected_out (held_duplicate source h su) = su_connected_out su"
  "su_frame su (held_duplicate source h su)"
  by (simp_all add: held_duplicate_def split: option.splits)

lemma submit_duplicate_ok:
  assumes "su_ok w params source su" "room B (Suc m) source su"
  shows "\<exists>go su'. submit_duplicate ctx source h here su = Some (go, su') \<and> su_ok w params source su' \<and>
    su_grown w su su' \<and> room B m source su'"
proof -
  define su1 where "su1 = (if here then held_duplicate source h su else su)"
  have s1: "su_ing su1 = su_ing su" "su_index su1 = su_index su" "su_memo su1 = su_memo su"
    "su_connected_out su1 = su_connected_out su" "su_frame su su1" by (simp_all add: su1_def)
  obtain st where st: "fmlookup (in_sources (su_ing su)) source = Some st" using assms(1) by (auto simp: su_ok_def)
  let ?st = "st \<lparr> ss_dups := ss_dups st + 1 \<rparr>"
  have r: "unat (ss_dups st) + Suc m < 2 ^ 32" "unat (acc_duplicates (su_out su1)) + Suc m < 2 ^ 32" "unat (su_batch_dups su1) + Suc m < 2 ^ 32"
    using assms(2) st s1 by (simp_all add: room_def in_dups_def su_frame_def)
  note inc = r [THEN checked_Suc]
  let ?ing = "(su_ing su) \<lparr> in_sources := fmupd source ?st (in_sources (su_ing su)) \<rparr>"
  define su2 where "su2 = su1 \<lparr> su_ing := ?ing, su_out := (su_out su1) \<lparr> acc_duplicates := acc_duplicates (su_out su1) + 1 \<rparr>,
    su_batch_dups := su_batch_dups su1 + 1 \<rparr>"
  have "source_ok w (su_index su) params ?st" using assms(1) st unfolding su_ok_def ingest_ok_def source_ok_def by fastforce
  then have ing: "ingest_ok w (su_index su) params ?ing" using ingest_ok_upd assms(1) unfolding su_ok_def by blast
  have fields: "su_ok w params source su3 \<and> su_grown w su su3 \<and> room B m source su3"
    if "su_ing su3 = ?ing" "su_index su3 = su_index su" "su_memo su3 = su_memo su" "su_connected_out su3 = su_connected_out su"
      "su_batch_dups su3 = su_batch_dups su2" "su_out su3 = su_out su2" for su3
  proof -
    have "su_ok w params source su3" using assms(1) ing that by (simp add: su_ok_def)
    moreover have "su_grown w su su3" by (rule su_grown_same) (use assms(1) that in \<open>simp_all add: su_ok_def\<close>)
    moreover have "in_staged_count ?ing source = in_staged_count (su_ing su) source" "in_dups ?ing source + m < 2 ^ 32"
      using st inc(1) by (simp_all add: in_staged_count_def in_staged_def in_dups_def)
    then have "room B m source su3" using assms(2) that s1 inc by (simp add: room_def su2_def su_frame_def)
    ultimately show ?thesis by blast
  qed
  have "\<exists>go su3. submit_duplicate ctx source h here su = Some (go, su3) \<and> su_ing su3 = ?ing \<and> su_index su3 = su_index su \<and>
    su_memo su3 = su_memo su \<and> su_connected_out su3 = su_connected_out su \<and> su_batch_dups su3 = su_batch_dups su2 \<and> su_out su3 = su_out su2"
    using st s1 inc by (simp add: submit_duplicate_def upd_source_def Let_def su2_def su_observe_def flip: su1_def)
      (auto intro: exI [of _ False] exI [of _ True])
  then show ?thesis using fields by blast
qed

lemma submit_rejected_ok:
  assumes "su_ok w params source su" "unat (acc_rejected (su_out su)) + Suc m < 2 ^ 32"
  shows "\<exists>su'. submit_rejected raw h rej su = Some su' \<and> su_ok w params source su' \<and> su_grown w su su' \<and>
    (room B m source su \<longrightarrow> room B m source su')"
proof -
  note inc = checked_Suc [OF assms(2)]
  define ing where "ing = (su_ing su) \<lparr> in_neg := nc_insert (in_neg (su_ing su)) h (reject_permanence rej) \<rparr>"
  have same: "same_staged (su_ing su) ing" unfolding ing_def by (rule same_staged_neg)
  obtain su' where su': "submit_rejected raw h rej su = Some su'" "su_ing su' = ing" "su_index su' = su_index su" "su_memo su' = su_memo su"
    "su_connected_out su' = su_connected_out su" "acc_rejected (su_out su') = acc_rejected (su_out su) + 1"
    "su_batch_dups su' = su_batch_dups su" "acc_connected (su_out su') = acc_connected (su_out su)"
    "acc_duplicates (su_out su') = acc_duplicates (su_out su)" "acc_staged (su_out su') = acc_staged (su_out su)"
    using inc by (simp add: submit_rejected_def Let_def su_lost_def ing_def)
  have "su_ok w params source su'"
    using assms(1) same_staged_ok [OF _ same] same_staged_staged(2) [OF same, of source] su' by (simp add: su_ok_def)
  moreover have "su_grown w su su'" by (rule su_grown_same) (use assms(1) su' in \<open>simp_all add: su_ok_def\<close>)
  moreover have "room B m source su \<longrightarrow> room B m source su'"
    using inc su' same_staged_staged(1) [OF same, of source] same_staged_dups [OF same, of source]
    by (simp add: room_def in_staged_count_def)
  ultimately show ?thesis using su'(1) by blast
qed

lemma submit_fresh_ok:
  assumes w: "world_ok w" "ctx_ok w ctx" "ic_params ctx = params" and su: "su_ok w params source su" "room B (Suc m) source su"
    and raw: "raw \<in> hw_raws w" "raw \<noteq> hw_genesis w" "\<not> staged_here (su_ing su) source (header_hash raw)"
  shows "\<exists>su'. submit_fresh ctx source raw (header_hash raw) su = Some su' \<and> su_ok w params source su' \<and>
    su_grown w su su' \<and> room B m source su'"
proof -
  have "\<exists>su1. (if cp_max_staged_headers params \<le> in_staged_count (su_ing su) source
      then Option.bind (promote ctx source su) add_connected else Some su) = Some su1 \<and> su_ok w params source su1 \<and>
      su_grown w su su1 \<and> room B (Suc m) source su1 \<and> set (in_staged (su_ing su1) source) \<subseteq> set (in_staged (su_ing su) source)"
    using promote_connected_ok [OF w(1, 2) su] su su_grown_same [of w su su] by (auto simp: su_ok_def)
  then obtain su1 where pre: "(if cp_max_staged_headers params \<le> in_staged_count (su_ing su) source
      then Option.bind (promote ctx source su) add_connected else Some su) = Some su1"
    and s1: "su_ok w params source su1" "su_grown w su su1" "room B (Suc m) source su1"
      "set (in_staged (su_ing su1) source) \<subseteq> set (in_staged (su_ing su) source)" by blast
  obtain st0 where st0: "fmlookup (in_sources (su_ing su)) source = Some st0" using su(1) by (auto simp: su_ok_def)
  obtain st where st: "fmlookup (in_sources (su_ing su1)) source = Some st" using s1(1) by (auto simp: su_ok_def)
  have hs: "ss_staged_hashes st = set (hashes_of (ss_staged st))" "ss_staged_hashes st0 = set (hashes_of (ss_staged st0))"
    using s1(1) su(1) st st0 unfolding su_ok_def ingest_ok_def source_ok_def by blast+
  have fresh: "header_hash raw \<notin> ss_staged_hashes st"
    using raw(3) st st0 s1(4) hs by (auto simp: staged_here_def in_staged_def)
  obtain r ing memo where one: "stage_one (su_ing su1) (su_index su1) (su_memo su1) ctx source raw (header_hash raw) = Some (r, ing, memo)"
    and d: "stage_done w (su_index su1) params source (su_ing su1) ing memo"
    using stage_one_ok [OF w, of "su_index su1" "su_ing su1" "su_memo su1" source st] s1(1) st raw(1, 2) fresh
    unfolding su_ok_def by blast
  define su2 where "su2 = su1 \<lparr> su_ing := ing, su_memo := memo \<rparr>"
  have s2: "su_ok w params source su2" "su_grown w su su2" "room B m source su2"
    using s1 d by (simp_all add: su2_def su_ok_def su_grown_def stage_done_def room_def)
  have cnt: "unat (acc_staged (su_out su2)) + Suc m < 2 ^ 32" "unat (acc_rejected (su_out su2)) + Suc m < 2 ^ 32"
    using s1(3) by (simp_all add: su2_def room_def)
  show ?thesis
  proof (cases r)
    case (Inl rej)
    obtain su3 where "submit_rejected raw (header_hash raw) rej su2 = Some su3" "su_ok w params source su3" "su_grown w su2 su3"
      "room B m source su3" using submit_rejected_ok [OF s2(1) cnt(2)] s2(3) by blast
    moreover have "submit_fresh ctx source raw (header_hash raw) su = submit_rejected raw (header_hash raw) rej su2"
      using pre one Inl w(3) by (simp add: submit_fresh_def su2_def)
    ultimately show ?thesis using su_grown_trans [OF s2(2)] by auto
  next
    case (Inr u)
    note inc = checked_Suc [OF cnt(1)]
    have "\<exists>su3. submit_fresh ctx source raw (header_hash raw) su = Some su3 \<and> su_ing su3 = su_ing su2 \<and> su_index su3 = su_index su2 \<and>
      su_memo su3 = su_memo su2 \<and> su_connected_out su3 = su_connected_out su2 \<and> su_batch_dups su3 = su_batch_dups su2 \<and>
      su_out su3 = (su_out su2) \<lparr> acc_staged := acc_staged (su_out su2) + 1 \<rparr>"
      using pre one Inr w(3) inc unfolding su2_def by (simp add: submit_fresh_def Let_def)
    then obtain su3 where f: "submit_fresh ctx source raw (header_hash raw) su = Some su3" and
      f3: "su_ing su3 = su_ing su2" "su_index su3 = su_index su2" "su_memo su3 = su_memo su2" "su_connected_out su3 = su_connected_out su2"
      "su_batch_dups su3 = su_batch_dups su2" "su_out su3 = (su_out su2) \<lparr> acc_staged := acc_staged (su_out su2) + 1 \<rparr>" by blast
    have "su_ok w params source su3" "su_grown w su su3" "room B m source su3"
      using s2 f3 inc by (simp_all add: su_ok_def su_grown_def room_def)
    then show ?thesis using f by blast
  qed
qed

lemma submit_loop_ok:
  assumes w: "world_ok w" "ctx_ok w ctx" "ic_params ctx = params"
    and "su_ok w params source su" "room B (length raws) source su" "set raws \<subseteq> hw_raws w"
  shows "\<exists>su'. submit_loop ctx source raws su = Some su' \<and> su_ok w params source su' \<and> su_grown w su su' \<and> room B 0 source su'"
  using assms(4-)
proof (induction raws arbitrary: su)
  case Nil
  then show ?case using su_grown_same [of w su su] by (simp add: su_ok_def)
next
  case (Cons raw raws)
  let ?h = "header_hash raw"
  let ?here = "staged_here (su_ing su) source ?h"
  let ?dup = "?here \<or> hx_contains (su_index su) ?h \<or> nc_contains (in_neg (su_ing su)) ?h \<or> st_is_invalid (ic_store ctx) ?h"
  have room: "room B (Suc (length raws)) source su" using Cons.prems(2) by simp
  show ?case
  proof (cases ?dup)
    case True
    obtain go su1 where d: "submit_duplicate ctx source ?h ?here su = Some (go, su1)" "su_ok w params source su1" "su_grown w su su1"
      "room B (length raws) source su1" using submit_duplicate_ok [OF Cons.prems(1) room] by blast
    show ?thesis
    proof (cases go)
      case go: True
      obtain su2 where "submit_loop ctx source raws su1 = Some su2" "su_ok w params source su2" "su_grown w su1 su2" "room B 0 source su2"
        using Cons.IH [OF d(2, 4)] Cons.prems(3) by auto
      moreover have "submit_loop ctx source (raw # raws) su = submit_loop ctx source raws su1" using True d(1) go by (simp add: Let_def)
      ultimately show ?thesis using su_grown_trans [OF d(3)] by auto
    next
      case stop: False
      then have "submit_loop ctx source (raw # raws) su = Some su1" using True d(1) by (simp add: Let_def)
      then show ?thesis using d room_mono [OF d(4)] by auto
    qed
  next
    case False
    then have "raw \<noteq> hw_genesis w" using genesis_contained [of w "su_index su"] w(1) Cons.prems(1) by (auto simp: su_ok_def)
    moreover have "raw \<in> hw_raws w" using Cons.prems(3) by simp
    ultimately obtain su1 where f: "submit_fresh ctx source raw ?h su = Some su1" "su_ok w params source su1" "su_grown w su su1"
      "room B (length raws) source su1" using submit_fresh_ok [OF w Cons.prems(1) room] False by blast
    obtain su2 where "submit_loop ctx source raws su1 = Some su2" "su_ok w params source su2" "su_grown w su1 su2" "room B 0 source su2"
      using Cons.IH [OF f(2, 4)] Cons.prems(3) by auto
    moreover have "submit_loop ctx source (raw # raws) su = submit_loop ctx source raws su1" using False f(1) by (simp add: Let_def)
    ultimately show ?thesis using su_grown_trans [OF f(3)] by auto
  qed
qed

section \<open>Opening a batch\<close>

lemma ss_refill_fields [simp]:
  "ss_staged (ss_refill params cost ms s) = ss_staged s" "ss_staged_hashes (ss_refill params cost ms s) = ss_staged_hashes s"
  "ss_dups (ss_refill params cost ms s) = ss_dups s"
  by (simp_all add: ss_refill_def refill_tokens_def refill_reserve_tokens_def Let_def)

lemma source_ok_refill: "source_ok w ix params (ss_refill params' cost ms s) \<longleftrightarrow> source_ok w ix params s"
  by (simp add: source_ok_def)

lemma touch_scan_dom:
  "touch_scan params cost es idle parked = (i, p) \<Longrightarrow>
   (\<forall>k. i = Some k \<longrightarrow> idle = Some k \<or> k \<in> fst ` set es) \<and> (\<forall>n k. p = Some (n, k) \<longrightarrow> parked = Some (n, k) \<or> k \<in> fst ` set es)"
proof (induction params cost es idle parked rule: touch_scan.induct)
  case (2 params cost j s es idle parked)
  then show ?case by (fastforce simp: Let_def split: if_splits)
qed simp

lemma touch_room_ok:
  assumes "ingest_ok w ix params ing" "touch_room params cost ms source ing = (r, ing')"
  shows "ingest_ok w ix params ing' \<and> in_dups ing' source = in_dups ing source \<and> in_staged ing' source = in_staged ing source \<and>
    (r = Inr () \<longrightarrow> fmlookup (in_sources ing') source = None \<longrightarrow> in_source_count ing' < cp_max_sources params)"
proof (cases "fmlookup (in_sources ing) source = None \<and> cp_max_sources params \<le> in_source_count ing")
  case False
  then show ?thesis using assms by (auto simp: touch_room_def)
next
  case True
  let ?ss = "fmmap (ss_refill params cost ms) (in_sources ing)"
  obtain idle parked where scan: "touch_scan params cost (fm_entries ?ss) None None = (idle, parked)" by fastforce
  let ?v = "case idle of Some i \<Rightarrow> Some i | None \<Rightarrow> map_option snd parked"
  have src: "source_ok w ix params st" if "fmlookup ?ss k = Some st" for k st
    using that assms(1) by (auto simp: ingest_ok_def source_ok_refill)
  show ?thesis
  proof (cases ?v)
    case None
    then have "ing' = ing \<lparr> in_sources := ?ss \<rparr>" "r \<noteq> Inr ()" using assms(2) True scan by (auto simp: touch_room_def Let_def)
    then show ?thesis using assms(1) src True by (auto simp: ingest_ok_def in_source_count_def in_dups_def in_staged_def)
  next
    case (Some v)
    then have ing': "ing' = ing \<lparr> in_sources := fmdrop v ?ss \<rparr>" using assms(2) True scan by (auto simp: touch_room_def Let_def)
    have "v \<in> fst ` set (fm_entries ?ss)"
      using touch_scan_dom [OF scan] Some by (auto split: option.splits)
    then have v: "v |\<in>| fmdom (in_sources ing)" by (auto simp: fm_entries_set fmlookup_dom_iff)
    have "fcard (fmdom (in_sources ing) |-| {|v|}) < fcard (fmdom (in_sources ing))"
      by (rule pfsubset_fcard_mono) (use v in auto)
    then have "in_source_count ing' < cp_max_sources params"
      using assms(1) ing' by (simp add: ingest_ok_def in_source_count_def)
    moreover have "source_ok w ix params st" if "fmlookup (in_sources ing') k = Some st" for k st
      using that src ing' by (auto split: if_splits)
    ultimately show ?thesis using assms(1) ing' True by (auto simp: ingest_ok_def in_dups_def in_staged_def)
  qed
qed

lemma in_touch_ok:
  assumes "ingest_ok w ix params ing" "in_touch params cost ms source ing = (r, ing')"
  shows "ingest_ok w ix params ing' \<and> in_dups ing' source = in_dups ing source \<and> in_staged ing' source = in_staged ing source \<and>
    (r = Inr () \<longrightarrow> fmlookup (in_sources ing') source \<noteq> None)"
proof -
  obtain r1 ing1 where room: "touch_room params cost ms source ing = (r1, ing1)" by fastforce
  note ok = touch_room_ok [OF assms(1) room]
  show ?thesis
  proof (cases r1)
    case (Inl e)
    then show ?thesis using ok room assms(2) by (auto simp: in_touch_def)
  next
    case (Inr u)
    let ?st = "case fmlookup (in_sources ing1) source of Some s \<Rightarrow> s | None \<Rightarrow> source_state_default"
    have ing': "ing' = ing1 \<lparr> in_sources := fmupd source (ss_refill params cost ms ?st) (in_sources ing1) \<rparr>"
      using assms(2) room Inr by (simp add: in_touch_def Let_def)
    have src: "source_ok w ix params ?st"
      using ok by (auto simp: ingest_ok_def source_ok_def source_state_default_def staged_ok_def split: option.splits)
    have "ingest_ok w ix params ing'"
    proof (cases "fmlookup (in_sources ing1) source")
      case None
      then have "in_source_count ing1 < cp_max_sources params" using ok Inr by simp
      moreover have "in_source_count ing' \<le> Suc (in_source_count ing1)"
        using ing' None by (simp add: in_source_count_def fcard_finsert_if)
      ultimately show ?thesis using ok src ing' by (auto simp: ingest_ok_def source_ok_refill split: if_splits)
    next
      case (Some st)
      then show ?thesis using ingest_ok_upd [of w ix params ing1 source] ok src ing' by (simp add: source_ok_refill)
    qed
    moreover have "in_dups ing' source = in_dups ing1 source" "in_staged ing' source = in_staged ing1 source"
      using ing' by (simp_all add: in_dups_def in_staged_def source_state_default_def split: option.splits)
    ultimately show ?thesis using ok ing' by simp
  qed
qed

section \<open>Submissions\<close>

lemma tip_height_total: "arena_ok w ix \<Longrightarrow> hx_tip_height ix \<noteq> None"
  by (auto simp: hx_tip_height_def hx_tip_def hx_tip_index_def hx_node_def arena_ok_def index_ok_def chain_ok_def last_conv_nth)

lemma submit_finish_ok:
  assumes "su_ok w params source su"
  shows "\<exists>su'. submit_finish source su = Some su' \<and> su_ing su' = su_ing su \<and> su_index su' = su_index su \<and>
    su_memo su' = su_memo su \<and> su_connected_out su' = su_connected_out su"
proof -
  obtain h where "hx_tip_height (su_index su) = Some h" using tip_height_total assms by (auto simp: su_ok_def)
  then show ?thesis by (auto simp: submit_finish_def Let_def su_held_def split: option.splits)
qed

lemma open_window_ok:
  assumes "unat (cp_duplicate_window_secs params) * 1000 < 2 ^ 64"
  shows "\<exists>st'. open_window params epoch ms st = Some st' \<and> ss_staged st' = ss_staged st \<and>
    ss_staged_hashes st' = ss_staged_hashes st \<and> unat (ss_dups st') \<le> unat (ss_dups st)"
  using assms by (simp add: open_window_def roll_quota_epoch_def Let_def)

text \<open>
  The arena, the counters and the duplicate window have room for the batch: a batch has at most two
  thousand headers, and a node does not hold four billion headers or receive that many in a minute.
\<close>

definition batch_fits :: "chain_params \<Rightarrow> ingest \<Rightarrow> header_index \<Rightarrow> source_id \<Rightarrow> bytes list \<Rightarrow> bool" where
  "batch_fits params ing ix source raws \<longleftrightarrow>
     length (hx_nodes ix) + in_staged_count ing source + length raws + 1 < 2 ^ 32 \<and>
     in_dups ing source + length raws < 2 ^ 32 \<and> unat (cp_duplicate_window_secs params) * 1000 < 2 ^ 64"

definition ingest_inv :: "header_world \<Rightarrow> chain_params \<Rightarrow> ingest \<Rightarrow> header_index \<Rightarrow> work_cache \<Rightarrow> bool" where
  "ingest_inv w params ing ix memo \<longleftrightarrow> arena_ok w ix \<and> index_reach (hw_limit w) ix \<and> ingest_ok w ix params ing \<and>
     cache_ok (hw_limit w) memo"

lemma refill_shared_fields [simp]:
  "in_sources (refill_shared params ms ing) = in_sources ing" "in_neg (refill_shared params ms ing) = in_neg ing"
  by (simp_all add: refill_shared_def Let_def)

lemma submit_headers_ok:
  assumes w: "world_ok w" "ctx_ok w ctx" "ic_params ctx = params" and inv: "ingest_inv w params ing ix memo"
    and raws: "set raws \<subseteq> hw_raws w" "batch_fits params ing ix source raws"
  shows "\<exists>r su. submit_headers ing ix memo ctx source raws = Some (r, su) \<and> ingest_inv w params (su_ing su) (su_index su) (su_memo su) \<and>
    arena_le ix (su_index su) \<and> (\<forall>rec \<in> set (su_connected_out su). hw_pow w (hr_raw rec) \<and> hx_contains (su_index su) (hr_hash rec))"
proof -
  let ?ing = "refill_shared params (ic_mono_ms ctx) ing"
  define su0 where "su0 = \<lparr> su_ing = ?ing, su_index = ix, su_memo = memo,
     su_out = \<lparr> acc_connected = 0, acc_duplicates = 0, acc_rejected = 0, acc_staged = 0, acc_verified_height = 0,
       acc_first_rejection = None, acc_first_held = None \<rparr>,
     su_batch_dups = 0, su_staged_first = None, su_connected_out = [], su_observed = [] \<rparr>"
  obtain r1 ing1 where touch: "in_touch params (ic_cost_micros ctx) (ic_mono_ms ctx) source ?ing = (r1, ing1)" by fastforce
  have "ingest_ok w ix params ?ing" using inv by (simp add: ingest_inv_def ingest_ok_def in_source_count_def)
  note t = in_touch_ok [OF this touch]
  show ?thesis
  proof (cases r1)
    case (Inl e)
    have "submit_headers ing ix memo ctx source raws = Some (Inl e, su0 \<lparr> su_ing := ing1 \<rparr>)"
      using touch Inl w(3) by (simp add: submit_headers_def su0_def)
    then show ?thesis using inv t by (simp add: su0_def ingest_inv_def)
  next
    case (Inr u)
    obtain st1 where st1: "fmlookup (in_sources ing1) source = Some st1" using t Inr by auto
    obtain st2 where st2: "open_window params (ic_tip_epoch ctx) (ic_mono_ms ctx) st1 = Some st2" "ss_staged st2 = ss_staged st1"
      "ss_staged_hashes st2 = ss_staged_hashes st1" "unat (ss_dups st2) \<le> unat (ss_dups st1)"
      using open_window_ok raws(2) unfolding batch_fits_def by blast
    obtain h where h: "hx_tip_height ix = Some h" using tip_height_total inv by (auto simp: ingest_inv_def)
    let ?ing2 = "ing1 \<lparr> in_sources := fmupd source st2 (in_sources ing1) \<rparr>"
    define su1 where "su1 = su0 \<lparr> su_ing := ?ing2, su_out := (su_out su0) \<lparr> acc_verified_height := h \<rparr> \<rparr>"
    have "source_ok w ix params st2" using t st1 st2 unfolding ingest_ok_def source_ok_def by metis
    then have "ingest_ok w ix params ?ing2" using ingest_ok_upd [of w ix params ing1 source] t st1 by simp
    then have ok: "su_ok w params source su1" using inv by (simp add: su1_def su0_def su_ok_def ingest_inv_def)
    have cnt: "in_staged_count ?ing2 source = in_staged_count ing source" "in_dups ?ing2 source \<le> in_dups ing source"
      using t st1 st2 by (simp_all add: in_staged_count_def in_staged_def in_dups_def)
    let ?B = "length (hx_nodes ix) + in_staged_count ing source + length raws"
    have rm: "room ?B (length raws) source su1"
      using raws(2) cnt by (simp add: room_def su1_def su0_def batch_fits_def)
    obtain su2 where s2: "submit_loop ctx source raws su1 = Some su2" "su_ok w params source su2" "su_grown w su1 su2" "room ?B 0 source su2"
      using submit_loop_ok [OF w ok rm raws(1)] by blast
    obtain su3 where s3: "Option.bind (promote ctx source su2) add_connected = Some su3" "su_ok w params source su3" "su_grown w su2 su3"
      using promote_connected_ok [OF w(1, 2) s2(2, 4)] by blast
    obtain su4 where s4: "submit_finish source su3 = Some su4" "su_ing su4 = su_ing su3" "su_index su4 = su_index su3"
      "su_memo su4 = su_memo su3" "su_connected_out su4 = su_connected_out su3" using submit_finish_ok [OF s3(2)] by blast
    have run: "submit_headers ing ix memo ctx source raws = Some (Inr (su_out su4), su4)"
      using touch Inr w(3) st1 st2(1) h s2(1) s3(1) s4(1)
      by (auto simp: submit_headers_def su1_def su0_def bind_eq_Some_conv)
    have "su_grown w su1 su3" by (rule su_grown_trans [OF s2(3) s3(3)])
    then show ?thesis using run s3(2) s4 by (auto simp: su_grown_def su_ok_def ingest_inv_def su1_def su0_def)
  qed
qed

end
