(* ===== verification/Header_Reach.thy ===== *)
theory Header_Reach
  imports Header_Submit
begin

text \<open>
  Every sequence of header batches, source removals and changes of the arena by the chain manager, and the
  properties of header ingest over such sequences.
\<close>

section \<open>Changes by the chain manager\<close>

lemma node_is_same:
  assumes "same_links nodes nodes'" "i < length nodes"
  shows "node_is w rs (nodes' ! i) \<longleftrightarrow> node_is w rs (nodes ! i)"
  using assms by (simp add: same_links_def node_is_def)

lemma arena_ok_links:
  assumes "arena_ok w ix" "index_ok ix'" "same_links (hx_nodes ix) (hx_nodes ix')"
  shows "arena_ok w ix'"
  unfolding arena_ok_def
proof (intro conjI allI impI assms(2))
  let ?N = "hx_nodes ix" and ?M = "hx_nodes ix'"
  fix i assume "i < length ?M"
  then have i: "i < length ?N" using assms(3) by (simp add: same_links_def)
  have "0 < i \<Longrightarrow> parent_of ?N i < length ?N"
    using tree_parent(1) [of ?N i] i assms(1) by (simp add: arena_ok_def index_ok_def)
  then show "\<exists>rs. node_is w rs (?M ! i) \<and> (0 < i \<longrightarrow> node_is w (butlast rs) (?M ! parent_of ?M i) \<and> hw_pow w (last rs))"
    using assms(1) i unfolding arena_ok_def
    by (auto simp: node_is_same [OF assms(3)] same_links_parent [OF assms(3) i])
qed

text \<open>The first headers of the canonical chain, up to the base of every staged header, are kept.\<close>

definition keeps_bases :: "ingest \<Rightarrow> header_index \<Rightarrow> u32 list \<Rightarrow> bool" where
  "keeps_bases ing ix chain \<longleftrightarrow>
     (\<forall>k st s. fmlookup (in_sources ing) k = Some st \<longrightarrow> s \<in> set (ss_staged st) \<longrightarrow>
        take (Suc (unat (sg_branch_base_height s))) chain = take (Suc (unat (sg_branch_base_height s))) (hx_canonical ix))"

lemma base_sound_links:
  assumes "base_sound w ix rs base" "arena_ok w ix" "same_links (hx_nodes ix) (hx_nodes ix')"
    and "take (Suc (unat base)) (hx_canonical ix') = take (Suc (unat base)) (hx_canonical ix)"
  shows "base_sound w ix' rs base"
proof -
  let ?b = "unat base"
  have b: "?b < length (hx_canonical ix)" using assms(1) by (simp add: base_sound_def)
  have "length (take (Suc ?b) (hx_canonical ix')) = Suc ?b" using assms(4) b by simp
  then have b': "?b < length (hx_canonical ix')" by simp
  have "hx_canonical ix' ! ?b = hx_canonical ix ! ?b" using assms(4) by (metis lessI nth_take)
  moreover have "unat (hx_canonical ix ! ?b) < length (hx_nodes ix)"
    using b assms(2) by (simp add: arena_ok_def index_ok_def chain_ok_def)
  ultimately show ?thesis using assms(1) b' by (simp add: base_sound_def node_is_same [OF assms(3)])
qed

lemma ingest_ok_links:
  assumes "ingest_ok w ix params ing" "arena_ok w ix" "same_links (hx_nodes ix) (hx_nodes ix')" "hx_by_hash ix' = hx_by_hash ix"
    and "hw_asert w \<longrightarrow> keeps_bases ing ix (hx_canonical ix')"
  shows "ingest_ok w ix' params ing"
  unfolding ingest_ok_def
proof (intro conjI allI impI)
  fix k st assume st: "fmlookup (in_sources ing) k = Some st"
  then have src: "source_ok w ix params st" using assms(1) unfolding ingest_ok_def by blast
  let ?L = "ss_staged st"
  have "staged_ok w ix' ?L"
    unfolding staged_ok_def
  proof (intro allI impI)
    fix i assume i: "i < length ?L"
    then obtain rs where rs: "staged_is w rs (?L ! i)" "hw_asert w \<longrightarrow> base_sound w ix rs (sg_branch_base_height (?L ! i))"
      "hx_contains ix (hr_prev_hash (sg_rec (?L ! i))) \<or> (\<exists>j < i. hr_hash (sg_rec (?L ! j)) = hr_prev_hash (sg_rec (?L ! i)))"
      using src unfolding source_ok_def staged_ok_def by blast
    have "hw_asert w \<longrightarrow> base_sound w ix' rs (sg_branch_base_height (?L ! i))"
      using base_sound_links [OF _ assms(2, 3)] rs(2) assms(5) st i nth_mem unfolding keeps_bases_def by blast
    then show "\<exists>rs. staged_is w rs (?L ! i) \<and>
        (hx_contains ix' (hr_prev_hash (sg_rec (?L ! i))) \<or> (\<exists>j < i. hr_hash (sg_rec (?L ! j)) = hr_prev_hash (sg_rec (?L ! i)))) \<and>
        (hw_asert w \<longrightarrow> base_sound w ix' rs (sg_branch_base_height (?L ! i)))"
      using rs assms(4) unfolding hx_contains_def by auto
  qed
  then show "source_ok w ix' params st" using src by (simp add: source_ok_def)
qed (use assms(1) in \<open>simp_all add: ingest_ok_def\<close>)

lemma ingest_inv_links:
  assumes "ingest_inv w params ing ix memo" "index_reach (hw_limit w) ix'" "same_links (hx_nodes ix) (hx_nodes ix')"
    "hx_by_hash ix' = hx_by_hash ix" "hw_asert w \<longrightarrow> keeps_bases ing ix (hx_canonical ix')"
  shows "ingest_inv w params ing ix' memo"
  using assms arena_ok_links [OF _ index_reach_ok [OF assms(2)] assms(3)] ingest_ok_links [OF _ _ assms(3-5)]
  unfolding ingest_inv_def by blast

lemma keeps_bases_same: "hx_canonical ix' = hx_canonical ix \<Longrightarrow> keeps_bases ing ix (hx_canonical ix')"
  by (simp add: keeps_bases_def)

lemma or_flag_links:
  assumes "hx_or_flag ix idx f = Some ix'"
  shows "same_links (hx_nodes ix) (hx_nodes ix')" "hx_by_hash ix' = hx_by_hash ix" "hx_canonical ix' = hx_canonical ix"
  using assms by (auto simp: hx_or_flag_Some intro: same_links_upd)

lemma mark_invalid_links:
  assumes "index_ok ix" "hx_mark_invalid ix idx = Some (p, ix')"
  shows "same_links (hx_nodes ix) (hx_nodes ix')" "hx_by_hash ix' = hx_by_hash ix" "hx_canonical ix' = hx_canonical ix"
proof -
  have "unat idx < length (hx_nodes ix)" using assms(2) by (auto simp: hx_mark_invalid_def hx_or_flag_Some bind_eq_Some_conv)
  from hx_mark_invalid_spec [OF assms(1) this] obtain p' nodes' where
    "hx_mark_invalid ix idx = Some (p', ix \<lparr> hx_nodes := nodes' \<rparr>)" "same_links (hx_nodes ix) nodes'" by blast
  then show "same_links (hx_nodes ix) (hx_nodes ix')" "hx_by_hash ix' = hx_by_hash ix" "hx_canonical ix' = hx_canonical ix"
    using assms(2) by simp_all
qed

lemma set_canonical_links:
  assumes "index_ok ix" "hx_set_canonical ix chain = Some ix'"
  shows "same_links (hx_nodes ix) (hx_nodes ix')" "hx_by_hash ix' = hx_by_hash ix" "hx_canonical ix' = chain"
proof -
  have "tree_ok (hx_nodes ix)" using assms(1) by (simp add: index_ok_def)
  from rebase_loop_spec [OF this, of 0 chain] obtain nodes' where
    "rebase_loop chain (hx_nodes ix) [0..<length (hx_nodes ix)] = Some nodes'" "same_links (hx_nodes ix) nodes'" by auto
  then show "same_links (hx_nodes ix) (hx_nodes ix')" "hx_by_hash ix' = hx_by_hash ix" "hx_canonical ix' = chain"
    using assms(2) by (auto simp: hx_set_canonical_def)
qed

section \<open>Reachable states\<close>

text \<open>
  Genesis, then batches of headers from any source with any clock, store, checkpoints and tip, sources
  forgotten, bodies marked, branches poisoned and canonical chains installed.  When the difficulty rule is
  part of the claim a new canonical chain keeps the base of every staged header.
\<close>

inductive ingest_reach :: "header_world \<Rightarrow> chain_params \<Rightarrow> ingest \<Rightarrow> header_index \<Rightarrow> work_cache \<Rightarrow> bool" for w params where
  ing_start: "header_rec_from_raw (hw_genesis w) = Some rec \<Longrightarrow> bits_work (hr_bits rec) (hw_limit w) = Some bw \<Longrightarrow>
    hx_insert_genesis hx_new rec bw = Some (i, ix) \<Longrightarrow> ingest_reach w params (ingest_new params) ix work_cache_new"
| ing_submit: "ingest_reach w params ing ix memo \<Longrightarrow> ctx_ok w ctx \<Longrightarrow> ic_params ctx = params \<Longrightarrow> set raws \<subseteq> hw_raws w \<Longrightarrow>
    batch_fits params ing ix source raws \<Longrightarrow> submit_headers ing ix memo ctx source raws = Some (r, su) \<Longrightarrow>
    ingest_reach w params (su_ing su) (su_index su) (su_memo su)"
| ing_forget: "ingest_reach w params ing ix memo \<Longrightarrow> ingest_reach w params (in_forget ing source) ix memo"
| ing_have_body: "ingest_reach w params ing ix memo \<Longrightarrow> hx_set_have_body ix idx = Some ix' \<Longrightarrow> ingest_reach w params ing ix' memo"
| ing_mark_invalid: "ingest_reach w params ing ix memo \<Longrightarrow> hx_mark_invalid ix idx = Some (p, ix') \<Longrightarrow> ingest_reach w params ing ix' memo"
| ing_set_canonical: "ingest_reach w params ing ix memo \<Longrightarrow> chain_ok (hx_nodes ix) chain \<Longrightarrow>
    (hw_asert w \<longrightarrow> keeps_bases ing ix chain) \<Longrightarrow> hx_set_canonical ix chain = Some ix' \<Longrightarrow> ingest_reach w params ing ix' memo"

lemma start_inv:
  assumes "world_ok w" "header_rec_from_raw (hw_genesis w) = Some rec" "bits_work (hr_bits rec) (hw_limit w) = Some bw"
    "hx_insert_genesis hx_new rec bw = Some (i, ix)"
  shows "ingest_inv w params (ingest_new params) ix work_cache_new"
proof -
  let ?g = "hw_genesis w"
  have rec: "hr_hash rec = header_hash ?g" "hr_height rec = 0" "hr_time rec = hdr_time (hdr_of ?g)" "hr_bits rec = hdr_bits (hdr_of ?g)"
    using assms(1, 2) by (auto simp: header_rec_from_raw_def hdr_of_def world_ok_def split: sum.splits)
  have "wf_work bw"
    using assms(3) bits_work_val [of "hr_bits rec" "hw_limit w"] assms(1)
    by (auto simp: bits_work_def world_ok_def split: option.splits)
  then have reach: "index_reach (hw_limit w) ix" by (rule reach_genesis [OF assms(4) rec(2) assms(3)])
  obtain n where nodes: "hx_nodes ix = [n]" "nd_hash n = hr_hash rec" "nd_height n = 0" "nd_time n = hr_time rec"
    "nd_bits n = hr_bits rec" "nd_cum_work n = bw" using assms(4) rec(2) by (auto simp: hx_insert_genesis_def hx_new_def)
  have "node_is w [?g] n" using nodes rec assms(3) hc_genesis [of w] by (simp add: node_is_def label_def)
  then have "arena_ok w ix" using nodes(1) index_reach_ok [OF reach] by (auto simp: arena_ok_def)
  moreover have "ingest_ok w ix params (ingest_new params)"
    by (simp add: ingest_ok_def ingest_new_def neg_ok_def nc_new_def in_source_count_def fcard_fempty)
  ultimately show ?thesis using reach cache_ok_new by (simp add: ingest_inv_def)
qed

lemma forget_inv:
  assumes "ingest_inv w params ing ix memo"
  shows "ingest_inv w params (in_forget ing source) ix memo"
proof -
  have "fcard (fmdom (in_sources ing) |-| {|source|}) \<le> fcard (fmdom (in_sources ing))" by (rule fcard_mono) auto
  then have "ingest_ok w ix params (in_forget ing source)"
    using assms by (auto simp: ingest_inv_def ingest_ok_def in_forget_def in_source_count_def split: if_splits)
  then show ?thesis using assms by (simp add: ingest_inv_def)
qed

lemma ingest_reach_inv:
  assumes "ingest_reach w params ing ix memo" "world_ok w"
  shows "ingest_inv w params ing ix memo"
  using assms
proof (induction rule: ingest_reach.induct)
  case (ing_start rec bw i ix)
  then show ?case using start_inv by blast
next
  case (ing_submit ing ix memo ctx raws source r su)
  then show ?case using submit_headers_ok [of w ctx params ing ix memo raws source] by auto
next
  case (ing_forget ing ix memo source)
  then show ?case using forget_inv by blast
next
  case (ing_have_body ing ix memo idx ix')
  then have inv: "ingest_inv w params ing ix memo" by blast
  then have "index_reach (hw_limit w) ix'" using reach_have_body ing_have_body.hyps(2) unfolding ingest_inv_def by blast
  then show ?case
    using ingest_inv_links [OF inv] or_flag_links ing_have_body.hyps(2) keeps_bases_same unfolding hx_set_have_body_def by blast
next
  case (ing_mark_invalid ing ix memo idx p ix')
  then have inv: "ingest_inv w params ing ix memo" by blast
  then have "index_reach (hw_limit w) ix'" "index_ok ix"
    using reach_mark_invalid ing_mark_invalid.hyps(2) index_reach_ok unfolding ingest_inv_def by blast+
  then show ?case
    using ingest_inv_links [OF inv] mark_invalid_links [OF _ ing_mark_invalid.hyps(2)] keeps_bases_same by blast
next
  case (ing_set_canonical ing ix memo chain ix')
  then have inv: "ingest_inv w params ing ix memo" by blast
  then have "index_reach (hw_limit w) ix'" "index_ok ix"
    using reach_set_canonical ing_set_canonical.hyps index_reach_ok unfolding ingest_inv_def by blast+
  then show ?case
    using ingest_inv_links [OF inv] set_canonical_links [OF _ ing_set_canonical.hyps(4)] ing_set_canonical.hyps(3) by simp
qed

section \<open>A small world\<close>

definition sample_genesis :: header where
  "sample_genesis =
     \<lparr> hdr_version = VERSION_BASE, hdr_height = 0, hdr_prev_hash = replicate 32 0, hdr_tx_root = replicate 32 0,
       hdr_ext_root = replicate 32 0, hdr_time = 1000, hdr_bits = 0x1f00ffff, hdr_author_note_len = 0, hdr_nonce = 0 \<rparr>"

definition sample_world :: header_world where
  "sample_world =
     \<lparr> hw_raws = {header_encode sample_genesis}, hw_genesis = header_encode sample_genesis, hw_limit = sample_limit,
       hw_interval = 0, hw_genesis_time = 1000, hw_pow = (\<lambda>_. True), hw_asert = True \<rparr>"

lemma sample_genesis_decode: "header_decode (header_encode sample_genesis) = Inr sample_genesis"
  by (rule header_decode_encode) (simp add: wf_header_def sample_genesis_def)

lemma sample_world_ok: "world_ok sample_world"
  using sample_genesis_decode
  by (simp add: world_ok_def sample_world_def hdr_of_def wf_target_def sample_limit_def) (simp add: sample_genesis_def)

lemma sample_start: "\<exists>ix. ingest_reach sample_world params (ingest_new params) ix work_cache_new \<and> length (hx_nodes ix) = 1"
proof -
  obtain bw where bw: "bits_work 0x1f00ffff sample_limit = Some bw" using sample_bits_work by blast
  let ?rec = "\<lparr> hr_height = hdr_height sample_genesis, hr_hash = header_hash (header_encode sample_genesis),
    hr_prev_hash = hdr_prev_hash sample_genesis, hr_time = hdr_time sample_genesis, hr_bits = hdr_bits sample_genesis,
    hr_raw = header_encode sample_genesis \<rparr>"
  have rec: "header_rec_from_raw (hw_genesis sample_world) = Some ?rec"
    by (simp add: header_rec_from_raw_def sample_world_def sample_genesis_decode)
  have "bits_work (hr_bits ?rec) (hw_limit sample_world) = Some bw"
    using bw by (simp add: sample_world_def) (simp add: sample_genesis_def)
  moreover obtain i ix where ix: "hx_insert_genesis hx_new ?rec bw = Some (i, ix)" "length (hx_nodes ix) = 1"
    by (simp add: hx_insert_genesis_def hx_new_def)
  ultimately show ?thesis using ing_start [OF rec] by blast
qed

definition sample_ctx :: ingest_ctx where
  "sample_ctx =
     \<lparr> ic_store = empty_store, ic_pow_verify = (\<lambda>_. True), ic_cost_micros = 1, ic_checkpoints = [], ic_anchor = None,
       ic_params = chain_params_default \<lparr> cp_pow_limit := sample_limit, cp_asert_anchor_interval := 0 \<rparr>, ic_now = 2000, ic_mono_ms = 0,
       ic_tip = st_tip empty_store, ic_genesis_time = 1000, ic_solicitation = Unsolicited, ic_tip_epoch = 0, ic_side_capacity = 10 \<rparr>"

section \<open>Properties\<close>



text \<open>
  C2. A batch of headers always returns, from every reachable state and for every content: no lookup is
  out of range, no counter overflows and no walk through arena and staged headers fails to end.  The
  arena only grows, and every header reported as connected is in it and passed the proof-of-work check.
\<close>

theorem submit_headers_total:
  assumes "world_ok w" "ingest_reach w params ing ix memo" "ctx_ok w ctx" "ic_params ctx = params"
    and "set raws \<subseteq> hw_raws w" "batch_fits params ing ix source raws"
  shows "\<exists>r su. submit_headers ing ix memo ctx source raws = Some (r, su) \<and>
    ingest_reach w params (su_ing su) (su_index su) (su_memo su) \<and> arena_le ix (su_index su) \<and>
    (\<forall>rec \<in> set (su_connected_out su). hw_pow w (hr_raw rec) \<and> hx_contains (su_index su) (hr_hash rec))"
  using submit_headers_ok [OF assms(1, 3, 4) ingest_reach_inv [OF assms(2, 1)] assms(5, 6)]
    ing_submit [OF assms(2-6)] by blast

theorem submit_headers_total_witness:
  "\<exists>ix r su. length (hx_nodes ix) = 1 \<and>
     submit_headers (ingest_new (ic_params sample_ctx)) ix work_cache_new sample_ctx 7
       [header_encode sample_genesis] = Some (r, su) \<and> arena_le ix (su_index su)"
proof -
  let ?ctx = sample_ctx
  obtain ix where ix: "ingest_reach sample_world (ic_params ?ctx) (ingest_new (ic_params ?ctx)) ix work_cache_new"
    "length (hx_nodes ix) = 1" using sample_start by blast
  have "ctx_ok sample_world ?ctx" by (simp add: ctx_ok_def sample_ctx_def sample_world_def)
  moreover have "batch_fits (ic_params ?ctx) (ingest_new (ic_params ?ctx)) ix 7 [header_encode sample_genesis]"
    using ix(2) by (simp add: batch_fits_def ingest_new_def in_staged_count_def in_staged_def in_dups_def sample_ctx_def
      chain_params_default_def)
  ultimately show ?thesis
    using submit_headers_total [OF sample_world_ok ix(1), of ?ctx "[header_encode sample_genesis]" 7] ix(2)
    by (auto simp: sample_world_def)
qed



end
