(* ===== verification/Spec2Isabelle.thy ===== *)
theory Spec2Isabelle
  imports Merkle Blake3_Tree Emission Compact Work Time_Rules Reorg_Rules Checkpoints Mempool_Template Ingress Header_Reach
begin

text \<open>
  Verification development for the Plaine node, a proof-of-work coin written in Rust.

  \<^bold>\<open>The program.\<close>  Under \<open>src/\<close> the consensus rules are \<open>lib/consensus\<close> (formats, hashes, difficulty,
  work, time, checkpoints, transactions), the chain logic is \<open>lib/chain\<close> (header arena, fork choice,
  accounts, block validation, reorganisation, checkpoints, transaction pool), the hash function of the
  proof of work is \<open>lib/pow\<close>, and \<open>lib/storage\<close>, \<open>lib/p2p\<close>, \<open>lib/stratum\<close> and \<open>lib/rpc\<close> are the disk, the
  network, the mining server and the JSON interface; \<open>node\<close>, \<open>wallet\<close>, \<open>wallet-gui\<close> and \<open>miner\<close> are the
  programs.  A header comes in from a peer, is checked and put into the arena; fork choice selects the
  tip with the most work; the planner turns the way from the current tip to it into a list of blocks to
  undo and a list to connect; the branch is validated block by block on an overlay over the account
  table, whose changes and undo record are handed to the store.  The pool holds verified transactions
  and gives the block template.

  \<^bold>\<open>Conventions.\<close>  Machine integers are words of their width (\<open>Prelude\<close>), \<open>usize\<close> is \<open>nat\<close>.  The release
  profile has \<open>overflow-checks = true\<close>, so plain arithmetic panics instead of wrapping: where this can
  matter an operation returns \<open>option\<close> and \<open>None\<close> is the panic.  A Rust \<open>Result\<close> is a sum with the error on
  the left, bound by \<open>bindE\<close>, and by \<open>bindP\<close> when it may panic too.  Structs are records with a prefix on
  each field, enums are datatypes.  Byte strings are lists of bytes.  A hash map or B-tree map is a
  finite map, read in ascending order by \<open>fm_entries\<close> (\<open>Fin_Maps\<close>); where the outcome depends on the order of
  a hash map that order is an argument.  Events sent to an observer are returned as a list of
  \<open>condition\<close>.  Loops over the arena and the eviction loop of the pool are \<open>partial_function (option)\<close>, and
  that they return is a theorem, so no fuel is used anywhere.

  \<^bold>\<open>Parameters.\<close>  Signature verification is the dependency \<open>ed25519-dalek\<close>: a record of two functions, with no
  law assumed about it.  The trait \<open>Store\<close> of \<open>lib/chain/src/traits.rs\<close> is the record \<open>chain_store\<close>; theorems about
  a rewind name what they need of its rows as hypotheses.  BLAKE3 is not assumed to be free of
  collisions: the binding theorems say that two inputs are equal or that the strings hashed in the two
  computations contain a collision.

  \<^bold>\<open>Consensus theories\<close>, for \<open>src/lib/consensus/src\<close>.
  \<^item> \<open>Constants\<close>: \<open>constants.rs\<close>.
  \<^item> \<open>Codec\<close>, \<open>Block_Body\<close>: \<open>codec.rs\<close>.  The locale \<open>byte_codec\<close> states once what a strict format promises, an
    encoder and a decoder that are inverse to each other on well-formed values; headers, the three kinds of
    transaction, author notes, transactions, block bodies and checkpoint records interpret it.
  \<^item> \<open>Hex\<close>: \<open>hex.rs\<close>.
  \<^item> \<open>Blake3\<close>, \<open>Blake3_Tree\<close>: \<open>blake3.rs\<close>.  The incremental hasher with its stack of chaining values computes the
    recursive tree hash, for every way of cutting the input into updates, and the stack never exceeds its
    54 entries.
  \<^item> \<open>Crypto\<close>: \<open>crypto.rs\<close>, the hashes and the signed messages.  \<open>Merkle\<close>: \<open>merkle.rs\<close>, roots, proofs and their
    soundness and completeness.
  \<^item> \<open>Limbs\<close>, \<open>Asert\<close>, \<open>Compact\<close>: \<open>asert.rs\<close>.  The 256-bit and 320-bit limb arithmetic against natural
    numbers, the difficulty rule against its formula, and the compact form of targets.
  \<^item> \<open>Work\<close>, \<open>Time_Rules\<close>, \<open>Signed_Checkpoint\<close>, \<open>Reorg_Rules\<close>: \<open>rules.rs\<close> and \<open>checkpoint_record.rs\<close>.  512-bit work, median
    time and maturity, the threshold rule of signed checkpoints, and the decision whether a branch is
    adopted.
  \<^item> \<open>Emission\<close>, \<open>Tx_Rules\<close>: \<open>emission.rs\<close> and \<open>tx.rs\<close>.

  \<^bold>\<open>Chain theories\<close>, for \<open>src/lib/chain/src\<close>.
  \<^item> \<open>Chain_Types\<close>: \<open>types.rs\<close> and \<open>error.rs\<close>.  \<open>Chain_Work\<close>: \<open>work.rs\<close>, with the direct-mapped cache of work values.
  \<^item> \<open>Header_Index\<close>, \<open>Index_Walks\<close>: \<open>index.rs\<close>.  The reachable arenas (\<open>index_reach\<close>) and their invariant \<open>index_ok\<close>;
    every walk along parents returns; poisoning marks exactly the descendants.
  \<^item> \<open>Fork_Choice\<close>: \<open>forkchoice.rs\<close>.  The selection is maximal, and the plan connects tip and candidate.  The locale
    \<open>chain_view_impl\<close> gives what the reorganisation rule reads of a chain; the arena interprets it, and through it
    an adopted plan refines the rule of \<open>Reorg_Rules\<close>.
  \<^item> \<open>Chain_State\<close>, \<open>Body_Validation\<close>: \<open>state.rs\<close> and \<open>body.rs\<close>.  Validation never panics, conserves money, makes nonces
    advance and rewards wait, and its undo record restores the accounts.
  \<^item> \<open>Branch\<close>: \<open>reorg.rs\<close> and the read side of \<open>traits.rs\<close>.  The same over a rewind and a whole branch.
  \<^item> \<open>Checkpoints\<close>: \<open>checkpoints.rs\<close>.  An enforced checkpoint stays final over every run.
  \<^item> \<open>Mempool\<close>, \<open>Mempool_Index\<close>, \<open>Mempool_Runs\<close>, \<open>Mempool_Safety\<close>, \<open>Mempool_Reach\<close>, \<open>Mempool_Template\<close>: the pool of \<open>mempool.rs\<close>.  Every operation
    of a reachable pool (\<open>pool_reach\<close>) returns and keeps the indices in agreement, the limits, the unbroken run of
    nonces of each sender and its solvency.  \<open>Ingress\<close>: the token buckets in front of the pool.
\<close>

end
